(* ===== verification/Prelude.thy ===== *)
theory Prelude
  imports Main "HOL-Library.Word" "HOL-Library.Multiset"
begin

text \<open>
  Shared vocabulary of the development: machine integers and bytes, the error codes of the
  driver, little-endian encodings (the in-memory layout of the packed structures that are
  copied to the metadata device), the two operations \<open>memcpy\<close> performs on a byte buffer
  (\<open>slice\<close> reads, \<open>overwrite\<close> writes), the byte-addressed file behind
  \<open>kernel_read\<close> and \<open>kernel_write\<close>, and the list facts the components share.
\<close>

unbundle bit_operations_syntax

named_theorems buf_simps \<open>reading and writing byte buffers and files\<close>
named_theorems len_simps \<open>lengths of encoded structures\<close>

section \<open>Machine integers, bytes and results\<close>

type_synonym byte = "8 word"
type_synonym u32 = "32 word"
type_synonym u64 = "64 word"

text \<open>The negative error numbers the driver returns; success is a value of \<open>'a\<close>.\<close>

datatype errno = EINVAL | ENOMEM | ENODATA | ENOSPC | EAGAIN | EPERM | EBADMSG | EWOULDBLOCK | EIO

type_synonym 'a result = "errno + 'a"

fun is_ok :: "'a result \<Rightarrow> bool" where
  "is_ok (Inl e) = False"
| "is_ok (Inr x) = True"

lemma is_ok_iff: "is_ok r \<longleftrightarrow> (\<exists>x. r = Inr x)"
  by (cases r) auto

section \<open>Little-endian encodings\<close>

primrec le_bytes :: "nat \<Rightarrow> nat \<Rightarrow> byte list" where
  "le_bytes 0 n = []"
| "le_bytes (Suc w) n = word_of_nat n # le_bytes w (n div 256)"

primrec le_nat :: "byte list \<Rightarrow> nat" where
  "le_nat [] = 0"
| "le_nat (b # bs) = unat b + 256 * le_nat bs"

lemma length_le_bytes [simp, len_simps]: "length (le_bytes w n) = w"
  by (induction w arbitrary: n) auto

lemma unat_byte: "unat (word_of_nat n :: byte) = n mod 256"
  by (simp add: unat_of_nat)

lemma le_nat_le_bytes: "le_nat (le_bytes w n) = n mod 256 ^ w"
proof (induction w arbitrary: n)
  case 0
  then show ?case by simp
next
  case (Suc w)
  have "le_nat (le_bytes (Suc w) n) = n mod 256 + 256 * ((n div 256) mod 256 ^ w)"
    by (simp add: unat_byte Suc.IH)
  also have "\<dots> = n mod (256 * 256 ^ w)"
    by (simp add: mod_mult2_eq)
  finally show ?case by simp
qed

lemma le_nat_le_bytes_id [simp]: "n < 256 ^ w \<Longrightarrow> le_nat (le_bytes w n) = n"
  by (simp add: le_nat_le_bytes)

lemma le_nat_less: "le_nat bs < 256 ^ length bs"
proof (induction bs)
  case Nil
  then show ?case by simp
next
  case (Cons b bs)
  have "unat b < 256" using unsigned_less [of b, where 'a = nat] by simp
  then have "unat b + 256 * le_nat bs < 256 * Suc (le_nat bs)" by simp
  also have "\<dots> \<le> 256 * 256 ^ length bs"
    using Cons.IH by (intro mult_le_mono) auto
  finally show ?case by simp
qed

lemma le_bytes_le_nat: "le_bytes (length bs) (le_nat bs) = bs"
proof (induction bs)
  case Nil
  then show ?case by simp
next
  case (Cons b bs)
  have b: "unat b < 256" using unsigned_less [of b, where 'a = nat] by simp
  then have "(unat b + 256 * le_nat bs) div 256 = le_nat bs" by simp
  moreover have "(word_of_nat (unat b + 256 * le_nat bs) :: byte) = b"
  proof (rule unsigned_word_eqI [where 'a = nat])
    show "unat (word_of_nat (unat b + 256 * le_nat bs) :: byte) = unat b"
      unfolding unat_byte using b by simp
  qed
  ultimately show ?case using Cons.IH by simp
qed

section \<open>Byte buffers\<close>

text \<open>\<open>slice pos n buf\<close> is what \<open>memcpy(dst, buf + pos, n)\<close> reads;
  \<open>overwrite pos new buf\<close> is \<open>buf\<close> after \<open>memcpy(buf + pos, new, length new)\<close>.\<close>

definition slice :: "nat \<Rightarrow> nat \<Rightarrow> 'a list \<Rightarrow> 'a list" where
  "slice pos n xs = take n (drop pos xs)"

definition overwrite :: "nat \<Rightarrow> 'a list \<Rightarrow> 'a list \<Rightarrow> 'a list" where
  "overwrite pos new xs = take pos xs @ new @ drop (pos + length new) xs"

lemma length_slice [len_simps]: "pos + n \<le> length xs \<Longrightarrow> length (slice pos n xs) = n"
  by (simp add: slice_def)

lemma length_overwrite [len_simps]:
  "pos + length new \<le> length xs \<Longrightarrow> length (overwrite pos new xs) = length xs"
  by (simp add: overwrite_def)

lemma slice_overwrite_same [buf_simps]:
  "pos + length new \<le> length xs \<Longrightarrow> n = length new \<Longrightarrow> slice pos n (overwrite pos new xs) = new"
  by (simp add: slice_def overwrite_def)

lemma nth_overwrite:
  assumes "pos + length new \<le> length xs" "i < length xs"
  shows "overwrite pos new xs ! i =
    (if pos \<le> i \<and> i < pos + length new then new ! (i - pos) else xs ! i)"
  using assms by (auto simp: overwrite_def nth_append min_def)

lemma nth_slice: "pos + n \<le> length xs \<Longrightarrow> i < n \<Longrightarrow> slice pos n xs ! i = xs ! (pos + i)"
  by (simp add: slice_def)

lemma slice_overwrite_disjoint [buf_simps]:
  assumes "pos + length new \<le> length xs" "p + n \<le> length xs"
    and "p + n \<le> pos \<or> pos + length new \<le> p"
  shows "slice p n (overwrite pos new xs) = slice p n xs"
proof (rule nth_equalityI)
  show "length (slice p n (overwrite pos new xs)) = length (slice p n xs)"
    using assms by (simp add: len_simps)
next
  fix i assume "i < length (slice p n (overwrite pos new xs))"
  then have i: "i < n" using assms by (simp add: len_simps)
  show "slice p n (overwrite pos new xs) ! i = slice p n xs ! i"
    using assms i by (auto simp: nth_slice nth_overwrite length_overwrite)
qed

lemma slice_append_left: "pos + n \<le> length xs \<Longrightarrow> slice pos n (xs @ ys) = slice pos n xs"
  by (simp add: slice_def)

lemma slice_append_right:
  "length xs \<le> pos \<Longrightarrow> slice pos n (xs @ ys) = slice (pos - length xs) n ys"
  by (simp add: slice_def)

lemma slice_self [simp]: "n = length xs \<Longrightarrow> slice 0 n xs = xs"
  by (simp add: slice_def)

lemma slice_replicate: "p + n \<le> m \<Longrightarrow> slice p n (replicate m x) = replicate n x"
  by (simp add: slice_def min_def)

section \<open>Byte-addressed files\<close>

text \<open>The block device opened as a file: \<open>kernel_write\<close> and \<open>kernel_read\<close> with an
  explicit position. The driver never looks at their results.\<close>

type_synonym bfile = "nat \<Rightarrow> byte"

definition kernel_write :: "bfile \<Rightarrow> byte list \<Rightarrow> nat \<Rightarrow> bfile" where
  "kernel_write f buf pos = (\<lambda>a. if pos \<le> a \<and> a < pos + length buf then buf ! (a - pos) else f a)"

definition kernel_read :: "bfile \<Rightarrow> nat \<Rightarrow> nat \<Rightarrow> byte list" where
  "kernel_read f n pos = map f [pos..<pos + n]"

lemma length_kernel_read [simp, len_simps]: "length (kernel_read f n pos) = n"
  by (simp add: kernel_read_def)

lemma kernel_read_write_same [buf_simps]:
  "n = length buf \<Longrightarrow> kernel_read (kernel_write f buf pos) n pos = buf"
  by (rule nth_equalityI) (auto simp: kernel_read_def kernel_write_def)

lemma kernel_read_write_disjoint [buf_simps]:
  "p + n \<le> pos \<or> pos + length buf \<le> p \<Longrightarrow>
   kernel_read (kernel_write f buf pos) n p = kernel_read f n p"
  by (auto simp: kernel_read_def kernel_write_def)

lemma kernel_read_write_slice:
  assumes "pos \<le> p" "p + n \<le> pos + length buf"
  shows "kernel_read (kernel_write f buf pos) n p = slice (p - pos) n buf"
  by (rule nth_equalityI) (use assms in \<open>auto simp: kernel_read_def kernel_write_def nth_slice len_simps\<close>)

lemma take_kernel_read: "m \<le> n \<Longrightarrow> take m (kernel_read f n p) = kernel_read f m p"
  by (simp add: kernel_read_def take_map)

section \<open>Lists\<close>

lemma all_less_add: "(\<forall>s < m + n. P s) \<longleftrightarrow> (\<forall>s < m. P s) \<and> (\<forall>t < n. P (m + t))" for m n :: nat
proof safe
  fix s assume "\<forall>s < m. P s" "\<forall>t < n. P (m + t)" "s < m + n"
  then show "P s" by (cases "s < m") (auto dest: spec [of _ "s - m"])
qed auto

lemma map_eqI: "(\<And>k v. f k = Some v \<longleftrightarrow> g k = Some v) \<Longrightarrow> f = g"
  by (rule ext) (metis not_None_eq)

lemma map_of_key_val:
  "distinct (map f xs) \<Longrightarrow>
   map_of (map (\<lambda>x. (f x, g x)) xs) k = Some v \<longleftrightarrow> (\<exists>x \<in> set xs. f x = k \<and> g x = v)"
  by (induction xs) (auto simp: rev_image_eqI)

lemma sorted_wrt_less_distinct: "sorted_wrt (<) xs \<Longrightarrow> distinct (xs :: 'a::linorder list)"
  by (simp add: strict_sorted_iff)

lemma map_of_distinct_iff: "distinct (map fst xs) \<Longrightarrow> map_of xs k = Some v \<longleftrightarrow> (k, v) \<in> set xs"
  by (rule map_of_eq_Some_iff)

lemma kv_sorted_unique:
  fixes xs ys :: "('k::linorder \<times> 'v) list"
  assumes "sorted_wrt (<) (map fst xs)" "sorted_wrt (<) (map fst ys)" "map_of xs = map_of ys"
  shows "xs = ys"
proof -
  have d: "distinct (map fst xs)" "distinct (map fst ys)"
    using assms by (simp_all add: sorted_wrt_less_distinct)
  have "set xs = set ys"
    using map_of_distinct_iff [OF d(1)] map_of_distinct_iff [OF d(2)] assms(3) by auto
  moreover have "sorted_wrt (\<lambda>a b. fst a < fst b) xs" "sorted_wrt (\<lambda>a b. fst a < fst b) ys"
    using assms by (simp_all add: sorted_wrt_map)
  ultimately show ?thesis
  proof (induction xs arbitrary: ys)
    case Nil
    then show ?case by simp
  next
    case (Cons x xs)
    then obtain y ys' where ys: "ys = y # ys'" by (cases ys) auto
    have "x \<in> set (y # ys')" "y \<in> set (x # xs)" using Cons.prems(1) by (auto simp: ys)
    then have "x = y" using Cons.prems(2,3) less_asym [of "fst x" "fst y"] by (auto simp: ys)
    moreover have "x \<notin> set xs" "y \<notin> set ys'" using Cons.prems by (auto simp: ys)
    ultimately have "set xs = set ys'" using Cons.prems by (auto simp: ys)
    then show ?case using Cons \<open>x = y\<close> by (simp add: ys)
  qed
qed

text \<open>The values present in a table of optional cells.\<close>

definition somes :: "'a option list \<Rightarrow> 'a list" where
  "somes hs = map the (filter (\<lambda>h. h \<noteq> None) hs)"

lemma somes_split:
  "i < length hs \<Longrightarrow> somes (hs[i := x]) = somes (take i hs) @ (case x of None \<Rightarrow> [] | Some t \<Rightarrow> [t]) @ somes (drop (Suc i) hs)"
  by (simp add: somes_def upd_conv_take_nth_drop split: option.split)

lemma somes_mset:
  assumes "i < length hs"
  shows "hs ! i = None \<Longrightarrow> mset (somes (hs[i := Some t])) = add_mset t (mset (somes hs))"
    and "hs ! i = Some t \<Longrightarrow> mset (somes hs) = add_mset t (mset (somes (hs[i := None])))"
proof -
  have e: "somes hs = somes (take i hs) @ (case hs ! i of None \<Rightarrow> [] | Some t \<Rightarrow> [t]) @ somes (drop (Suc i) hs)"
    using somes_split [OF assms, of "hs ! i"] by simp
  show "hs ! i = None \<Longrightarrow> mset (somes (hs[i := Some t])) = add_mset t (mset (somes hs))"
    "hs ! i = Some t \<Longrightarrow> mset (somes hs) = add_mset t (mset (somes (hs[i := None])))"
    by (simp_all add: somes_split [OF assms] e)
qed

lemma set_somes: "t \<in> set (somes hs) \<longleftrightarrow> Some t \<in> set hs"
  by (force simp: somes_def)

lemma length_somes: "length (somes hs) < length hs \<longleftrightarrow> None \<in> set hs"
  by (induction hs) (auto simp: somes_def less_Suc_eq_le)

text \<open>Inserting at an index and deleting at an index: the two \<open>memmove\<close> idioms.\<close>

definition insert_nth :: "nat \<Rightarrow> 'a \<Rightarrow> 'a list \<Rightarrow> 'a list" where
  "insert_nth i x xs = take i xs @ x # drop i xs"

definition delete_nth :: "nat \<Rightarrow> 'a list \<Rightarrow> 'a list" where
  "delete_nth i xs = take i xs @ drop (Suc i) xs"

lemma set_insert_nth [simp]: "set (insert_nth i x xs) = insert x (set xs)"
  by (metis Un_insert_right append_take_drop_id insert_nth_def list.simps(15) set_append)

lemma length_insert_nth [simp]: "length (insert_nth i x xs) = Suc (length xs)"
  by (simp add: insert_nth_def)

lemma length_delete_nth: "i < length xs \<Longrightarrow> length (delete_nth i xs) = length xs - 1"
  by (simp add: delete_nth_def)

lemma set_delete_nth_subset: "set (delete_nth i xs) \<subseteq> set xs"
  by (auto simp: delete_nth_def dest: in_set_takeD in_set_dropD)

lemma sorted_wrt_delete_nth:
  assumes "sorted_wrt P xs"
  shows "sorted_wrt P (delete_nth i xs)"
proof -
  have "sorted_wrt P (take i xs @ drop i xs)" using assms by simp
  moreover have "set (drop (Suc i) xs) \<subseteq> set (drop i xs)"
    by (simp add: set_drop_subset_set_drop)
  ultimately show ?thesis
    unfolding delete_nth_def sorted_wrt_append by (auto simp: assms sorted_wrt_drop)
qed

end
