(* ===== verification/Bloom_Filter.thy ===== *)
theory Bloom_Filter
  imports Prelude
begin

text \<open>
  The Bloom filter of \<open>bloom_filter.c\<close>: the structure, its operations and the three hash
  functions, and the proofs that it is a membership filter without false negatives, that its
  bits are exactly the offsets of what was added, and that saving and loading the bits keeps
  its answers. A parameter \<open>ok\<close> of an operation says whether its allocation succeeds.
\<close>

section \<open>Definitions\<close>

type_synonym hash_func_t = "byte list \<Rightarrow> u64"

record bloom_filter =
  hash_funcs :: "hash_func_t list"
  bits :: "byte list"
  bsize :: nat

text \<open>\<open>set_bit\<close> and \<open>test_bit\<close> of the kernel on a little-endian buffer.\<close>

definition buf_set_bit :: "nat \<Rightarrow> byte list \<Rightarrow> byte list" where
  "buf_set_bit i bs = bs[i div 8 := set_bit (i mod 8) (bs ! (i div 8))]"

definition buf_test_bit :: "nat \<Rightarrow> byte list \<Rightarrow> bool" where
  "buf_test_bit i bs = bit (bs ! (i div 8)) (i mod 8)"

definition bloom_filter_add_hash :: "bool \<Rightarrow> bloom_filter \<Rightarrow> hash_func_t \<Rightarrow> bloom_filter result" where
  "bloom_filter_add_hash ok this func =
     (if \<not> ok then Inl ENOMEM
      else Inr (this\<lparr>hash_funcs := func # hash_funcs this\<rparr>))"

definition bloom_offset :: "bloom_filter \<Rightarrow> hash_func_t \<Rightarrow> byte list \<Rightarrow> nat" where
  "bloom_offset this f x = unat (f x) mod (bsize this * 8)"

definition bloom_filter_add :: "bloom_filter \<Rightarrow> byte list \<Rightarrow> bloom_filter" where
  "bloom_filter_add this x =
     this\<lparr>bits := fold (\<lambda>f bs. buf_set_bit (bloom_offset this f x) bs) (hash_funcs this) (bits this)\<rparr>"

definition bloom_filter_contains :: "bloom_filter \<Rightarrow> byte list \<Rightarrow> bool" where
  "bloom_filter_contains this x =
     list_all (\<lambda>f. buf_test_bit (bloom_offset this f x) (bits this)) (hash_funcs this)"

definition bloom_filter_load :: "bloom_filter \<Rightarrow> bfile \<Rightarrow> nat \<Rightarrow> bloom_filter" where
  "bloom_filter_load this file start = this\<lparr>bits := kernel_read file (bsize this) start\<rparr>"

definition bloom_filter_init :: "bool \<Rightarrow> nat \<Rightarrow> bloom_filter result" where
  "bloom_filter_init ok sz =
     (if \<not> ok then Inl ENOMEM
      else Inr \<lparr>hash_funcs = [], bits = replicate sz 0, bsize = sz\<rparr>)"

definition bloom_filter_create :: "bool \<Rightarrow> bool \<Rightarrow> nat \<Rightarrow> bloom_filter option" where
  "bloom_filter_create ok_struct ok_bits sz =
     (if \<not> ok_struct then None
      else case bloom_filter_init ok_bits sz of Inl e \<Rightarrow> None | Inr this \<Rightarrow> Some this)"

text \<open>The hash functions. \<open>char\<close> is signed on the target, so \<open>djb2\<close> and \<open>jenkins\<close>
  sign-extend each byte; \<open>shash\<close> reads unsigned bytes.\<close>

definition djb2 :: hash_func_t where
  "djb2 str = foldl (\<lambda>hash c. (push_bit 5 hash + hash) + scast c) 5381 str"

definition jenkins_step :: "u32 \<Rightarrow> byte \<Rightarrow> u32" where
  "jenkins_step hash c =
     (let h1 = hash + scast c; h2 = h1 + push_bit 10 h1 in h2 XOR drop_bit 6 h2)"

definition jenkins :: hash_func_t where
  "jenkins key =
     (let hash = foldl jenkins_step 0 key;
          h1 = hash + push_bit 3 hash;
          h2 = h1 XOR drop_bit 11 h1;
          h3 = h2 + push_bit 15 h2
      in ucast h3)"

definition shash :: hash_func_t where
  "shash word = foldl (\<lambda>hash c. 31 * hash + ucast c) 0 word"

section \<open>The bits of a filter\<close>

lemma length_buf_set_bit [simp]: "length (buf_set_bit i bs) = length bs"
  by (simp add: buf_set_bit_def)

lemma buf_test_set_bit:
  "i div 8 < length bs \<Longrightarrow> buf_test_bit j (buf_set_bit i bs) \<longleftrightarrow> j = i \<or> buf_test_bit j bs"
proof -
  assume i: "i div 8 < length bs"
  have j: "j = i \<longleftrightarrow> j div 8 = i div 8 \<and> j mod 8 = i mod 8"
    by (metis div_mult_mod_eq)
  have "i mod 8 < 8" "j mod 8 < 8" by simp_all
  with i show ?thesis
    by (auto simp: buf_test_bit_def buf_set_bit_def nth_list_update j bit_set_bit_iff)
qed

definition bloom_wf :: "bloom_filter \<Rightarrow> bool" where
  "bloom_wf this \<longleftrightarrow> 0 < bsize this \<and> length (bits this) = bsize this"

text \<open>The abstract filter: the set of offsets that are on, and the offsets of an element.\<close>

definition bloom_set :: "bloom_filter \<Rightarrow> nat set" where
  "bloom_set this = {i. i < bsize this * 8 \<and> buf_test_bit i (bits this)}"

definition bloom_offsets :: "bloom_filter \<Rightarrow> byte list \<Rightarrow> nat set" where
  "bloom_offsets this x = (\<lambda>f. bloom_offset this f x) ` set (hash_funcs this)"

lemma bloom_offset_less: "bloom_wf this \<Longrightarrow> bloom_offset this f x < bsize this * 8"
  by (simp add: bloom_wf_def bloom_offset_def)

lemma bloom_offsets_less: "bloom_wf this \<Longrightarrow> i \<in> bloom_offsets this x \<Longrightarrow> i < bsize this * 8"
  by (auto simp: bloom_offsets_def bloom_offset_less)

lemma length_fold_buf_set_bit [simp]:
  "length (fold (\<lambda>f bs. buf_set_bit (g f) bs) fs bs) = length bs"
  by (induction fs arbitrary: bs) auto

lemma buf_test_fold_set_bit:
  "\<forall>f \<in> set fs. g f div 8 < length bs \<Longrightarrow>
   buf_test_bit j (fold (\<lambda>f bs. buf_set_bit (g f) bs) fs bs) \<longleftrightarrow> j \<in> g ` set fs \<or> buf_test_bit j bs"
  by (induction fs arbitrary: bs) (auto simp: buf_test_set_bit)

lemma bloom_add_frame [simp]:
  "hash_funcs (bloom_filter_add this x) = hash_funcs this"
  "bsize (bloom_filter_add this x) = bsize this"
  "length (bits (bloom_filter_add this x)) = length (bits this)"
  by (simp_all add: bloom_filter_add_def)

lemma bloom_wf_add: "bloom_wf this \<Longrightarrow> bloom_wf (bloom_filter_add this x)"
  by (simp add: bloom_wf_def)

lemma bloom_offsets_add [simp]: "bloom_offsets (bloom_filter_add this x) y = bloom_offsets this y"
  by (simp add: bloom_offsets_def bloom_offset_def)

lemma bloom_set_add:
  assumes "bloom_wf this"
  shows "bloom_set (bloom_filter_add this x) = bloom_set this \<union> bloom_offsets this x"
proof -
  have "\<forall>f \<in> set (hash_funcs this). bloom_offset this f x div 8 < length (bits this)"
    using bloom_offset_less [OF assms] assms
    by (simp add: bloom_wf_def less_mult_imp_div_less)
  note * = buf_test_fold_set_bit [OF this]
  show ?thesis
    by (auto simp: bloom_set_def bloom_filter_add_def * bloom_offsets_def bloom_offset_less [OF assms])
qed

lemma bloom_contains_iff:
  "bloom_wf this \<Longrightarrow> bloom_filter_contains this x \<longleftrightarrow> bloom_offsets this x \<subseteq> bloom_set this"
  by (auto simp: bloom_filter_contains_def bloom_offsets_def bloom_set_def list_all_iff bloom_offset_less)

section \<open>Membership filters\<close>

text \<open>What the block index table relies on: an added key stays a member whatever is added
  later. False positives are allowed.\<close>

locale membership_filter =
  fixes add :: "'f \<Rightarrow> 'x \<Rightarrow> 'f"
    and contains :: "'f \<Rightarrow> 'x \<Rightarrow> bool"
    and invar :: "'f \<Rightarrow> bool"
  assumes invar_add: "invar f \<Longrightarrow> invar (add f x)"
    and contains_add: "invar f \<Longrightarrow> contains (add f x) x"
    and contains_mono: "invar f \<Longrightarrow> contains f y \<Longrightarrow> contains (add f x) y"
begin

lemma invar_foldl: "invar f \<Longrightarrow> invar (foldl add f xs)"
  by (induction xs arbitrary: f) (auto intro: invar_add)

lemma contains_foldl_mono: "invar f \<Longrightarrow> contains f y \<Longrightarrow> contains (foldl add f xs) y"
  by (induction xs arbitrary: f) (auto intro: invar_add contains_mono)

lemma contains_foldl: "invar f \<Longrightarrow> x \<in> set xs \<Longrightarrow> contains (foldl add f xs) x"
  by (induction xs arbitrary: f)
    (auto intro: contains_foldl_mono invar_add contains_add)

end

interpretation bloom: membership_filter bloom_filter_add bloom_filter_contains bloom_wf
proof unfold_locales
  fix f x assume wf: "bloom_wf f"
  show "bloom_wf (bloom_filter_add f x)" using wf by (rule bloom_wf_add)
  show "bloom_filter_contains (bloom_filter_add f x) x"
    using wf by (simp add: bloom_contains_iff bloom_wf_add bloom_set_add)
next
  fix f x y assume wf: "bloom_wf f" and "bloom_filter_contains f y"
  then show "bloom_filter_contains (bloom_filter_add f x) y"
    by (auto simp: bloom_contains_iff bloom_wf_add bloom_set_add)
qed

section \<open>Creation and loading\<close>

lemma bloom_create_wf:
  "bloom_filter_create a b sz = Some this \<Longrightarrow> 0 < sz \<Longrightarrow> bloom_wf this \<and> bloom_set this = {}"
  by (auto simp: bloom_filter_create_def bloom_filter_init_def bloom_wf_def bloom_set_def
      buf_test_bit_def less_mult_imp_div_less split: if_splits)

lemma bloom_add_hash_wf:
  "bloom_filter_add_hash ok this f = Inr this' \<Longrightarrow> bloom_wf this \<Longrightarrow>
   bloom_wf this' \<and> bloom_set this' = bloom_set this"
  by (auto simp: bloom_filter_add_hash_def bloom_wf_def bloom_set_def split: if_splits)

lemma bloom_set_foldl:
  "bloom_wf this \<Longrightarrow>
   bloom_set (foldl bloom_filter_add this xs) = bloom_set this \<union> (\<Union>x \<in> set xs. bloom_offsets this x)"
  by (induction xs arbitrary: this) (auto simp: bloom_wf_add bloom_set_add)

lemma bloom_offsets_foldl [simp]:
  "bloom_offsets (foldl bloom_filter_add this xs) y = bloom_offsets this y"
  by (induction xs arbitrary: this) auto

lemma bloom_load_saved:
  "bloom_wf this \<Longrightarrow> bsize g = bsize this \<Longrightarrow>
   bits (bloom_filter_load g (kernel_write file (bits this) start) start) = bits this"
  by (simp add: bloom_filter_load_def bloom_wf_def buf_simps)

lemma bloom_contains_cong:
  "bits f = bits g \<Longrightarrow> bsize f = bsize g \<Longrightarrow> hash_funcs f = hash_funcs g \<Longrightarrow>
   bloom_filter_contains f x = bloom_filter_contains g x"
  by (simp add: bloom_filter_contains_def bloom_offset_def)

section \<open>Properties\<close>

text \<open>C20. The filter has no false negatives and its false positives are exactly the hash
  collisions: after any sequence of additions to a well-formed empty filter, an element is
  reported iff every one of its offsets is an offset of some added element.\<close>

theorem bloom_filter_exact:
  assumes "bloom_wf this" "bloom_set this = {}"
  shows "bloom_filter_contains (foldl bloom_filter_add this xs) y \<longleftrightarrow>
    (\<forall>i \<in> bloom_offsets this y. \<exists>x \<in> set xs. i \<in> bloom_offsets this x)"
  using assms by (auto simp: bloom_contains_iff bloom.invar_foldl bloom_set_foldl)

theorem bloom_filter_exact_witness:
  "bloom_wf \<lparr>hash_funcs = [djb2, shash], bits = replicate 4 0, bsize = 4\<rparr> \<and>
   bloom_filter_contains
     (foldl bloom_filter_add \<lparr>hash_funcs = [djb2, shash], bits = replicate 4 0, bsize = 4\<rparr> [[1], [2]]) [2]"
proof -
  let ?f = "\<lparr>hash_funcs = [djb2, shash], bits = replicate 4 0, bsize = 4\<rparr>"
  have wf: "bloom_wf ?f" by (simp add: bloom_wf_def)
  have "bloom_set ?f = {}"
    by (auto simp: bloom_set_def buf_test_bit_def less_mult_imp_div_less)
  from bloom_filter_exact [OF wf this, of "[[1], [2]]" "[2]"] wf show ?thesis by auto
qed



end
