(* ===== verification/Kernel_Lib.thy ===== *)
theory Kernel_Lib
  imports Prelude "HOL-Library.Tree"
begin

text \<open>
  The parts of the kernel library the driver is written against: \<open>ilog2\<close>,
  \<open>hash_64_generic\<close>, \<open>get_random_bytes\<close>, \<open>sort\<close>, the search trees of
  \<open>rbtree.h\<close>, and two contracts of the driver's own interfaces: the iterator protocol of
  \<open>iterator.h\<close> and the keyed table behind \<open>struct hashtable\<close> and \<open>struct memtable\<close>.
  They are modelled as far as the driver uses them, each with the facts its callers need.
\<close>

section \<open>Logarithm and hashing\<close>

fun ilog2 :: "nat \<Rightarrow> nat" where
  "ilog2 n = (if n < 2 then 0 else Suc (ilog2 (n div 2)))"

declare ilog2.simps [simp del]

lemma ilog2_power [simp]: "ilog2 (2 ^ k) = k"
proof (induction k)
  case 0
  then show ?case by (simp add: ilog2.simps)
next
  case (Suc k)
  have "\<not> (2::nat) ^ Suc k < 2" by simp
  then show ?case using Suc.IH by (subst ilog2.simps) simp
qed

definition GOLDEN_RATIO_64 :: u64 where
  "GOLDEN_RATIO_64 = 0x61C8864680B583EB"

definition hash_64_generic :: "u64 \<Rightarrow> nat \<Rightarrow> u32" where
  "hash_64_generic val bits = ucast (drop_bit (64 - bits) (val * GOLDEN_RATIO_64))"

lemma hash_64_generic_less:
  assumes "bits \<le> 32"
  shows "unat (hash_64_generic val bits) < 2 ^ bits"
proof -
  let ?w = "val * GOLDEN_RATIO_64"
  have "unat (drop_bit (64 - bits) ?w) = unat ?w div 2 ^ (64 - bits)"
    by (simp only: unat_drop_bit_eq) (simp add: drop_bit_eq_div)
  also have "\<dots> < 2 ^ bits"
  proof -
    have "unat ?w < 2 ^ 64" using unsigned_less [of ?w, where 'a = nat] by simp
    also have "(2::nat) ^ 64 = 2 ^ bits * 2 ^ (64 - bits)"
      using assms by (simp flip: power_add)
    finally show ?thesis by (simp add: less_mult_imp_div_less)
  qed
  finally have lt: "unat (drop_bit (64 - bits) ?w) < 2 ^ bits" .
  also have "(2::nat) ^ bits \<le> 2 ^ 32" using assms by (intro power_increasing) auto
  finally show ?thesis
    using lt by (simp add: hash_64_generic_def unsigned_ucast_eq take_bit_nat_eq_self)
qed

section \<open>Iterators\<close>

text \<open>Draining an iterator, the loop \<open>while (iter->has_next(iter)) iter->next(iter, &x)\<close>:
  \<open>None\<close> if it does not end.\<close>

partial_function (option) iter_collect ::
  "('i \<Rightarrow> bool) \<Rightarrow> ('i \<Rightarrow> 'a \<times> 'i) \<Rightarrow> 'i \<Rightarrow> 'a list option" where
  "iter_collect has_next next i =
     (if has_next i then
        (case next i of (x, i') \<Rightarrow>
           Option.bind (iter_collect has_next next i') (\<lambda>xs. Some (x # xs)))
      else Some [])"

text \<open>The contract of \<open>struct iterator\<close>: what is still to come is a finite list.\<close>

locale iterator =
  fixes has_next :: "'i \<Rightarrow> bool"
    and "next" :: "'i \<Rightarrow> 'a \<times> 'i"
    and content :: "'i \<Rightarrow> 'a list"
    and invar :: "'i \<Rightarrow> bool"
  assumes has_next_iff: "invar i \<Longrightarrow> has_next i \<longleftrightarrow> content i \<noteq> []"
    and next_content: "invar i \<Longrightarrow> content i = x # xs \<Longrightarrow>
      \<exists>i'. next i = (x, i') \<and> content i' = xs \<and> invar i'"
begin

lemma collect_content: "invar i \<Longrightarrow> iter_collect has_next next i = Some (content i)"
proof (induction "content i" arbitrary: i)
  case Nil
  then show ?case by (simp add: iter_collect.simps has_next_iff)
next
  case (Cons x xs)
  from next_content [OF Cons.prems Cons.hyps(2) [symmetric]] obtain i' where
    i': "next i = (x, i')" "content i' = xs" "invar i'" by blast
  have "has_next i" using Cons.prems Cons.hyps(2) [symmetric] by (simp add: has_next_iff)
  moreover have "iter_collect has_next next i' = Some (content i')"
    using Cons.hyps(1) i' by simp
  ultimately show ?case
    using i' Cons.hyps(2) [symmetric] by (simp add: iter_collect.simps [of _ _ i])
qed

end

section \<open>Keyed tables\<close>

text \<open>The contract shared by \<open>struct hashtable\<close> and \<open>struct memtable\<close>: a finite map with
  the previous value returned by put and remove. \<open>ok\<close> delimits the keys for which an
  implementation keeps its promise.\<close>

datatype ('k, 'v) table_op = OpPut 'k 'v | OpRemove 'k | OpClear

fun op_key_ok :: "('k \<Rightarrow> bool) \<Rightarrow> ('k, 'v) table_op \<Rightarrow> bool" where
  "op_key_ok ok (OpPut k v) = ok k"
| "op_key_ok ok (OpRemove k) = ok k"
| "op_key_ok ok OpClear = True"

fun table_step :: "('t \<Rightarrow> 'k \<Rightarrow> 'v \<Rightarrow> 'v option \<times> 't) \<Rightarrow> ('t \<Rightarrow> 'k \<Rightarrow> 'v option \<times> 't) \<Rightarrow> ('t \<Rightarrow> 't) \<Rightarrow>
    ('k, 'v) table_op \<Rightarrow> 't \<Rightarrow> 't" where
  "table_step put remove clear (OpPut k v) t = snd (put t k v)"
| "table_step put remove clear (OpRemove k) t = snd (remove t k)"
| "table_step put remove clear OpClear t = clear t"

fun map_step :: "('k, 'v) table_op \<Rightarrow> ('k \<rightharpoonup> 'v) \<Rightarrow> ('k \<rightharpoonup> 'v)" where
  "map_step (OpPut k v) m = m(k \<mapsto> v)"
| "map_step (OpRemove k) m = m(k := None)"
| "map_step OpClear m = Map.empty"

locale keyed_table =
  fixes put :: "'t \<Rightarrow> 'k \<Rightarrow> 'v \<Rightarrow> 'v option \<times> 't"
    and get :: "'t \<Rightarrow> 'k \<Rightarrow> 'v result"
    and contains :: "'t \<Rightarrow> 'k \<Rightarrow> bool"
    and remove :: "'t \<Rightarrow> 'k \<Rightarrow> 'v option \<times> 't"
    and clear :: "'t \<Rightarrow> 't"
    and content :: "'t \<Rightarrow> 'k \<rightharpoonup> 'v"
    and invar :: "'t \<Rightarrow> bool"
    and ok :: "'k \<Rightarrow> bool"
  assumes put_spec: "invar t \<Longrightarrow> ok k \<Longrightarrow> put t k v = (old, t') \<Longrightarrow>
      invar t' \<and> content t' = (content t)(k \<mapsto> v) \<and> old = content t k"
    and get_spec: "invar t \<Longrightarrow> ok k \<Longrightarrow>
      get t k = (case content t k of None \<Rightarrow> Inl ENODATA | Some v \<Rightarrow> Inr v)"
    and contains_spec: "invar t \<Longrightarrow> ok k \<Longrightarrow> contains t k \<longleftrightarrow> content t k \<noteq> None"
    and remove_spec: "invar t \<Longrightarrow> ok k \<Longrightarrow> remove t k = (old, t') \<Longrightarrow>
      invar t' \<and> content t' = (content t)(k := None) \<and> old = content t k"
    and clear_spec: "invar t \<Longrightarrow> invar (clear t) \<and> content (clear t) = Map.empty"
begin

lemma put_content [simp]:
  "invar t \<Longrightarrow> ok k \<Longrightarrow> content (snd (put t k v)) = (content t)(k \<mapsto> v)"
  "invar t \<Longrightarrow> ok k \<Longrightarrow> invar (snd (put t k v))"
  "invar t \<Longrightarrow> ok k \<Longrightarrow> fst (put t k v) = content t k"
  by (metis prod.collapse put_spec)+

lemma remove_content [simp]:
  "invar t \<Longrightarrow> ok k \<Longrightarrow> content (snd (remove t k)) = (content t)(k := None)"
  "invar t \<Longrightarrow> ok k \<Longrightarrow> invar (snd (remove t k))"
  "invar t \<Longrightarrow> ok k \<Longrightarrow> fst (remove t k) = content t k"
  by (metis prod.collapse remove_spec)+

lemma get_put:
  "invar t \<Longrightarrow> ok k \<Longrightarrow> ok j \<Longrightarrow> get (snd (put t k v)) j = (if j = k then Inr v else get t j)"
  by (simp add: get_spec)

text \<open>Any sequence of operations acts on the content as on a finite map.\<close>

lemma run_content:
  "invar t \<Longrightarrow> \<forall>op \<in> set ops. op_key_ok ok op \<Longrightarrow>
   invar (fold (table_step put remove clear) ops t) \<and>
   content (fold (table_step put remove clear) ops t) = fold map_step ops (content t)"
proof (induction ops arbitrary: t)
  case Nil
  then show ?case by simp
next
  case (Cons op ops)
  then show ?case using clear_spec by (cases op) simp_all
qed

end

text \<open>A memtable is a keyed table that also counts its entries and lists them sorted.\<close>

locale sorted_table = keyed_table put get contains remove clear content invar ok
  for put :: "'t \<Rightarrow> 'k::linorder \<Rightarrow> 'v \<Rightarrow> 'v option \<times> 't"
    and get contains remove clear content invar ok +
  fixes entries :: "'t \<Rightarrow> ('k \<times> 'v) list"
    and count :: "'t \<Rightarrow> nat"
  assumes entries_sorted: "invar t \<Longrightarrow> sorted_wrt (<) (map fst (entries t))"
    and entries_content: "invar t \<Longrightarrow> map_of (entries t) = content t"
    and count_entries: "invar t \<Longrightarrow> count t = length (entries t)"
begin

lemma count_dom: "invar t \<Longrightarrow> count t = card (dom (content t))"
proof -
  assume inv: "invar t"
  then have "distinct (map fst (entries t))"
    by (simp add: entries_sorted sorted_wrt_less_distinct)
  then have "card (fst ` set (entries t)) = length (entries t)"
    using distinct_card by force
  then show ?thesis
    by (simp add: count_entries [OF inv] dom_map_of_conv_image_fst flip: entries_content [OF inv])
qed

lemma entries_key_in_dom: "invar t \<Longrightarrow> fst ` set (entries t) = dom (content t)"
  by (simp add: dom_map_of_conv_image_fst flip: entries_content)

end

section \<open>Random bytes\<close>

text \<open>The generator is the stream of the bytes it will deliver.\<close>

type_synonym rng = "nat \<Rightarrow> byte"

definition get_random_bytes :: "nat \<Rightarrow> rng \<Rightarrow> byte list \<times> rng" where
  "get_random_bytes n r = (map r [0..<n], \<lambda>i. r (i + n))"

lemma length_get_random_bytes [simp, len_simps]: "length (fst (get_random_bytes n r)) = n"
  by (simp add: get_random_bytes_def)

section \<open>Sorting by a comparison function\<close>

text \<open>\<open>sort(base, num, size, cmp, NULL)\<close> on an array of pointers.\<close>

fun cmp_insert :: "('a \<Rightarrow> 'a \<Rightarrow> int) \<Rightarrow> 'a \<Rightarrow> 'a list \<Rightarrow> 'a list" where
  "cmp_insert cmp x [] = [x]"
| "cmp_insert cmp x (y # ys) = (if cmp x y \<le> 0 then x # y # ys else y # cmp_insert cmp x ys)"

fun cmp_sort :: "('a \<Rightarrow> 'a \<Rightarrow> int) \<Rightarrow> 'a list \<Rightarrow> 'a list" where
  "cmp_sort cmp [] = []"
| "cmp_sort cmp (x # xs) = cmp_insert cmp x (cmp_sort cmp xs)"

lemma cmp_insert_eq_insort:
  "\<forall>y \<in> set ys. cmp x y \<le> 0 \<longleftrightarrow> f x \<le> f y \<Longrightarrow> cmp_insert cmp x ys = insort_key f x ys"
  by (induction ys) auto

lemma cmp_sort_eq_sort:
  "\<forall>x \<in> set xs. \<forall>y \<in> set xs. cmp x y \<le> 0 \<longleftrightarrow> f x \<le> f y \<Longrightarrow> cmp_sort cmp xs = sort_key f xs"
  by (induction xs) (auto simp: cmp_insert_eq_insort)

section \<open>Binary search\<close>

text \<open>\<open>bsearch(key, base, num, size, cmp)\<close>: the index of the element it returns.\<close>

function bsearch_loop :: "('a \<Rightarrow> int) \<Rightarrow> 'a list \<Rightarrow> nat \<Rightarrow> nat \<Rightarrow> nat option" where
  "bsearch_loop cmp xs base num =
     (if num = 0 then None
      else let pivot = base + num div 2
           in if cmp (xs ! pivot) = 0 then Some pivot
              else if cmp (xs ! pivot) > 0 then bsearch_loop cmp xs (pivot + 1) ((num - 1) div 2)
              else bsearch_loop cmp xs base (num div 2))"
  by pat_completeness auto
termination
  by (relation "measure (\<lambda>(cmp, xs, base, num). num)") auto

declare bsearch_loop.simps [simp del]

definition bsearch :: "('a \<Rightarrow> int) \<Rightarrow> 'a list \<Rightarrow> nat \<Rightarrow> nat option" where
  "bsearch cmp xs num = bsearch_loop cmp xs 0 num"

text \<open>On an array on which the comparison goes from positive to negative, with at most one zero.\<close>

lemma bsearch_loop_ok:
  assumes mono: "\<And>i j. i < j \<Longrightarrow> j < n \<Longrightarrow> cmp (xs ! i) \<le> 0 \<Longrightarrow> cmp (xs ! j) < 0"
  shows "base + num \<le> n \<Longrightarrow>
    (case bsearch_loop cmp xs base num of
       Some i \<Rightarrow> i < n \<and> cmp (xs ! i) = 0
     | None \<Rightarrow> \<forall>i. base \<le> i \<longrightarrow> i < base + num \<longrightarrow> cmp (xs ! i) \<noteq> 0)"
proof (induction num arbitrary: base rule: less_induct)
  case (less num)
  let ?p = "base + num div 2"
  consider "num = 0" | "num \<noteq> 0" "cmp (xs ! ?p) = 0" | "num \<noteq> 0" "cmp (xs ! ?p) > 0" | "num \<noteq> 0" "cmp (xs ! ?p) < 0" by linarith
  then show ?case
  proof cases
    case 1
    then show ?thesis by (simp add: bsearch_loop.simps)
  next
    case 3
    have e: "bsearch_loop cmp xs base num = bsearch_loop cmp xs (?p + 1) ((num - 1) div 2)"
      using 3 by (simp add: bsearch_loop.simps [of cmp xs base num] Let_def)
    have r: "base + num \<le> ?p + 1 + (num - 1) div 2" "?p + 1 + (num - 1) div 2 \<le> n" using 3 less.prems by simp_all
    have left: "cmp (xs ! i) \<noteq> 0" if "i \<le> ?p" for i
    proof (cases "i = ?p")
      case False
      then show ?thesis using mono [of i ?p] that 3 less.prems by force
    qed (use 3 in simp)
    have lo: "cmp (xs ! i) \<noteq> 0"
      if "\<forall>i. ?p + 1 \<le> i \<longrightarrow> i < ?p + 1 + (num - 1) div 2 \<longrightarrow> cmp (xs ! i) \<noteq> 0" "i < base + num" for i
    proof (cases "i \<le> ?p")
      case False
      then have "?p + 1 \<le> i" "i < ?p + 1 + (num - 1) div 2" using that(2) r(1) by linarith+
      then show ?thesis using that(1) by blast
    qed (rule left)
    have "(num - 1) div 2 < num" using 3 by simp
    from less.IH [OF this r(2)] lo show ?thesis by (auto simp only: e split: option.splits)
  next
    case 4
    have e: "bsearch_loop cmp xs base num = bsearch_loop cmp xs base (num div 2)"
      using 4 by (simp add: bsearch_loop.simps [of cmp xs base num] Let_def)
    have right: "cmp (xs ! i) \<noteq> 0" if "?p \<le> i" "i < base + num" for i
    proof (cases "i = ?p")
      case False
      then show ?thesis using mono [of ?p i] that 4 less.prems by force
    qed (use 4 in simp)
    have hi: "cmp (xs ! i) \<noteq> 0" if "\<forall>i. base \<le> i \<longrightarrow> i < ?p \<longrightarrow> cmp (xs ! i) \<noteq> 0" "base \<le> i" "i < base + num" for i
      using that right by (cases "i < ?p") auto
    have "num div 2 < num" "?p \<le> n" using 4 less.prems by simp_all
    from less.IH [OF this] hi show ?thesis by (auto simp only: e split: option.splits)
  qed (use less.prems in \<open>auto simp: bsearch_loop.simps [of cmp xs base num] Let_def\<close>)
qed

lemma bsearch_ok:
  assumes "\<And>i j. i < j \<Longrightarrow> j < n \<Longrightarrow> cmp (xs ! i) \<le> 0 \<Longrightarrow> cmp (xs ! j) < 0"
  shows "bsearch cmp xs n = Some i \<Longrightarrow> i < n \<and> cmp (xs ! i) = 0" "bsearch cmp xs n = None \<Longrightarrow> i < n \<Longrightarrow> cmp (xs ! i) \<noteq> 0"
  using bsearch_loop_ok [of n cmp xs 0 n, OF assms] by (auto simp: bsearch_def split: option.splits)

section \<open>Search trees\<close>

text \<open>The intrusive trees of \<open>rbtree.h\<close>. The walk down is the one \<open>rb_find_add\<close> and
  \<open>rb_find\<close> make, guided by the caller's comparison; \<open>rb_first\<close> and \<open>rb_next\<close> visit
  the nodes in order. Recolouring and rotations keep the order of the nodes and are not
  represented: a caller sees the order only.\<close>

fun rb_find_add :: "('a \<Rightarrow> 'a \<Rightarrow> int) \<Rightarrow> 'a \<Rightarrow> 'a tree \<Rightarrow> 'a option \<times> 'a tree" where
  "rb_find_add cmp x Leaf = (None, Node Leaf x Leaf)"
| "rb_find_add cmp x (Node l a r) =
     (if cmp x a < 0 then (case rb_find_add cmp x l of (e, l') \<Rightarrow> (e, Node l' a r))
      else if 0 < cmp x a then (case rb_find_add cmp x r of (e, r') \<Rightarrow> (e, Node l a r'))
      else (Some a, Node l a r))"

fun rb_find :: "('a \<Rightarrow> int) \<Rightarrow> 'a tree \<Rightarrow> 'a option" where
  "rb_find cmp Leaf = None"
| "rb_find cmp (Node l a r) =
     (if cmp a < 0 then rb_find cmp l else if 0 < cmp a then rb_find cmp r else Some a)"

fun rb_join :: "'a tree \<Rightarrow> 'a tree \<Rightarrow> 'a tree" where
  "rb_join Leaf r = r"
| "rb_join (Node l a m) r = Node l a (rb_join m r)"

text \<open>\<open>rb_erase\<close> of the node the comparison leads to, and of the first node.\<close>

fun rb_erase :: "('a \<Rightarrow> int) \<Rightarrow> 'a tree \<Rightarrow> 'a tree" where
  "rb_erase cmp Leaf = Leaf"
| "rb_erase cmp (Node l a r) =
     (if cmp a < 0 then Node (rb_erase cmp l) a r
      else if 0 < cmp a then Node l a (rb_erase cmp r)
      else rb_join l r)"

fun rb_erase_first :: "'a tree \<Rightarrow> 'a tree" where
  "rb_erase_first Leaf = Leaf"
| "rb_erase_first (Node Leaf a r) = r"
| "rb_erase_first (Node l a r) = Node (rb_erase_first l) a r"

fun rb_first :: "'a tree \<Rightarrow> 'a option" where
  "rb_first Leaf = None"
| "rb_first (Node Leaf a r) = Some a"
| "rb_first (Node l a r) = rb_first l"

lemma inorder_rb_join [simp]: "inorder (rb_join l r) = inorder l @ inorder r"
  by (induction l r rule: rb_join.induct) auto

lemma size_rb_join [simp]: "size (rb_join l r) = size l + size r"
  by (induction l r rule: rb_join.induct) auto

lemma inorder_rb_erase_first: "inorder (rb_erase_first t) = tl (inorder t)"
  by (induction t rule: rb_erase_first.induct) (auto simp: tl_append split: list.split)

lemma rb_first_inorder: "rb_first t = (case inorder t of [] \<Rightarrow> None | a # _ \<Rightarrow> Some a)"
  by (induction t rule: rb_first.induct) (auto split: list.split simp: append_eq_Cons_conv)

lemma rb_find_add_found: "fst (rb_find_add cmp x t) = rb_find (cmp x) t"
  by (induction t) (auto split: prod.split simp: prod_eq_iff)

lemma rb_erase_size: "rb_find cmp t = Some a \<Longrightarrow> size t = Suc (size (rb_erase cmp t))"
  by (induction t) (auto split: if_splits)

lemma rb_find_add_erase_size:
  assumes "rb_find_add cmp x t = (Some e, t')"
  shows "size (rb_erase (cmp x) t) < size t"
proof -
  have "rb_find (cmp x) t = Some e" using rb_find_add_found [of cmp x t] assms by simp
  from rb_erase_size [OF this] show ?thesis by simp
qed

text \<open>A comparison function that agrees with the order of the keys on a tree.\<close>

definition agrees :: "('a \<Rightarrow> int) \<Rightarrow> 'k::linorder \<Rightarrow> ('a \<Rightarrow> 'k) \<Rightarrow> 'a tree \<Rightarrow> bool" where
  "agrees cmp k key t \<longleftrightarrow>
     (\<forall>a \<in> set_tree t. (cmp a < 0 \<longleftrightarrow> k < key a) \<and> (0 < cmp a \<longleftrightarrow> key a < k))"

definition bst_on :: "('a \<Rightarrow> 'k::linorder) \<Rightarrow> 'a tree \<Rightarrow> bool" where
  "bst_on key t \<longleftrightarrow> sorted_wrt (<) (map key (inorder t))"

lemma bst_leaf [simp]: "bst_on key Leaf"
  by (simp add: bst_on_def)

lemma agrees_node [simp]:
  "agrees cmp k key (Node l a r) \<longleftrightarrow>
     agrees cmp k key l \<and> agrees cmp k key r \<and> (cmp a < 0 \<longleftrightarrow> k < key a) \<and> (0 < cmp a \<longleftrightarrow> key a < k)"
  by (auto simp: agrees_def)

lemma bst_node [simp]:
  "bst_on key (Node l a r) \<longleftrightarrow> bst_on key l \<and> bst_on key r \<and>
     (\<forall>b \<in> set_tree l. key b < key a) \<and> (\<forall>b \<in> set_tree r. key a < key b)"
  by (fastforce simp: bst_on_def sorted_wrt_append)

lemma rb_find_correct:
  "bst_on key t \<Longrightarrow> agrees cmp k key t \<Longrightarrow> rb_find cmp t = Some a \<longleftrightarrow> a \<in> set_tree t \<and> key a = k"
  by (induction t) auto

lemma rb_find_None:
  "bst_on key t \<Longrightarrow> agrees cmp k key t \<Longrightarrow> rb_find cmp t = None \<longleftrightarrow> k \<notin> key ` set_tree t"
  by (induction t) auto

lemma set_rb_join [simp]: "set_tree (rb_join l r) = set_tree l \<union> set_tree r"
  by (metis inorder_rb_join set_append set_inorder)

lemma rb_erase_set:
  "bst_on key t \<Longrightarrow> agrees cmp k key t \<Longrightarrow> set_tree (rb_erase cmp t) = {a \<in> set_tree t. key a \<noteq> k}"
  by (induction t) auto

lemma bst_rb_join:
  "bst_on key l \<Longrightarrow> bst_on key r \<Longrightarrow> \<forall>a \<in> set_tree l. \<forall>b \<in> set_tree r. key a < key b \<Longrightarrow> bst_on key (rb_join l r)"
  by (auto simp: bst_on_def sorted_wrt_append)

lemma rb_erase_bst: "bst_on key t \<Longrightarrow> agrees cmp k key t \<Longrightarrow> bst_on key (rb_erase cmp t)"
proof (induction t)
  case (Node l a r)
  have "\<forall>b \<in> set_tree l. key b < key a" "\<forall>b \<in> set_tree r. key a < key b"
    using Node.prems(1) by simp_all
  then have "\<forall>x \<in> set_tree l. \<forall>y \<in> set_tree r. key x < key y" by (meson less_trans)
  then have "bst_on key (rb_join l r)"
    using Node.prems(1) by (intro bst_rb_join) simp_all
  moreover have "bst_on key (rb_erase cmp l)" "bst_on key (rb_erase cmp r)"
    "set_tree (rb_erase cmp l) \<subseteq> set_tree l" "set_tree (rb_erase cmp r) \<subseteq> set_tree r"
    using Node by (auto simp: rb_erase_set)
  ultimately show ?case using Node.prems
    by (simp split: if_split) blast
qed simp

lemma rb_add_set:
  "rb_find_add cmp x t = (None, t') \<Longrightarrow> set_tree t' = insert x (set_tree t) \<and> size t' = Suc (size t)"
  by (induction t arbitrary: t') (auto split: if_splits prod.splits)

lemma rb_add_bst:
  "bst_on key t \<Longrightarrow> agrees (cmp x) (key x) key t \<Longrightarrow> rb_find_add cmp x t = (None, t') \<Longrightarrow> bst_on key t'"
proof (induction t arbitrary: t')
  case Leaf
  then show ?case by auto
next
  case (Node l a r)
  from Node.prems(3) consider
      l' where "cmp x a < 0" "rb_find_add cmp x l = (None, l')" "t' = Node l' a r"
    | r' where "0 < cmp x a" "rb_find_add cmp x r = (None, r')" "t' = Node l a r'"
    by (auto split: if_splits prod.splits)
  then show ?case
  proof cases
    case 1
    have "bst_on key l'" using Node.IH(1) [OF _ _ 1(2)] Node.prems by simp
    moreover have "key x < key a" using Node.prems(2) 1(1) by simp
    ultimately show ?thesis using Node.prems(1) rb_add_set [OF 1(2)] by (simp add: 1(3))
  next
    case 2
    have "bst_on key r'" using Node.IH(2) [OF _ _ 2(2)] Node.prems by simp
    moreover have "key a < key x" using Node.prems(2) 2(1) by simp
    ultimately show ?thesis using Node.prems(1) rb_add_set [OF 2(2)] by (simp add: 2(3))
  qed
qed

end
