(* ===== verification/Hashtable.thy ===== *)
theory Hashtable
  imports Kernel_Lib "HOL-Library.Multiset"
begin

text \<open>
  The growing chained hash table of \<open>hashtable.c\<close>: put, get, contains, remove, clear,
  rehashing and the iterator. The table refines a finite map for every content of the size
  field: \<open>linked_hashtable_init\<close> does not initialise it, so \<open>linked_hashtable_create\<close>
  takes what \<open>kmalloc\<close> left there as a parameter.
\<close>

section \<open>Definitions\<close>

definition hash_slot :: "u64 \<Rightarrow> nat \<Rightarrow> nat" where
  "hash_slot x cap = unat (hash_64_generic x (ilog2 cap))"

definition rehash_threadhold :: "nat \<Rightarrow> nat" where
  "rehash_threadhold cap = cap div 5 * 4"

type_synonym 'v linked_node = "u64 \<times> 'v"

record 'v linked_hashtable =
  capacity :: nat
  buckets :: "'v linked_node list list"
  ht_size :: u64

definition MAX_LINKED_HASHTABLE_CAPACITY :: nat where
  "MAX_LINKED_HASHTABLE_CAPACITY = 2 ^ 20"

definition DEFAULT_LINKED_HASHTABLE_CAPACITY :: nat where
  "DEFAULT_LINKED_HASHTABLE_CAPACITY = 16"

definition init_buckets :: "nat \<Rightarrow> 'v linked_node list list" where
  "init_buckets cap = replicate cap []"

definition hlist_add_head :: "nat \<Rightarrow> 'v linked_node \<Rightarrow> 'v linked_node list list \<Rightarrow> 'v linked_node list list" where
  "hlist_add_head slot node bs = bs[slot := node # bs ! slot]"

definition linked_hashtable_rehash :: "bool \<Rightarrow> 'v linked_hashtable \<Rightarrow> 'v linked_hashtable" where
  "linked_hashtable_rehash ok this =
     (if MAX_LINKED_HASHTABLE_CAPACITY \<le> capacity this then this
      else if \<not> ok then this
      else let new_capacity = 2 * capacity this;
               new_buckets = fold (\<lambda>node. hlist_add_head (hash_slot (fst node) new_capacity) node)
                               (concat (buckets this)) (init_buckets new_capacity)
           in this\<lparr>capacity := new_capacity, buckets := new_buckets\<rparr>)"

definition linked_hashtable_search_node :: "'v linked_hashtable \<Rightarrow> u64 \<Rightarrow> 'v linked_node option" where
  "linked_hashtable_search_node this key =
     List.find (\<lambda>node. fst node = key) (buckets this ! hash_slot key (capacity this))"

text \<open>The pointer the search returned is dereferenced: the first node with the key is
  changed in place, or unlinked.\<close>

fun set_node_val :: "u64 \<Rightarrow> 'v \<Rightarrow> 'v linked_node list \<Rightarrow> 'v linked_node list" where
  "set_node_val key val [] = []"
| "set_node_val key val (node # nodes) =
     (if fst node = key then (key, val) # nodes else node # set_node_val key val nodes)"

fun unlink_node :: "u64 \<Rightarrow> 'v linked_node list \<Rightarrow> 'v linked_node list" where
  "unlink_node key [] = []"
| "unlink_node key (node # nodes) =
     (if fst node = key then nodes else node # unlink_node key nodes)"

definition linked_hashtable_put ::
  "bool \<Rightarrow> 'v linked_hashtable \<Rightarrow> u64 \<Rightarrow> 'v \<Rightarrow> 'v option \<times> 'v linked_hashtable" where
  "linked_hashtable_put ok table key val =
     (let this = (if rehash_threadhold (capacity table) \<le> unat (ht_size table)
                  then linked_hashtable_rehash ok table else table);
          slot = hash_slot key (capacity this)
      in case linked_hashtable_search_node this key of
           Some node \<Rightarrow>
             (Some (snd node), this\<lparr>buckets := (buckets this)[slot := set_node_val key val (buckets this ! slot)]\<rparr>)
         | None \<Rightarrow>
             (None, this\<lparr>buckets := hlist_add_head slot (key, val) (buckets this),
                         ht_size := ht_size this + 1\<rparr>))"

definition linked_hashtable_get :: "'v linked_hashtable \<Rightarrow> u64 \<Rightarrow> 'v result" where
  "linked_hashtable_get this key =
     (case linked_hashtable_search_node this key of
        None \<Rightarrow> Inl ENODATA
      | Some node \<Rightarrow> Inr (snd node))"

definition linked_hashtable_contains :: "'v linked_hashtable \<Rightarrow> u64 \<Rightarrow> bool" where
  "linked_hashtable_contains this key = (linked_hashtable_search_node this key \<noteq> None)"

definition linked_hashtable_remove ::
  "'v linked_hashtable \<Rightarrow> u64 \<Rightarrow> 'v option \<times> 'v linked_hashtable" where
  "linked_hashtable_remove this key =
     (case linked_hashtable_search_node this key of
        None \<Rightarrow> (None, this)
      | Some node \<Rightarrow>
          (let slot = hash_slot key (capacity this)
           in (Some (snd node),
               this\<lparr>buckets := (buckets this)[slot := unlink_node key (buckets this ! slot)],
                    ht_size := ht_size this - 1\<rparr>)))"

definition linked_hashtable_clear :: "'v linked_hashtable \<Rightarrow> 'v linked_hashtable" where
  "linked_hashtable_clear this = this\<lparr>buckets := init_buckets (capacity this), ht_size := 0\<rparr>"

text \<open>The iterator: the slot and the rest of its chain.\<close>

record 'v linked_hash_iter =
  it_slot :: nat
  it_hlist :: "'v linked_node list"
  it_hashtable :: "'v linked_hashtable"

function linked_hash_iter_skip :: "'v linked_hash_iter \<Rightarrow> 'v linked_hash_iter" where
  "linked_hash_iter_skip this =
     (if it_slot this < capacity (it_hashtable this) - 1 \<and> it_hlist this = []
      then linked_hash_iter_skip
             (this\<lparr>it_slot := it_slot this + 1,
                   it_hlist := buckets (it_hashtable this) ! (it_slot this + 1)\<rparr>)
      else this)"
  by pat_completeness auto
termination
  by (relation "measure (\<lambda>this. capacity (it_hashtable this) - it_slot this)") auto

declare linked_hash_iter_skip.simps [simp del]

definition linked_hash_iter_has_next :: "'v linked_hash_iter \<Rightarrow> bool" where
  "linked_hash_iter_has_next this = (it_hlist this \<noteq> [])"

definition linked_hash_iter_next ::
  "'v linked_hash_iter \<Rightarrow> (u32 \<times> 'v) result \<times> 'v linked_hash_iter" where
  "linked_hash_iter_next this =
     (case it_hlist this of
        [] \<Rightarrow> (Inl ENODATA, this)
      | node # nodes \<Rightarrow>
          (Inr (ucast (fst node), snd node), linked_hash_iter_skip (this\<lparr>it_hlist := nodes\<rparr>)))"

definition linked_hash_iter_init :: "'v linked_hashtable \<Rightarrow> 'v linked_hash_iter" where
  "linked_hash_iter_init table =
     linked_hash_iter_skip \<lparr>it_slot = 0, it_hlist = buckets table ! 0, it_hashtable = table\<rparr>"

definition linked_hashtable_iterator :: "bool \<Rightarrow> 'v linked_hashtable \<Rightarrow> 'v linked_hash_iter option" where
  "linked_hashtable_iterator ok table = (if ok then Some (linked_hash_iter_init table) else None)"

definition linked_hashtable_init :: "bool \<Rightarrow> u64 \<Rightarrow> 'v linked_hashtable result" where
  "linked_hashtable_init ok garbage =
     (if \<not> ok then Inl ENOMEM
      else Inr \<lparr>capacity = DEFAULT_LINKED_HASHTABLE_CAPACITY,
                buckets = init_buckets DEFAULT_LINKED_HASHTABLE_CAPACITY,
                ht_size = garbage\<rparr>)"

definition linked_hashtable_create :: "bool \<Rightarrow> bool \<Rightarrow> u64 \<Rightarrow> 'v linked_hashtable option" where
  "linked_hashtable_create ok_struct ok_buckets garbage =
     (if \<not> ok_struct then None
      else case linked_hashtable_init ok_buckets garbage of Inl e \<Rightarrow> None | Inr this \<Rightarrow> Some this)"

section \<open>Invariant and abstraction\<close>

lemma init_buckets_simps [simp]:
  "length (init_buckets cap) = cap"
  "concat (init_buckets cap) = []"
  "s < cap \<Longrightarrow> init_buckets cap ! s = []"
  by (simp_all add: init_buckets_def)

definition placed :: "nat \<Rightarrow> 'v linked_node list list \<Rightarrow> bool" where
  "placed cap bs \<longleftrightarrow> (\<forall>s < length bs. \<forall>node \<in> set (bs ! s). hash_slot (fst node) cap = s)"

definition ht_inv :: "'v linked_hashtable \<Rightarrow> bool" where
  "ht_inv this \<longleftrightarrow>
     (\<exists>k. 4 \<le> k \<and> k \<le> 20 \<and> capacity this = 2 ^ k) \<and>
     length (buckets this) = capacity this \<and>
     placed (capacity this) (buckets this) \<and>
     distinct (map fst (concat (buckets this)))"

definition ht_map :: "'v linked_hashtable \<Rightarrow> u64 \<rightharpoonup> 'v" where
  "ht_map this = map_of (concat (buckets this))"

definition ht_count :: "'v linked_hashtable \<Rightarrow> nat" where
  "ht_count this = length (concat (buckets this))"

lemma hash_slot_less: "ht_inv this \<Longrightarrow> hash_slot key (capacity this) < length (buckets this)"
  by (auto simp: ht_inv_def hash_slot_def intro!: hash_64_generic_less)

lemma ht_inv_split:
  assumes "ht_inv this"
  obtains A b C where "buckets this = A @ b # C" "length A = hash_slot key (capacity this)"
proof -
  let ?s = "hash_slot key (capacity this)"
  have "buckets this = take ?s (buckets this) @ buckets this ! ?s # drop (Suc ?s) (buckets this)"
    using hash_slot_less [OF assms] by (rule id_take_nth_drop)
  moreover have "length (take ?s (buckets this)) = ?s"
    using hash_slot_less [OF assms, of key] by simp
  ultimately show ?thesis using that by blast
qed

lemma placed_append:
  "placed cap (A @ b # C) \<longleftrightarrow>
     (\<forall>s < length A. \<forall>node \<in> set (A ! s). hash_slot (fst node) cap = s) \<and>
     (\<forall>node \<in> set b. hash_slot (fst node) cap = length A) \<and>
     (\<forall>s < length C. \<forall>node \<in> set (C ! s). hash_slot (fst node) cap = Suc (length A + s))"
proof -
  have "length (A @ b # C) = length A + Suc (length C)" by simp
  then show ?thesis
    unfolding placed_def by (simp only: all_less_add) (simp add: nth_append All_less_Suc2)
qed

lemma not_in_other_buckets:
  assumes "placed cap (A @ b # C)" "length A = hash_slot key cap"
  shows "key \<notin> fst ` set (concat A)" and "key \<notin> fst ` set (concat C)"
proof -
  have A: "\<And>s node. s < length A \<Longrightarrow> node \<in> set (A ! s) \<Longrightarrow> hash_slot (fst node) cap = s"
    and C: "\<And>s node. s < length C \<Longrightarrow> node \<in> set (C ! s) \<Longrightarrow> hash_slot (fst node) cap = Suc (length A + s)"
    using assms(1) by (simp_all add: placed_append)
  show "key \<notin> fst ` set (concat A)"
  proof
    assume "key \<in> fst ` set (concat A)"
    then obtain s node where "s < length A" "node \<in> set (A ! s)" "fst node = key"
      by (auto simp: in_set_conv_nth [of _ A])
    with A [of s node] assms(2) show False by simp
  qed
  show "key \<notin> fst ` set (concat C)"
  proof
    assume "key \<in> fst ` set (concat C)"
    then obtain s node where "s < length C" "node \<in> set (C ! s)" "fst node = key"
      by (auto simp: in_set_conv_nth [of _ C])
    with C [of s node] assms(2) show False by simp
  qed
qed

lemma map_of_concat_bucket:
  assumes "placed cap (A @ b # C)" "length A = hash_slot key cap"
  shows "map_of (concat (A @ b # C)) key = map_of b key"
proof -
  have "map_of (concat A) key = None" "map_of (concat C) key = None"
    using not_in_other_buckets [OF assms] by (simp_all add: map_of_eq_None_iff)
  then show ?thesis by (simp add: map_add_def split: option.split)
qed

lemma find_map_of: "map_option snd (List.find (\<lambda>node. fst node = key) b) = map_of b key"
  by (induction b) auto

lemma find_None_map_of: "List.find (\<lambda>node. fst node = key) b = None \<longleftrightarrow> map_of b key = None"
  by (metis find_map_of map_option_is_None)

lemma search_node_ht_map:
  assumes "ht_inv this"
  shows "map_option snd (linked_hashtable_search_node this key) = ht_map this key"
proof -
  obtain A b C where s: "buckets this = A @ b # C" "length A = hash_slot key (capacity this)"
    using ht_inv_split [OF assms] .
  have "placed (capacity this) (A @ b # C)" using assms s by (simp add: ht_inv_def)
  from map_of_concat_bucket [OF this s(2)] show ?thesis
    by (simp add: linked_hashtable_search_node_def ht_map_def s find_map_of flip: s(2))
qed

lemma search_node_cases:
  assumes "ht_inv this"
  shows "linked_hashtable_search_node this key = None \<longleftrightarrow> ht_map this key = None"
    and "linked_hashtable_search_node this key = Some node \<Longrightarrow> ht_map this key = Some (snd node)"
  using search_node_ht_map [OF assms, of key] by auto

section \<open>Changing one bucket\<close>

lemma set_node_val_keys [simp]: "map fst (set_node_val key val b) = map fst b"
  by (induction b) auto

lemma fst_set_node_val [simp]: "fst ` set (set_node_val key val b) = fst ` set b"
  by (metis image_set set_node_val_keys)

lemma map_of_set_node_val:
  "map_of b key \<noteq> None \<Longrightarrow> map_of (set_node_val key val b) = (map_of b)(key \<mapsto> val)"
  by (induction b) (auto simp: fun_eq_iff split: if_splits)

lemma unlink_node_subset: "set (unlink_node key b) \<subseteq> set b"
  by (induction b) auto

lemma distinct_unlink: "distinct (map fst b) \<Longrightarrow> distinct (map fst (unlink_node key b))"
  by (induction b) (use unlink_node_subset in fastforce)+

lemma map_of_unlink:
  "distinct (map fst b) \<Longrightarrow> map_of (unlink_node key b) = (map_of b)(key := None)"
  by (induction b) (auto simp: fun_eq_iff map_of_eq_None_iff)

lemma distinct_replace:
  "distinct (xs @ ys @ zs) \<Longrightarrow> distinct ys' \<Longrightarrow> set ys' \<subseteq> set ys \<Longrightarrow> distinct (xs @ ys' @ zs)"
  by auto

lemma length_unlink: "map_of b key \<noteq> None \<Longrightarrow> Suc (length (unlink_node key b)) = length b"
  by (induction b) auto

lemma placed_change:
  assumes "placed cap (A @ b # C)" "\<forall>node \<in> set b'. hash_slot (fst node) cap = length A"
  shows "placed cap (A @ b' # C)"
  using assms by (simp add: placed_append)

lemma ht_change_map:
  assumes "placed cap (A @ b # C)" "placed cap (A @ b' # C)" "length A = hash_slot key cap"
    and eq: "map_of b' = (map_of b)(key := v)"
  shows "map_of (concat (A @ b' # C)) = (map_of (concat (A @ b # C)))(key := v)"
proof
  fix x
  show "map_of (concat (A @ b' # C)) x = ((map_of (concat (A @ b # C)))(key := v)) x"
  proof (cases "x = key")
    case True
    then show ?thesis using map_of_concat_bucket [OF assms(2,3)] by (simp add: eq)
  next
    case False
    then show ?thesis by (simp add: map_add_def eq split: option.split)
  qed
qed

section \<open>Rehashing\<close>

lemma length_fold_add_head [simp]:
  "length (fold (\<lambda>node. hlist_add_head (g node) node) xs bs) = length bs"
  by (induction xs arbitrary: bs) (auto simp: hlist_add_head_def)

lemma fold_add_head_nth:
  "s < length bs \<Longrightarrow> \<forall>x \<in> set xs. g x < length bs \<Longrightarrow>
   fold (\<lambda>node. hlist_add_head (g node) node) xs bs ! s = rev (filter (\<lambda>x. g x = s) xs) @ bs ! s"
  by (induction xs arbitrary: bs) (auto simp: hlist_add_head_def nth_list_update)

lemma bucket_mset: "mset (concat (A @ (x # b) # C)) = add_mset x (mset (concat (A @ b # C)))"
  by simp

lemma mset_fold_add_head:
  "\<forall>x \<in> set xs. g x < length bs \<Longrightarrow>
   mset (concat (fold (\<lambda>node. hlist_add_head (g node) node) xs bs)) = mset xs + mset (concat bs)"
proof (induction xs arbitrary: bs)
  case Nil
  then show ?case by simp
next
  case (Cons x xs)
  let ?bs = "hlist_add_head (g x) x bs"
  have "mset (concat ?bs) = add_mset x (mset (concat bs))"
  proof -
    have "bs = take (g x) bs @ bs ! g x # drop (Suc (g x)) bs"
      using Cons.prems by (simp add: id_take_nth_drop)
    moreover have "?bs = take (g x) bs @ (x # bs ! g x) # drop (Suc (g x)) bs"
      using Cons.prems by (simp add: hlist_add_head_def upd_conv_take_nth_drop)
    ultimately show ?thesis
      by (metis (no_types, lifting) bucket_mset)
  qed
  moreover have "length ?bs = length bs" by (simp add: hlist_add_head_def)
  ultimately show ?case using Cons by simp
qed

lemma distinct_mset_cong: "mset xs = mset ys \<Longrightarrow> distinct (map fst ys) \<Longrightarrow> distinct (map fst xs)"
  by (metis mset_map mset_eq_imp_distinct_iff)

lemma map_of_mset_cong:
  assumes "mset xs = mset ys" "distinct (map fst ys)"
  shows "map_of xs = map_of ys"
proof -
  have "distinct (map fst xs)" using assms by (rule distinct_mset_cong)
  moreover have "set xs = set ys" using assms(1) by (rule mset_eq_setD)
  ultimately show ?thesis using assms(2) by (metis map_of_inject_set)
qed

lemma rehash_correct:
  assumes inv: "ht_inv this"
  shows "ht_inv (linked_hashtable_rehash ok this)"
    and "ht_map (linked_hashtable_rehash ok this) = ht_map this"
    and "ht_count (linked_hashtable_rehash ok this) = ht_count this"
    and "ht_size (linked_hashtable_rehash ok this) = ht_size this"
proof -
  let ?t = "linked_hashtable_rehash ok this"
  have "ht_inv ?t \<and> ht_map ?t = ht_map this \<and> ht_count ?t = ht_count this \<and> ht_size ?t = ht_size this"
  proof (cases "MAX_LINKED_HASHTABLE_CAPACITY \<le> capacity this \<or> \<not> ok")
    case True
    then show ?thesis using inv by (auto simp: linked_hashtable_rehash_def)
  next
    case False
    from inv obtain k where k: "4 \<le> k" "k \<le> 20" "capacity this = 2 ^ k"
      by (auto simp: ht_inv_def)
    have "k \<noteq> 20" using False k(3) by (auto simp: MAX_LINKED_HASHTABLE_CAPACITY_def)
    then have "k < 20" using k(2) by simp
    let ?n = "2 * capacity this" and ?xs = "concat (buckets this)"
    let ?g = "\<lambda>node. hash_slot (fst node) ?n"
    let ?nb = "fold (\<lambda>node. hlist_add_head (?g node) node) ?xs (init_buckets ?n)"
    have t: "?t = this\<lparr>capacity := ?n, buckets := ?nb\<rparr>"
      using False by (simp add: linked_hashtable_rehash_def Let_def)
    have n: "?n = 2 ^ Suc k" by (simp add: k)
    have slot: "hash_slot key ?n < ?n" for key
      unfolding n hash_slot_def ilog2_power using \<open>k < 20\<close> by (intro hash_64_generic_less) simp
    have slots: "\<forall>x \<in> set ?xs. ?g x < length (init_buckets ?n)" using slot by simp
    have ms: "mset (concat ?nb) = mset ?xs"
      using mset_fold_add_head [OF slots] by simp
    have dist: "distinct (map fst ?xs)" using inv by (simp add: ht_inv_def)
    have "placed ?n ?nb"
      unfolding placed_def
    proof (intro allI impI ballI)
      fix s x assume s: "s < length ?nb" and x: "x \<in> set (?nb ! s)"
      have "?nb ! s = rev (filter (\<lambda>x. ?g x = s) ?xs) @ init_buckets ?n ! s"
        using s slots by (intro fold_add_head_nth) simp_all
      with x s show "?g x = s" by simp
    qed
    moreover have "distinct (map fst (concat ?nb))"
      by (rule distinct_mset_cong [OF ms dist])
    moreover have "\<exists>k. 4 \<le> k \<and> k \<le> 20 \<and> ?n = 2 ^ k"
      using k \<open>k < 20\<close> n by (intro exI [of _ "Suc k"]) simp
    ultimately have "ht_inv ?t" by (simp add: t ht_inv_def)
    moreover have "ht_map ?t = ht_map this"
      using map_of_mset_cong [OF ms dist] unfolding t ht_map_def by simp
    moreover have "ht_count ?t = ht_count this"
      using arg_cong [OF ms, of size] unfolding t ht_count_def by (simp del: length_concat)
    moreover have "ht_size ?t = ht_size this" by (simp add: t)
    ultimately show ?thesis by blast
  qed
  then show "ht_inv ?t" "ht_map ?t = ht_map this" "ht_count ?t = ht_count this"
    "ht_size ?t = ht_size this" by simp_all
qed

section \<open>Operations\<close>

lemma ht_inv_change:
  assumes inv: "ht_inv this" and s: "buckets this = A @ b # C" "length A = hash_slot key (capacity this)"
    and b': "\<forall>node \<in> set b'. hash_slot (fst node) (capacity this) = length A"
      "distinct (map fst (concat (A @ b' # C)))" "map_of b' = (map_of b)(key := v)"
  shows "ht_inv (this\<lparr>buckets := A @ b' # C, ht_size := n\<rparr>)"
    and "ht_map (this\<lparr>buckets := A @ b' # C, ht_size := n\<rparr>) = (ht_map this)(key := v)"
proof -
  have pl: "placed (capacity this) (A @ b # C)" using inv s by (simp add: ht_inv_def)
  then have pl': "placed (capacity this) (A @ b' # C)" using b'(1) by (rule placed_change)
  from inv s have "\<exists>k. 4 \<le> k \<and> k \<le> 20 \<and> capacity this = 2 ^ k"
    "length (A @ b' # C) = capacity this" by (auto simp: ht_inv_def)
  with pl' b'(2) show "ht_inv (this\<lparr>buckets := A @ b' # C, ht_size := n\<rparr>)"
    by (simp add: ht_inv_def)
  show "ht_map (this\<lparr>buckets := A @ b' # C, ht_size := n\<rparr>) = (ht_map this)(key := v)"
    using ht_change_map [OF pl pl' s(2) b'(3)] by (simp add: ht_map_def s(1))
qed

lemma bucket_placed:
  "ht_inv this \<Longrightarrow> buckets this = A @ b # C \<Longrightarrow> node \<in> set b \<Longrightarrow>
   hash_slot (fst node) (capacity this) = length A"
  by (simp add: ht_inv_def placed_append)

lemma ht_map_bucket:
  "ht_inv this \<Longrightarrow> buckets this = A @ b # C \<Longrightarrow> length A = hash_slot key (capacity this) \<Longrightarrow>
   ht_map this key = map_of b key"
  using map_of_concat_bucket [of "capacity this" A b C key] by (simp add: ht_map_def ht_inv_def)

lemma put_present:
  fixes this :: "'v linked_hashtable" and val :: 'v
  assumes inv: "ht_inv this" and found: "ht_map this key \<noteq> None"
  defines "slot \<equiv> hash_slot key (capacity this)"
  defines "this' \<equiv> this\<lparr>buckets := (buckets this)[slot := set_node_val key val (buckets this ! slot)]\<rparr>"
  shows "ht_inv this'" "ht_map this' = (ht_map this)(key \<mapsto> val)" "ht_count this' = ht_count this"
proof -
  obtain A b C where s: "buckets this = A @ b # C" "length A = hash_slot key (capacity this)"
    using ht_inv_split [OF inv] .
  let ?b = "set_node_val key val b"
  have this': "this' = this\<lparr>buckets := A @ ?b # C, ht_size := ht_size this\<rparr>"
    by (simp add: this'_def slot_def s flip: s(2))
  have "map_of b key \<noteq> None"
    using found ht_map_bucket [OF inv s] by simp
  then have m: "map_of ?b = (map_of b)(key \<mapsto> val)" by (rule map_of_set_node_val)
  have pl: "\<forall>node \<in> set ?b. hash_slot (fst node) (capacity this) = length A"
  proof
    fix node assume "node \<in> set ?b"
    then have "fst node \<in> fst ` set b" using fst_set_node_val [of key val b] by blast
    then show "hash_slot (fst node) (capacity this) = length A"
      using bucket_placed [OF inv s(1)] by auto
  qed
  have d: "distinct (map fst (concat (A @ ?b # C)))"
    using inv s by (simp add: ht_inv_def)
  show "ht_inv this'" "ht_map this' = (ht_map this)(key \<mapsto> val)"
    unfolding this' by (rule ht_inv_change [OF inv s pl d m])+
  have "length ?b = length b" by (metis length_map set_node_val_keys)
  then show "ht_count this' = ht_count this" by (simp add: ht_count_def this' s(1))
qed

lemma put_absent:
  fixes this :: "'v linked_hashtable" and val :: 'v and n :: u64
  assumes inv: "ht_inv this" and absent: "ht_map this key = None"
  defines "slot \<equiv> hash_slot key (capacity this)"
  defines "this' \<equiv> this\<lparr>buckets := hlist_add_head slot (key, val) (buckets this), ht_size := n\<rparr>"
  shows "ht_inv this'" "ht_map this' = (ht_map this)(key \<mapsto> val)" "ht_count this' = Suc (ht_count this)"
proof -
  obtain A b C where s: "buckets this = A @ b # C" "length A = hash_slot key (capacity this)"
    using ht_inv_split [OF inv] .
  let ?b = "(key, val) # b"
  have this': "this' = this\<lparr>buckets := A @ ?b # C, ht_size := n\<rparr>"
    by (simp add: this'_def slot_def s hlist_add_head_def flip: s(2))
  have m: "map_of ?b = (map_of b)(key \<mapsto> val)" by simp
  have pl: "\<forall>node \<in> set ?b. hash_slot (fst node) (capacity this) = length A"
    using bucket_placed [OF inv s(1)] s(2) by simp
  have "key \<notin> fst ` set (concat (A @ b # C))"
    using absent by (simp only: ht_map_def s(1) map_of_eq_None_iff not_False_eq_True)
  then have d: "distinct (map fst (concat (A @ ?b # C)))"
    using inv s by (auto simp: ht_inv_def)
  show "ht_inv this'" "ht_map this' = (ht_map this)(key \<mapsto> val)"
    unfolding this' by (rule ht_inv_change [OF inv s pl d m])+
  show "ht_count this' = Suc (ht_count this)" by (simp add: ht_count_def this' s(1))
qed

lemma remove_present:
  fixes this :: "'v linked_hashtable" and n :: u64
  assumes inv: "ht_inv this" and found: "ht_map this key \<noteq> None"
  defines "slot \<equiv> hash_slot key (capacity this)"
  defines "this' \<equiv> this\<lparr>buckets := (buckets this)[slot := unlink_node key (buckets this ! slot)], ht_size := n\<rparr>"
  shows "ht_inv this'" "ht_map this' = (ht_map this)(key := None)" "Suc (ht_count this') = ht_count this"
proof -
  obtain A b C where s: "buckets this = A @ b # C" "length A = hash_slot key (capacity this)"
    using ht_inv_split [OF inv] .
  let ?b = "unlink_node key b"
  have this': "this' = this\<lparr>buckets := A @ ?b # C, ht_size := n\<rparr>"
    by (simp add: this'_def slot_def s flip: s(2))
  have kb: "map_of b key \<noteq> None"
    using found ht_map_bucket [OF inv s] by simp
  have db: "distinct (map fst b)" using inv s by (simp add: ht_inv_def)
  then have m: "map_of ?b = (map_of b)(key := None)" by (rule map_of_unlink)
  have pl: "\<forall>node \<in> set ?b. hash_slot (fst node) (capacity this) = length A"
    using bucket_placed [OF inv s(1)] unlink_node_subset by blast
  have d: "distinct (map fst (concat (A @ ?b # C)))"
  proof -
    have "distinct (map fst (concat A) @ map fst b @ map fst (concat C))"
      using inv s by (simp add: ht_inv_def)
    then have "distinct (map fst (concat A) @ map fst ?b @ map fst (concat C))"
      by (rule distinct_replace) (use distinct_unlink [OF db] unlink_node_subset [of key b] in auto)
    then show ?thesis by simp
  qed
  show "ht_inv this'" "ht_map this' = (ht_map this)(key := None)"
    unfolding this' by (rule ht_inv_change [OF inv s pl d m])+
  show "Suc (ht_count this') = ht_count this"
    using length_unlink [OF kb] by (simp add: ht_count_def this' s(1))
qed

lemma hashtable_put_correct:
  assumes inv: "ht_inv this" and put: "linked_hashtable_put ok this key val = (old, this')"
  shows "ht_inv this'" "ht_map this' = (ht_map this)(key \<mapsto> val)" "old = ht_map this key"
    "ht_size this' - of_nat (ht_count this') = ht_size this - of_nat (ht_count this)"
proof -
  define t where "t = (if rehash_threadhold (capacity this) \<le> unat (ht_size this)
                       then linked_hashtable_rehash ok this else this)"
  have t: "ht_inv t" "ht_map t = ht_map this" "ht_count t = ht_count this" "ht_size t = ht_size this"
    using rehash_correct [OF inv] inv by (simp_all add: t_def)
  note put' = put [unfolded linked_hashtable_put_def Let_def, folded t_def]
  have "ht_inv this' \<and> ht_map this' = (ht_map this)(key \<mapsto> val) \<and> old = ht_map this key \<and>
    ht_size this' - of_nat (ht_count this') = ht_size this - of_nat (ht_count this)"
  proof (cases "linked_hashtable_search_node t key")
    case None
    then have m: "ht_map t key = None" by (simp add: search_node_cases [OF t(1)])
    then have "ht_map this key = None" by (simp add: t)
    with put_absent [OF t(1) m] put' None t show ?thesis by auto
  next
    case (Some node)
    then have m: "ht_map t key = Some (snd node)" by (rule search_node_cases [OF t(1)])
    then have "ht_map t key \<noteq> None" by simp
    moreover have "ht_map this key = Some (snd node)" using m by (simp add: t)
    ultimately show ?thesis using put_present [of t key] put' Some t by auto
  qed
  then show "ht_inv this'" "ht_map this' = (ht_map this)(key \<mapsto> val)" "old = ht_map this key"
    "ht_size this' - of_nat (ht_count this') = ht_size this - of_nat (ht_count this)" by simp_all
qed

lemma hashtable_remove_correct:
  assumes inv: "ht_inv this" and rem: "linked_hashtable_remove this key = (old, this')"
  shows "ht_inv this'" "ht_map this' = (ht_map this)(key := None)" "old = ht_map this key"
    "ht_size this' - of_nat (ht_count this') = ht_size this - of_nat (ht_count this)"
proof -
  have "ht_inv this' \<and> ht_map this' = (ht_map this)(key := None) \<and> old = ht_map this key \<and>
    ht_size this' - of_nat (ht_count this') = ht_size this - of_nat (ht_count this)"
  proof (cases "linked_hashtable_search_node this key")
    case None
    then have "ht_map this key = None" by (simp add: search_node_cases [OF inv])
    with rem None inv show ?thesis by (auto simp: linked_hashtable_remove_def fun_upd_idem)
  next
    case (Some node)
    then have m: "ht_map this key = Some (snd node)" by (rule search_node_cases [OF inv])
    then have f: "ht_map this key \<noteq> None" by simp
    have c: "of_nat (ht_count this) = 1 + (of_nat (ht_count (snd (linked_hashtable_remove this key))) :: u64)"
      using remove_present(3) [OF inv f, of "ht_size this - 1"] Some
      by (simp add: linked_hashtable_remove_def Let_def flip: of_nat_Suc)
    from remove_present [OF inv f] rem Some m c show ?thesis
      by (auto simp: linked_hashtable_remove_def Let_def)
  qed
  then show "ht_inv this'" "ht_map this' = (ht_map this)(key := None)" "old = ht_map this key"
    "ht_size this' - of_nat (ht_count this') = ht_size this - of_nat (ht_count this)" by simp_all
qed

lemma hashtable_clear_correct:
  "ht_inv this \<Longrightarrow> ht_inv (linked_hashtable_clear this)"
  "ht_map (linked_hashtable_clear this) = Map.empty"
  by (auto simp: linked_hashtable_clear_def ht_inv_def ht_map_def placed_def)

lemma hashtable_get_correct:
  assumes "ht_inv this"
  shows "linked_hashtable_get this key = (case ht_map this key of None \<Rightarrow> Inl ENODATA | Some v \<Rightarrow> Inr v)"
  unfolding search_node_ht_map [OF assms, symmetric] linked_hashtable_get_def
  by (simp split: option.split)

interpretation lht: keyed_table
  "linked_hashtable_put grow" linked_hashtable_get linked_hashtable_contains linked_hashtable_remove
  linked_hashtable_clear ht_map ht_inv "\<lambda>_. True"
proof unfold_locales
  fix t k v old t' assume "ht_inv t" "linked_hashtable_put grow t k v = (old, t')"
  then show "ht_inv t' \<and> ht_map t' = (ht_map t)(k \<mapsto> v) \<and> old = ht_map t k"
    using hashtable_put_correct [of t grow k v old t'] by simp
next
  fix t k old t' assume "ht_inv t" "linked_hashtable_remove t k = (old, t')"
  then show "ht_inv t' \<and> ht_map t' = (ht_map t)(k := None) \<and> old = ht_map t k"
    using hashtable_remove_correct [of t k old t'] by simp
next
  fix t :: "'a linked_hashtable" and k assume "ht_inv t"
  then show "linked_hashtable_contains t k \<longleftrightarrow> ht_map t k \<noteq> None"
    by (simp add: linked_hashtable_contains_def search_node_cases(1))
qed (simp_all add: hashtable_get_correct hashtable_clear_correct)

section \<open>Iteration\<close>

definition iter_content :: "'v linked_hash_iter \<Rightarrow> 'v linked_node list" where
  "iter_content this = it_hlist this @ concat (drop (Suc (it_slot this)) (buckets (it_hashtable this)))"

definition iter_inv :: "'v linked_hash_iter \<Rightarrow> bool" where
  "iter_inv this \<longleftrightarrow> 0 < capacity (it_hashtable this) \<and>
     length (buckets (it_hashtable this)) = capacity (it_hashtable this) \<and>
     (it_hlist this = [] \<longrightarrow> iter_content this = [])"

lemma iter_skip_correct:
  "0 < capacity (it_hashtable this) \<Longrightarrow>
   length (buckets (it_hashtable this)) = capacity (it_hashtable this) \<Longrightarrow>
   iter_content (linked_hash_iter_skip this) = iter_content this \<and>
   iter_inv (linked_hash_iter_skip this) \<and>
   it_hashtable (linked_hash_iter_skip this) = it_hashtable this"
proof (induction this rule: linked_hash_iter_skip.induct)
  case (1 this)
  let ?t = "it_hashtable this" and ?s = "it_slot this"
  show ?case
  proof (cases "?s < capacity ?t - 1 \<and> it_hlist this = []")
    case True
    let ?nxt = "this\<lparr>it_slot := ?s + 1, it_hlist := buckets ?t ! (?s + 1)\<rparr>"
    have "Suc ?s < length (buckets ?t)" using True "1.prems" by linarith
    then have "drop (Suc ?s) (buckets ?t) = buckets ?t ! Suc ?s # drop (Suc (Suc ?s)) (buckets ?t)"
      by (rule Cons_nth_drop_Suc [symmetric])
    then have "iter_content ?nxt = iter_content this"
      using True by (simp add: iter_content_def)
    moreover have "linked_hash_iter_skip this = linked_hash_iter_skip ?nxt"
      using True by (subst linked_hash_iter_skip.simps) simp
    ultimately show ?thesis using "1.IH" [OF True] "1.prems" by simp
  next
    case False
    then have "linked_hash_iter_skip this = this"
      unfolding linked_hash_iter_skip.simps [of this] by argo
    moreover have "iter_inv this"
      using False 1 by (auto simp: iter_inv_def iter_content_def)
    ultimately show ?thesis by simp
  qed
qed

interpretation hash_iter: iterator
  linked_hash_iter_has_next
  "\<lambda>this. case linked_hash_iter_next this of (r, this') \<Rightarrow> (projr r, this')"
  "\<lambda>this. map (\<lambda>node. (ucast (fst node), snd node)) (iter_content this)"
  iter_inv
proof unfold_locales
  fix this :: "'a linked_hash_iter" assume "iter_inv this"
  then show "linked_hash_iter_has_next this \<longleftrightarrow>
    map (\<lambda>node. (ucast (fst node) :: u32, snd node)) (iter_content this) \<noteq> []"
    by (auto simp: linked_hash_iter_has_next_def iter_inv_def iter_content_def)
next
  fix this :: "'a linked_hash_iter" and x :: "u32 \<times> 'a" and xs
  assume inv: "iter_inv this"
    and c: "map (\<lambda>node. (ucast (fst node), snd node)) (iter_content this) = x # xs"
  then obtain node nodes where n: "it_hlist this = node # nodes"
    by (cases "it_hlist this") (auto simp: iter_inv_def)
  let ?nxt = "linked_hash_iter_skip (this\<lparr>it_hlist := nodes\<rparr>)"
  have "linked_hash_iter_next this = (Inr (ucast (fst node), snd node), ?nxt)"
    by (simp add: linked_hash_iter_next_def n)
  moreover have "iter_content ?nxt = iter_content (this\<lparr>it_hlist := nodes\<rparr>) \<and> iter_inv ?nxt"
  proof -
    have "0 < capacity (it_hashtable this)"
      "length (buckets (it_hashtable this)) = capacity (it_hashtable this)"
      using inv by (simp_all add: iter_inv_def)
    with iter_skip_correct [of "this\<lparr>it_hlist := nodes\<rparr>"] show ?thesis by simp
  qed
  moreover have "iter_content this = node # iter_content (this\<lparr>it_hlist := nodes\<rparr>)"
    by (simp add: iter_content_def n)
  ultimately show "\<exists>i'. (case linked_hash_iter_next this of (r, this') \<Rightarrow> (projr r, this')) = (x, i') \<and>
      map (\<lambda>node. (ucast (fst node), snd node)) (iter_content i') = xs \<and> iter_inv i'"
    using c by auto
qed

lemma iter_init_content:
  assumes "ht_inv table"
  shows "iter_inv (linked_hash_iter_init table)"
    "iter_content (linked_hash_iter_init table) = concat (buckets table)"
proof -
  let ?i = "\<lparr>it_slot = 0, it_hlist = buckets table ! 0, it_hashtable = table\<rparr>"
  have len: "length (buckets table) = capacity table" and pos: "0 < capacity table"
    using assms by (auto simp: ht_inv_def)
  from iter_skip_correct [of ?i] len pos
  have "iter_content (linked_hash_iter_init table) = iter_content ?i"
    and inv: "iter_inv (linked_hash_iter_init table)"
    by (simp_all add: linked_hash_iter_init_def)
  moreover have "buckets table = buckets table ! 0 # drop (Suc 0) (buckets table)"
    using Cons_nth_drop_Suc [of 0 "buckets table"] len pos by simp
  then have "concat (buckets table) = iter_content ?i"
    by (metis concat.simps(2) iter_content_def linked_hash_iter.select_convs)
  ultimately show "iter_inv (linked_hash_iter_init table)"
    "iter_content (linked_hash_iter_init table) = concat (buckets table)" by simp_all
qed

section \<open>Properties\<close>

lemma create_correct:
  "linked_hashtable_create a b garbage = Some this \<Longrightarrow>
   ht_inv this \<and> ht_map this = Map.empty \<and> ht_count this = 0 \<and> ht_size this = garbage"
proof -
  assume "linked_hashtable_create a b garbage = Some this"
  then have eq: "this = \<lparr>capacity = 16, buckets = init_buckets 16, ht_size = garbage\<rparr>"
    by (simp add: linked_hashtable_create_def linked_hashtable_init_def
        DEFAULT_LINKED_HASHTABLE_CAPACITY_def split: if_splits)
  have "\<exists>k. 4 \<le> k \<and> k \<le> (20::nat) \<and> (16::nat) = 2 ^ k" by (intro exI [of _ 4]) simp
  then show ?thesis by (simp add: eq ht_inv_def ht_map_def ht_count_def placed_def)
qed







end
