(* ===== verification/Memtable.thy ===== *)
theory Memtable
  imports Hashtable
begin

text \<open>
  The in-memory table of the index, \<open>memtable.c\<close>: index records, memtable entries and their
  comparison functions, and the two implementations of \<open>struct memtable\<close>, one over the hash
  table and one over a search tree. Both are proved to be keyed tables that deliver their
  entries sorted, for keys below $2^{31}$: the comparison functions return an \<open>int\<close> cut
  from a 64-bit difference, and order larger keys wrongly.
\<close>

section \<open>Index records\<close>

definition AES_GCM_KEY_SIZE :: nat where "AES_GCM_KEY_SIZE = 16"
definition AES_GCM_IV_SIZE :: nat where "AES_GCM_IV_SIZE = 12"
definition AES_GCM_AUTH_SIZE :: nat where "AES_GCM_AUTH_SIZE = 16"

record index_record =
  pba :: nat
  rmac :: "byte list"
  rkey :: "byte list"
  riv :: "byte list"

definition copy_or_random :: "byte list option \<Rightarrow> nat \<Rightarrow> rng \<Rightarrow> byte list \<times> rng" where
  "copy_or_random src len r =
     (case src of None \<Rightarrow> get_random_bytes len r | Some bs \<Rightarrow> (take len bs, r))"

definition record_create ::
  "bool \<Rightarrow> nat \<Rightarrow> byte list option \<Rightarrow> byte list option \<Rightarrow> byte list option \<Rightarrow> rng
   \<Rightarrow> index_record option \<times> rng" where
  "record_create ok blk key iv mac r =
     (if \<not> ok then (None, r)
      else case copy_or_random key AES_GCM_KEY_SIZE r of (k, r1) \<Rightarrow>
           case copy_or_random iv AES_GCM_IV_SIZE r1 of (v, r2) \<Rightarrow>
             (Some \<lparr>pba = blk,
                    rmac = (case mac of None \<Rightarrow> replicate AES_GCM_AUTH_SIZE 0
                                      | Some m \<Rightarrow> take AES_GCM_AUTH_SIZE m),
                    rkey = k, riv = v\<rparr>, r2))"

definition record_copy :: "bool \<Rightarrow> index_record option \<Rightarrow> index_record option" where
  "record_copy ok old = (case old of None \<Rightarrow> None | Some x \<Rightarrow> if ok then Some x else None)"

section \<open>Entries and their comparison functions\<close>

record 'v memtable_entry =
  me_key :: u32
  me_val :: 'v
  me_dtr :: bool

definition new_memtable_entry :: "bool \<Rightarrow> u32 \<Rightarrow> 'v \<Rightarrow> bool \<Rightarrow> 'v memtable_entry option" where
  "new_memtable_entry ok key val dtr_fn =
     (if \<not> ok then None else Some \<lparr>me_key = key, me_val = val, me_dtr = dtr_fn\<rparr>)"

text \<open>What \<open>delete_memtable_entry\<close> hands to the destructor.\<close>

definition delete_memtable_entry :: "'v memtable_entry \<Rightarrow> 'v list" where
  "delete_memtable_entry entry = (if me_dtr entry then [me_val entry] else [])"

text \<open>The conversion of a 64-bit difference to the \<open>int\<close> the functions return.\<close>

definition int_of_s64 :: "int \<Rightarrow> int" where
  "int_of_s64 x = sint (word_of_int x :: u32)"

definition memtable_entry_cmp :: "'v memtable_entry \<Rightarrow> 'v memtable_entry \<Rightarrow> int" where
  "memtable_entry_cmp entry1 entry2 = int_of_s64 (uint (me_key entry1) - uint (me_key entry2))"

definition memtable_entry_cmp_rb :: "'v memtable_entry \<Rightarrow> 'v memtable_entry \<Rightarrow> int" where
  "memtable_entry_cmp_rb node1 node2 = memtable_entry_cmp node1 node2"

definition memtable_entry_cmp_rb_key :: "u32 \<Rightarrow> 'v memtable_entry \<Rightarrow> int" where
  "memtable_entry_cmp_rb_key key entry = int_of_s64 (sint key - uint (me_key entry))"

definition memtable_entry_cmp_pointer :: "'v memtable_entry \<Rightarrow> 'v memtable_entry \<Rightarrow> int" where
  "memtable_entry_cmp_pointer a b = memtable_entry_cmp a b"

definition key_ok :: "u32 \<Rightarrow> bool" where
  "key_ok k \<longleftrightarrow> uint k < 2 ^ 31"

section \<open>The hash memtable\<close>

record 'v hash_memtable =
  hm_table :: "'v memtable_entry linked_hashtable"
  hm_size :: nat

definition hash_memtable_put ::
  "bool \<Rightarrow> bool \<Rightarrow> 'v hash_memtable \<Rightarrow> u32 \<Rightarrow> 'v \<Rightarrow> bool \<Rightarrow> 'v option \<times> 'v hash_memtable" where
  "hash_memtable_put ok grow this key val dtr_fn =
     (case new_memtable_entry ok key val dtr_fn of
        None \<Rightarrow> (None, this)
      | Some new_entry \<Rightarrow>
          (case linked_hashtable_put grow (hm_table this) (ucast key) new_entry of
             (Some old_entry, t) \<Rightarrow> (Some (me_val old_entry), this\<lparr>hm_table := t\<rparr>)
           | (None, t) \<Rightarrow> (None, this\<lparr>hm_table := t, hm_size := hm_size this + 1\<rparr>)))"

definition hash_memtable_get :: "'v hash_memtable \<Rightarrow> u32 \<Rightarrow> 'v result" where
  "hash_memtable_get this key =
     (case linked_hashtable_get (hm_table this) (ucast key) of
        Inl e \<Rightarrow> Inl e
      | Inr entry \<Rightarrow> Inr (me_val entry))"

definition hash_memtable_entries :: "'v hash_memtable \<Rightarrow> 'v memtable_entry list option" where
  "hash_memtable_entries this =
     map_option (map snd)
       (iter_collect linked_hash_iter_has_next
          (\<lambda>i. case linked_hash_iter_next i of (r, i') \<Rightarrow> (projr r, i'))
          (linked_hash_iter_init (hm_table this)))"

text \<open>The entries are collected into an array of \<open>size\<close> pointers and sorted. \<open>None\<close>: the
  iteration does not end; an array that overflows is the error \<open>EINVAL\<close> of the model.\<close>

definition hash_memtable_get_all_entry ::
  "bool \<Rightarrow> 'v hash_memtable \<Rightarrow> 'v memtable_entry list result option" where
  "hash_memtable_get_all_entry ok this =
     (if \<not> ok then Some (Inl ENOMEM)
      else map_option
             (\<lambda>xs. if length xs \<le> hm_size this then Inr (cmp_sort memtable_entry_cmp_pointer xs)
                   else Inl EINVAL)
             (hash_memtable_entries this))"

definition hash_memtable_remove :: "'v hash_memtable \<Rightarrow> u32 \<Rightarrow> 'v option \<times> 'v hash_memtable" where
  "hash_memtable_remove this key =
     (case linked_hashtable_remove (hm_table this) (ucast key) of
        (None, t) \<Rightarrow> (None, this)
      | (Some entry, t) \<Rightarrow>
          (Some (me_val entry), this\<lparr>hm_table := t, hm_size := hm_size this - 1\<rparr>))"

definition hash_memtable_contains :: "'v hash_memtable \<Rightarrow> u32 \<Rightarrow> bool" where
  "hash_memtable_contains this key = linked_hashtable_contains (hm_table this) (ucast key)"

definition hash_memtable_clear :: "'v hash_memtable \<Rightarrow> ('v list \<times> 'v hash_memtable) option" where
  "hash_memtable_clear this =
     map_option
       (\<lambda>xs. (concat (map delete_memtable_entry xs),
              this\<lparr>hm_table := linked_hashtable_clear (hm_table this), hm_size := 0\<rparr>))
       (hash_memtable_entries this)"

definition hash_memtable_init :: "bool \<Rightarrow> bool \<Rightarrow> u64 \<Rightarrow> 'v hash_memtable result" where
  "hash_memtable_init ok_struct ok_buckets garbage =
     (case linked_hashtable_create ok_struct ok_buckets garbage of
        None \<Rightarrow> Inl ENOMEM
      | Some t \<Rightarrow> Inr \<lparr>hm_table = t, hm_size = 0\<rparr>)"

definition hash_memtable_create :: "bool \<Rightarrow> bool \<Rightarrow> bool \<Rightarrow> u64 \<Rightarrow> 'v hash_memtable option" where
  "hash_memtable_create ok ok_struct ok_buckets garbage =
     (if \<not> ok then None
      else case hash_memtable_init ok_struct ok_buckets garbage of Inl e \<Rightarrow> None | Inr this \<Rightarrow> Some this)"

section \<open>The search tree memtable\<close>

record 'v rbtree_memtable =
  rt_root :: "'v memtable_entry tree"
  rt_size :: nat

fun rbtree_memtable_search :: "'v memtable_entry tree \<Rightarrow> u32 \<Rightarrow> 'v option" where
  "rbtree_memtable_search Leaf key = None"
| "rbtree_memtable_search (Node l cur r) key =
     (if key < me_key cur then rbtree_memtable_search l key
      else if me_key cur < key then rbtree_memtable_search r key
      else Some (me_val cur))"

text \<open>The loop at label \<open>next\<close>: while an entry with an equal key is found it is erased and
  the insertion is tried again.\<close>

function rbtree_memtable_put_loop ::
  "'v memtable_entry \<Rightarrow> 'v memtable_entry tree \<Rightarrow> 'v option \<Rightarrow> 'v option \<times> 'v memtable_entry tree" where
  "rbtree_memtable_put_loop new_entry root old_val =
     (case rb_find_add memtable_entry_cmp_rb new_entry root of
        (Some old_entry, _) \<Rightarrow>
          rbtree_memtable_put_loop new_entry (rb_erase (memtable_entry_cmp_rb new_entry) root)
            (Some (me_val old_entry))
      | (None, root') \<Rightarrow> (old_val, root'))"
  by pat_completeness auto
termination
  by (relation "measure (\<lambda>(_, root, _). size root)") (auto dest: rb_find_add_erase_size [OF sym])

declare rbtree_memtable_put_loop.simps [simp del]

definition rbtree_memtable_put ::
  "bool \<Rightarrow> 'v rbtree_memtable \<Rightarrow> u32 \<Rightarrow> 'v \<Rightarrow> bool \<Rightarrow> 'v option \<times> 'v rbtree_memtable" where
  "rbtree_memtable_put ok this key val dtr_fn =
     (case new_memtable_entry ok key val dtr_fn of
        None \<Rightarrow> (None, this)
      | Some new_entry \<Rightarrow>
          (case rbtree_memtable_put_loop new_entry (rt_root this) None of
             (old_val, root) \<Rightarrow>
               (old_val, this\<lparr>rt_root := root,
                              rt_size := (if old_val = None then rt_size this + 1 else rt_size this)\<rparr>)))"

definition rbtree_memtable_get :: "'v rbtree_memtable \<Rightarrow> u32 \<Rightarrow> 'v result" where
  "rbtree_memtable_get this key =
     (case rbtree_memtable_search (rt_root this) key of
        Some v \<Rightarrow> Inr v
      | None \<Rightarrow> Inl ENODATA)"

definition rbtree_memtable_remove :: "'v rbtree_memtable \<Rightarrow> u32 \<Rightarrow> 'v option \<times> 'v rbtree_memtable" where
  "rbtree_memtable_remove this key =
     (case rb_find (memtable_entry_cmp_rb_key key) (rt_root this) of
        None \<Rightarrow> (None, this)
      | Some entry \<Rightarrow>
          (Some (me_val entry),
           this\<lparr>rt_size := rt_size this - 1,
                rt_root := rb_erase (memtable_entry_cmp_rb_key key) (rt_root this)\<rparr>))"

definition rbtree_memtable_contains :: "'v rbtree_memtable \<Rightarrow> u32 \<Rightarrow> bool" where
  "rbtree_memtable_contains this key = (rbtree_memtable_search (rt_root this) key \<noteq> None)"

definition rbtree_memtable_get_all_entry :: "'v rbtree_memtable \<Rightarrow> 'v memtable_entry list" where
  "rbtree_memtable_get_all_entry this = inorder (rt_root this)"

text \<open>The clearing loop: erase the first node, destroy its entry, until the tree is empty.\<close>

function rbtree_memtable_clear_loop :: "'v memtable_entry tree \<Rightarrow> 'v list \<Rightarrow> 'v list" where
  "rbtree_memtable_clear_loop root destroyed =
     (case rb_first root of
        None \<Rightarrow> destroyed
      | Some entry \<Rightarrow>
          rbtree_memtable_clear_loop (rb_erase_first root) (destroyed @ delete_memtable_entry entry))"
  by pat_completeness auto
termination
  by (relation "measure (\<lambda>(root, _). length (inorder root))")
    (auto simp: rb_first_inorder inorder_rb_erase_first simp del: length_inorder split: list.splits)

declare rbtree_memtable_clear_loop.simps [simp del]

definition rbtree_memtable_clear :: "'v rbtree_memtable \<Rightarrow> 'v list \<times> 'v rbtree_memtable" where
  "rbtree_memtable_clear this =
     (rbtree_memtable_clear_loop (rt_root this) [], this\<lparr>rt_root := Leaf, rt_size := 0\<rparr>)"

definition rbtree_memtable_init :: "'v rbtree_memtable" where
  "rbtree_memtable_init = \<lparr>rt_root = Leaf, rt_size = 0\<rparr>"

definition rbtree_memtable_create :: "bool \<Rightarrow> 'v rbtree_memtable option" where
  "rbtree_memtable_create ok = (if \<not> ok then None else Some rbtree_memtable_init)"

section \<open>The comparison functions\<close>

lemma int_of_s64_id: "- (2 ^ 31) \<le> x \<Longrightarrow> x < 2 ^ 31 \<Longrightarrow> int_of_s64 x = x"
  unfolding int_of_s64_def
  by (simp add: sint_sbintrunc' signed_take_bit_int_eq_self)

lemma uint_diff_bounds: "key_ok j \<Longrightarrow> key_ok k \<Longrightarrow> - (2 ^ 31) \<le> uint j - uint k \<and> uint j - uint k < 2 ^ 31"
  unfolding key_ok_def using uint_ge_0 [of j] uint_ge_0 [of k] by linarith

lemma sint_key: "key_ok k \<Longrightarrow> sint k = uint k"
  using order_trans [OF _ uint_ge_0 [of k], of "- (2 ^ 31)"]
  by (simp add: key_ok_def sint_uint signed_take_bit_int_eq_self)

lemma memtable_entry_cmp_ok:
  "key_ok (me_key a) \<Longrightarrow> key_ok (me_key b) \<Longrightarrow>
   memtable_entry_cmp a b = uint (me_key a) - uint (me_key b)"
  using uint_diff_bounds by (simp add: memtable_entry_cmp_def int_of_s64_id)

lemma memtable_entry_cmp_rb_key_ok:
  "key_ok k \<Longrightarrow> key_ok (me_key b) \<Longrightarrow> memtable_entry_cmp_rb_key k b = uint k - uint (me_key b)"
  using uint_diff_bounds by (simp add: memtable_entry_cmp_rb_key_def sint_key int_of_s64_id)

section \<open>The search tree memtable is a sorted table\<close>

definition entry_kv :: "'v memtable_entry \<Rightarrow> u32 \<times> 'v" where
  "entry_kv e = (me_key e, me_val e)"

definition tree_map :: "'v memtable_entry tree \<Rightarrow> u32 \<rightharpoonup> 'v" where
  "tree_map t = map_of (map entry_kv (inorder t))"

definition tree_ok :: "'v memtable_entry tree \<Rightarrow> bool" where
  "tree_ok t \<longleftrightarrow> bst_on me_key t \<and> (\<forall>e \<in> set_tree t. key_ok (me_key e))"

definition rt_inv :: "'v rbtree_memtable \<Rightarrow> bool" where
  "rt_inv this \<longleftrightarrow> tree_ok (rt_root this) \<and> rt_size this = size (rt_root this)"

lemma tree_map_Some:
  "bst_on me_key t \<Longrightarrow> tree_map t k = Some v \<longleftrightarrow> (\<exists>e \<in> set_tree t. me_key e = k \<and> me_val e = v)"
  using map_of_key_val [of me_key "inorder t" me_val k v]
  by (simp add: tree_map_def entry_kv_def [abs_def] bst_on_def sorted_wrt_less_distinct)

lemma agrees_cmp_rb:
  "tree_ok t \<Longrightarrow> key_ok (me_key x) \<Longrightarrow> agrees (memtable_entry_cmp_rb x) (me_key x) me_key t"
  by (auto simp: agrees_def tree_ok_def memtable_entry_cmp_rb_def memtable_entry_cmp_ok word_less_def)

lemma agrees_cmp_rb_key:
  "tree_ok t \<Longrightarrow> key_ok k \<Longrightarrow> agrees (memtable_entry_cmp_rb_key k) k me_key t"
  by (auto simp: agrees_def tree_ok_def memtable_entry_cmp_rb_key_ok word_less_def)

lemma search_tree_map: "bst_on me_key t \<Longrightarrow> rbtree_memtable_search t k = tree_map t k"
proof -
  assume bst: "bst_on me_key t"
  then have "rbtree_memtable_search t k = Some v \<longleftrightarrow> (\<exists>e \<in> set_tree t. me_key e = k \<and> me_val e = v)" for v
    by (induction t) auto
  then show ?thesis using tree_map_Some [OF bst] by (metis not_None_eq)
qed

lemma erase_tree_ok:
  assumes "tree_ok t" "agrees cmp k me_key t"
  shows "tree_ok (rb_erase cmp t)" "tree_map (rb_erase cmp t) = (tree_map t)(k := None)"
proof -
  have bst: "bst_on me_key t" using assms by (simp add: tree_ok_def)
  have set: "set_tree (rb_erase cmp t) = {a \<in> set_tree t. me_key a \<noteq> k}"
    by (rule rb_erase_set [OF bst assms(2)])
  have bst': "bst_on me_key (rb_erase cmp t)" by (rule rb_erase_bst [OF bst assms(2)])
  show "tree_ok (rb_erase cmp t)" using assms(1) bst' by (simp add: tree_ok_def set)
  show "tree_map (rb_erase cmp t) = (tree_map t)(k := None)"
    by (rule map_eqI) (auto simp: tree_map_Some bst bst' set)
qed

lemma add_tree_ok:
  assumes "tree_ok t" "key_ok (me_key x)" "rb_find_add memtable_entry_cmp_rb x t = (None, t')"
  shows "tree_ok t'" "tree_map t' = (tree_map t)(me_key x \<mapsto> me_val x)" "size t' = Suc (size t)"
    "me_key x \<notin> me_key ` set_tree t"
proof -
  have bst: "bst_on me_key t" using assms by (simp add: tree_ok_def)
  note ag = agrees_cmp_rb [OF assms(1,2)]
  have set: "set_tree t' = insert x (set_tree t)" and sz: "size t' = Suc (size t)"
    using rb_add_set [OF assms(3)] by simp_all
  have bst': "bst_on me_key t'" by (rule rb_add_bst [OF bst ag assms(3)])
  have "rb_find (memtable_entry_cmp_rb x) t = None"
    using rb_find_add_found [of memtable_entry_cmp_rb x t] assms(3) by simp
  then show new: "me_key x \<notin> me_key ` set_tree t" by (simp add: rb_find_None [OF bst ag])
  show "tree_ok t'" using assms(1,2) bst' by (simp add: tree_ok_def set)
  show "tree_map t' = (tree_map t)(me_key x \<mapsto> me_val x)"
    using new by (intro map_eqI) (auto simp: tree_map_Some bst bst' set rev_image_eqI)
  show "size t' = Suc (size t)" by (rule sz)
qed

lemma put_loop_absent:
  assumes "tree_ok t" "key_ok (me_key x)" "me_key x \<notin> me_key ` set_tree t"
  obtains t' where "rbtree_memtable_put_loop x t old = (old, t')"
    "rb_find_add memtable_entry_cmp_rb x t = (None, t')"
proof -
  have "rb_find (memtable_entry_cmp_rb x) t = None"
    using rb_find_None [OF _ agrees_cmp_rb [OF assms(1,2)]] assms by (simp add: tree_ok_def)
  then obtain t' where "rb_find_add memtable_entry_cmp_rb x t = (None, t')"
    using rb_find_add_found [of memtable_entry_cmp_rb x t] by (metis prod.collapse)
  with that show ?thesis by (simp add: rbtree_memtable_put_loop.simps [of x t old])
qed

lemma put_loop_correct:
  assumes ok: "tree_ok t" "key_ok (me_key x)" and put: "rbtree_memtable_put_loop x t None = (old, t')"
  shows "tree_ok t'" "tree_map t' = (tree_map t)(me_key x \<mapsto> me_val x)" "old = tree_map t (me_key x)"
    "size t' = (if old = None then Suc (size t) else size t)"
proof -
  have bst: "bst_on me_key t" using ok by (simp add: tree_ok_def)
  note ag = agrees_cmp_rb [OF ok]
  have "tree_ok t' \<and> tree_map t' = (tree_map t)(me_key x \<mapsto> me_val x) \<and> old = tree_map t (me_key x) \<and>
    size t' = (if old = None then Suc (size t) else size t)"
  proof (cases "rb_find (memtable_entry_cmp_rb x) t")
    case None
    then have new: "me_key x \<notin> me_key ` set_tree t" by (simp add: rb_find_None [OF bst ag])
    then have "tree_map t (me_key x) = None"
      using tree_map_Some [OF bst] by (metis imageI not_None_eq)
    moreover obtain t'' where "rbtree_memtable_put_loop x t None = (None, t'')"
      "rb_find_add memtable_entry_cmp_rb x t = (None, t'')" using put_loop_absent [OF ok new] .
    ultimately show ?thesis using put add_tree_ok [OF ok] by auto
  next
    case (Some e)
    let ?t = "rb_erase (memtable_entry_cmp_rb x) t"
    have e: "e \<in> set_tree t" "me_key e = me_key x" using Some rb_find_correct [OF bst ag] by auto
    then have old: "tree_map t (me_key x) = Some (me_val e)" by (auto simp: tree_map_Some [OF bst])
    have ok': "tree_ok ?t" and m: "tree_map ?t = (tree_map t)(me_key x := None)"
      using erase_tree_ok [OF ok(1) ag] by simp_all
    have "me_key x \<notin> me_key ` set_tree ?t" by (auto simp: rb_erase_set [OF bst ag])
    then obtain t'' where t'': "rbtree_memtable_put_loop x ?t (Some (me_val e)) = (Some (me_val e), t'')"
      "rb_find_add memtable_entry_cmp_rb x ?t = (None, t'')" using put_loop_absent [OF ok' ok(2)] by blast
    have "fst (rb_find_add memtable_entry_cmp_rb x t) = Some e"
      using Some by (simp add: rb_find_add_found)
    then have "rbtree_memtable_put_loop x t None = (Some (me_val e), t'')"
      using t''(1) unfolding rbtree_memtable_put_loop.simps [of x t] by (auto split: prod.split)
    with put have "old = Some (me_val e)" "t' = t''" by simp_all
    then show ?thesis
      using old add_tree_ok [OF ok' ok(2) t''(2)] rb_erase_size [OF Some] by (simp add: m)
  qed
  then show "tree_ok t'" "tree_map t' = (tree_map t)(me_key x \<mapsto> me_val x)" "old = tree_map t (me_key x)"
    "size t' = (if old = None then Suc (size t) else size t)" by blast+
qed

lemma clear_loop_destroys:
  "rbtree_memtable_clear_loop t acc = acc @ concat (map delete_memtable_entry (inorder t))"
proof (induction t acc rule: rbtree_memtable_clear_loop.induct)
  case (1 t acc)
  show ?case
  proof (cases "inorder t")
    case Nil
    then show ?thesis by (subst rbtree_memtable_clear_loop.simps) (simp add: rb_first_inorder)
  next
    case (Cons e es)
    then have f: "rb_first t = Some e" by (simp add: rb_first_inorder)
    then have "rbtree_memtable_clear_loop t acc =
        (acc @ delete_memtable_entry e) @ concat (map delete_memtable_entry (inorder (rb_erase_first t)))"
      using "1.IH" [OF f] by (simp add: rbtree_memtable_clear_loop.simps [of t acc])
    then show ?thesis using Cons by (simp add: inorder_rb_erase_first)
  qed
qed

definition rt_map :: "'v rbtree_memtable \<Rightarrow> u32 \<rightharpoonup> 'v" where
  "rt_map this = tree_map (rt_root this)"

lemma rbtree_put_correct:
  assumes "rt_inv this" "key_ok key" "rbtree_memtable_put True this key val dtr_fn = (old, this')"
  shows "rt_inv this' \<and> rt_map this' = (rt_map this)(key \<mapsto> val) \<and> old = rt_map this key"
proof -
  let ?e = "\<lparr>me_key = key, me_val = val, me_dtr = dtr_fn\<rparr>"
  obtain o' t' where l: "rbtree_memtable_put_loop ?e (rt_root this) None = (o', t')"
    by (metis prod.collapse)
  have "tree_ok (rt_root this)" using assms by (simp add: rt_inv_def)
  from put_loop_correct [OF this _ l] assms l show ?thesis
    by (auto simp: rbtree_memtable_put_def new_memtable_entry_def rt_inv_def rt_map_def)
qed

lemma rbtree_remove_correct:
  assumes "rt_inv this" "key_ok key" "rbtree_memtable_remove this key = (old, this')"
  shows "rt_inv this' \<and> rt_map this' = (rt_map this)(key := None) \<and> old = rt_map this key"
proof -
  let ?t = "rt_root this"
  have ok: "tree_ok ?t" and bst: "bst_on me_key ?t" using assms by (simp_all add: rt_inv_def tree_ok_def)
  note ag = agrees_cmp_rb_key [OF ok assms(2)]
  show ?thesis
  proof (cases "rb_find (memtable_entry_cmp_rb_key key) ?t")
    case None
    then have "key \<notin> me_key ` set_tree ?t" by (simp add: rb_find_None [OF bst ag])
    then have "tree_map ?t key = None" using tree_map_Some [OF bst] by (metis imageI not_None_eq)
    then show ?thesis using None assms by (auto simp: rbtree_memtable_remove_def rt_map_def)
  next
    case (Some e)
    then have "e \<in> set_tree ?t" "me_key e = key" using rb_find_correct [OF bst ag] by auto
    then have "tree_map ?t key = Some (me_val e)" by (auto simp: tree_map_Some [OF bst])
    then show ?thesis
      using assms(1,3) Some erase_tree_ok [OF ok ag] rb_erase_size [OF Some]
      by (auto simp: rbtree_memtable_remove_def rt_inv_def rt_map_def)
  qed
qed

interpretation rbt: sorted_table
  "\<lambda>this key val. rbtree_memtable_put True this key val True" rbtree_memtable_get
  rbtree_memtable_contains rbtree_memtable_remove "\<lambda>this. snd (rbtree_memtable_clear this)"
  rt_map rt_inv key_ok "\<lambda>this. map entry_kv (rbtree_memtable_get_all_entry this)" rt_size
proof unfold_locales
  fix t :: "'a rbtree_memtable" assume inv: "rt_inv t"
  show "sorted_wrt (<) (map fst (map entry_kv (rbtree_memtable_get_all_entry t)))"
    using inv by (simp add: rbtree_memtable_get_all_entry_def rt_inv_def tree_ok_def bst_on_def
        entry_kv_def comp_def)
  show "rt_size t = length (map entry_kv (rbtree_memtable_get_all_entry t))"
    using inv by (simp add: rt_inv_def rbtree_memtable_get_all_entry_def)
  fix k :: u32
  show "rbtree_memtable_get t k = (case rt_map t k of None \<Rightarrow> Inl ENODATA | Some v \<Rightarrow> Inr v)"
    using inv by (simp add: rbtree_memtable_get_def rt_map_def rt_inv_def tree_ok_def search_tree_map)
  show "rbtree_memtable_contains t k \<longleftrightarrow> rt_map t k \<noteq> None"
    using inv by (simp add: rbtree_memtable_contains_def rt_map_def rt_inv_def tree_ok_def search_tree_map)
next
  fix t :: "'a rbtree_memtable" assume "rt_inv t"
  show "rt_inv (snd (rbtree_memtable_clear t)) \<and> rt_map (snd (rbtree_memtable_clear t)) = Map.empty"
    by (simp add: rbtree_memtable_clear_def rt_inv_def tree_ok_def bst_on_def rt_map_def tree_map_def)
qed (rule rbtree_put_correct rbtree_remove_correct; assumption |
    simp add: rt_map_def tree_map_def rbtree_memtable_get_all_entry_def)+

section \<open>The hash memtable is a sorted table\<close>

definition hm_inv :: "'v hash_memtable \<Rightarrow> bool" where
  "hm_inv this \<longleftrightarrow> ht_inv (hm_table this) \<and> hm_size this = card (dom (ht_map (hm_table this))) \<and>
     (\<forall>k e. ht_map (hm_table this) k = Some e \<longrightarrow> k = ucast (me_key e) \<and> key_ok (me_key e))"

definition hm_map :: "'v hash_memtable \<Rightarrow> u32 \<rightharpoonup> 'v" where
  "hm_map this key = map_option me_val (ht_map (hm_table this) (ucast key))"

definition hm_entries :: "'v hash_memtable \<Rightarrow> (u32 \<times> 'v) list" where
  "hm_entries this = (case hash_memtable_get_all_entry True this of
     Some (Inr es) \<Rightarrow> map entry_kv es | _ \<Rightarrow> [])"

lemma ucast_key_inj [simp]: "(ucast (a :: u32) :: u64) = ucast b \<longleftrightarrow> a = b"
proof
  assume "(ucast a :: u64) = ucast b"
  then have "(ucast (ucast a :: u64) :: u32) = ucast (ucast b :: u64)" by simp
  then show "a = b" by (simp add: ucast_up_ucast_id is_up)
qed simp

lemma finite_ht_map: "finite (dom (ht_map t))"
  by (simp add: ht_map_def finite_dom_map_of)

lemma hash_put_correct:
  assumes "hm_inv this" "key_ok key" "hash_memtable_put True grow this key val dtr_fn = (old, this')"
  shows "hm_inv this' \<and> hm_map this' = (hm_map this)(key \<mapsto> val) \<and> old = hm_map this key"
proof -
  let ?e = "\<lparr>me_key = key, me_val = val, me_dtr = dtr_fn\<rparr>" and ?m = "ht_map (hm_table this)"
  obtain o' t' where p: "linked_hashtable_put grow (hm_table this) (ucast key) ?e = (o', t')"
    by (metis prod.collapse)
  have inv: "ht_inv (hm_table this)" using assms by (simp add: hm_inv_def)
  note h = hashtable_put_correct [OF inv p]
  have this': "this' = this\<lparr>hm_table := t', hm_size := card (insert (ucast key) (dom ?m))\<rparr>"
    and old: "old = map_option me_val (?m (ucast key))"
    using assms p h(3) finite_ht_map [of "hm_table this"]
    by (auto simp: hash_memtable_put_def new_memtable_entry_def hm_inv_def insert_absorb domIff
        split: option.splits)
  have "hm_inv this'" using assms h by (auto simp: this' hm_inv_def insert_absorb)
  moreover have "hm_map this' = (hm_map this)(key \<mapsto> val)"
    by (rule ext) (simp add: hm_map_def this' h(2))
  ultimately show ?thesis by (simp add: old hm_map_def)
qed

lemma hash_remove_correct:
  assumes "hm_inv this" "hash_memtable_remove this key = (old, this')"
  shows "hm_inv this' \<and> hm_map this' = (hm_map this)(key := None) \<and> old = hm_map this key"
proof -
  let ?m = "ht_map (hm_table this)"
  obtain o' t' where p: "linked_hashtable_remove (hm_table this) (ucast key) = (o', t')"
    by (metis prod.collapse)
  have inv: "ht_inv (hm_table this)" using assms by (simp add: hm_inv_def)
  note h = hashtable_remove_correct [OF inv p]
  show ?thesis
  proof (cases o')
    case None
    then have "this' = this" "old = None" using assms p by (simp_all add: hash_memtable_remove_def)
    moreover have "hm_map this key = None" using None h by (simp add: hm_map_def)
    ultimately show ?thesis using assms by auto
  next
    case (Some e)
    then have this': "this' = this\<lparr>hm_table := t', hm_size := hm_size this - 1\<rparr>" "old = Some (me_val e)"
      using assms p by (simp_all add: hash_memtable_remove_def)
    have "ucast key \<in> dom ?m" using Some h by (simp add: domIff)
    then have "hm_inv this'"
      using assms h finite_ht_map [of "hm_table this"] by (auto simp: this' hm_inv_def)
    moreover have "hm_map this' = (hm_map this)(key := None)"
      by (rule ext) (simp add: hm_map_def this' h(2))
    ultimately show ?thesis using Some h by (simp add: this' hm_map_def)
  qed
qed

lemma hash_entries_list:
  assumes inv: "hm_inv this"
  defines "es \<equiv> map snd (concat (buckets (hm_table this)))"
  shows "hash_memtable_entries this = Some es" "length es = hm_size this" "distinct (map me_key es)"
    "\<forall>e \<in> set es. key_ok (me_key e)"
    "(\<exists>e \<in> set es. me_key e = k \<and> me_val e = v) \<longleftrightarrow> hm_map this k = Some v"
proof -
  let ?xs = "concat (buckets (hm_table this))"
  have ht: "ht_inv (hm_table this)" and d: "distinct (map fst ?xs)"
    using inv by (simp_all add: hm_inv_def ht_inv_def)
  have m: "ht_map (hm_table this) k = Some e \<longleftrightarrow> (k, e) \<in> set ?xs" for k e
    unfolding ht_map_def by (rule map_of_distinct_iff [OF d])
  have key: "fst x = ucast (me_key (snd x)) \<and> key_ok (me_key (snd x))" if "x \<in> set ?xs" for x
    using that inv m [of "fst x" "snd x"] by (simp add: hm_inv_def)
  show "hash_memtable_entries this = Some es"
    using hash_iter.collect_content [OF iter_init_content(1) [OF ht]] iter_init_content(2) [OF ht]
    by (simp add: hash_memtable_entries_def es_def comp_def)
  have "card (fst ` set ?xs) = length ?xs" using distinct_card [OF d] by simp
  then show "length es = hm_size this"
    using inv by (simp add: hm_inv_def es_def ht_map_def dom_map_of_conv_image_fst)
  have "map fst ?xs = map ucast (map me_key es)" using key by (simp add: es_def)
  then have "distinct (map ucast (map me_key es) :: u64 list)" using d by simp
  then show "distinct (map me_key es)" by (simp only: distinct_map)
  show "\<forall>e \<in> set es. key_ok (me_key e)" using key by (auto simp: es_def)
  show "(\<exists>e \<in> set es. me_key e = k \<and> me_val e = v) \<longleftrightarrow> hm_map this k = Some v"
  proof -
    have "(ucast k, e) \<in> set ?xs \<longleftrightarrow> (\<exists>x \<in> set ?xs. snd x = e \<and> me_key e = k)" for e
      using key by (metis fst_conv prod.collapse snd_conv ucast_key_inj)
    then have "hm_map this k = Some v \<longleftrightarrow> (\<exists>e. (\<exists>x \<in> set ?xs. snd x = e \<and> me_key e = k) \<and> me_val e = v)"
      by (simp add: hm_map_def m)
    then show ?thesis by (auto simp: es_def)
  qed
qed

lemma hash_get_all_entry_sorted:
  assumes inv: "hm_inv this"
  shows "hash_memtable_get_all_entry True this =
      Some (Inr (sort_key me_key (map snd (concat (buckets (hm_table this))))))"
proof -
  note es = hash_entries_list [OF inv]
  have "cmp_sort memtable_entry_cmp_pointer (map snd (concat (buckets (hm_table this)))) =
      sort_key me_key (map snd (concat (buckets (hm_table this))))"
    using es(4) by (intro cmp_sort_eq_sort)
      (simp add: memtable_entry_cmp_pointer_def memtable_entry_cmp_ok word_le_def)
  then show ?thesis using es(1,2) by (simp add: hash_memtable_get_all_entry_def)
qed

lemma hm_entries_correct:
  assumes inv: "hm_inv this"
  shows "sorted_wrt (<) (map fst (hm_entries this))" "map_of (hm_entries this) = hm_map this"
    "length (hm_entries this) = hm_size this"
proof -
  note es = hash_entries_list [OF inv]
  let ?es = "map snd (concat (buckets (hm_table this)))"
  have h: "hm_entries this = map entry_kv (sort_key me_key ?es)"
    by (simp add: hm_entries_def hash_get_all_entry_sorted [OF inv])
  have d: "distinct (map me_key (sort_key me_key ?es))"
    using es(3) unfolding distinct_map [of me_key] by (simp only: distinct_sort set_sort)
  then show "sorted_wrt (<) (map fst (hm_entries this))"
    by (simp add: h strict_sorted_iff entry_kv_def comp_def)
  show "map_of (hm_entries this) = hm_map this"
    using map_of_key_val [OF d, of me_val] es(5)
    by (intro map_eqI) (simp add: h entry_kv_def [abs_def])
  show "length (hm_entries this) = hm_size this" using es(2) by (simp add: h)
qed

interpretation hmt: sorted_table
  "\<lambda>this key val. hash_memtable_put True grow this key val True" hash_memtable_get
  hash_memtable_contains hash_memtable_remove "\<lambda>this. snd (the (hash_memtable_clear this))"
  hm_map hm_inv key_ok hm_entries hm_size
proof unfold_locales
  fix t :: "'a hash_memtable" and k assume inv: "hm_inv t"
  then have ht: "ht_inv (hm_table t)" by (simp add: hm_inv_def)
  show "hash_memtable_get t k = (case hm_map t k of None \<Rightarrow> Inl ENODATA | Some v \<Rightarrow> Inr v)"
    by (simp add: hash_memtable_get_def hm_map_def hashtable_get_correct [OF ht] split: option.split)
  show "hash_memtable_contains t k \<longleftrightarrow> hm_map t k \<noteq> None"
    by (simp add: hash_memtable_contains_def hm_map_def lht.contains_spec ht)
  show "hm_inv (snd (the (hash_memtable_clear t))) \<and> hm_map (snd (the (hash_memtable_clear t))) = Map.empty"
    using hash_entries_list(1) [OF inv] hashtable_clear_correct [of "hm_table t"] ht
    by (auto simp: hash_memtable_clear_def hm_inv_def hm_map_def)
next
  fix t :: "'a hash_memtable" and k old t'
  assume "hm_inv t" "hash_memtable_remove t k = (old, t')"
  then show "hm_inv t' \<and> hm_map t' = (hm_map t)(k := None) \<and> old = hm_map t k"
    by (rule hash_remove_correct)
qed (rule hash_put_correct; assumption | simp add: hm_entries_correct)+

section \<open>Properties\<close>

lemma rbtree_init_inv: "rt_inv rbtree_memtable_init" "rt_map rbtree_memtable_init = Map.empty"
  by (simp_all add: rbtree_memtable_init_def rt_inv_def tree_ok_def bst_on_def rt_map_def tree_map_def)

lemma hash_create_inv:
  "hash_memtable_create a b c garbage = Some this \<Longrightarrow> hm_inv this \<and> hm_map this = Map.empty"
  by (auto simp: hash_memtable_create_def hash_memtable_init_def hm_inv_def hm_map_def fun_eq_iff
      split: if_splits option.splits dest!: create_correct)

definition rbtree_memtable_run :: "(u32, 'v) table_op list \<Rightarrow> 'v rbtree_memtable \<Rightarrow> 'v rbtree_memtable" where
  "rbtree_memtable_run ops = fold (table_step (\<lambda>this key val. rbtree_memtable_put True this key val True)
     rbtree_memtable_remove (\<lambda>this. snd (rbtree_memtable_clear this))) ops"

definition hash_memtable_run :: "bool \<Rightarrow> (u32, 'v) table_op list \<Rightarrow> 'v hash_memtable \<Rightarrow> 'v hash_memtable" where
  "hash_memtable_run grow ops = fold (table_step (\<lambda>this key val. hash_memtable_put True grow this key val True)
     hash_memtable_remove (\<lambda>this. snd (the (hash_memtable_clear this)))) ops"

lemma rbtree_run_content:
  assumes "\<forall>op \<in> set ops. op_key_ok key_ok op"
  shows "rt_inv (rbtree_memtable_run ops rbtree_memtable_init)"
    "rt_map (rbtree_memtable_run ops rbtree_memtable_init) = fold map_step ops Map.empty"
  using rbt.run_content [OF rbtree_init_inv(1) assms] by (simp_all add: rbtree_memtable_run_def rbtree_init_inv)

lemma hash_run_content:
  assumes "hash_memtable_create a b c garbage = Some this" "\<forall>op \<in> set ops. op_key_ok key_ok op"
  shows "hm_inv (hash_memtable_run grow ops this)"
    "hm_map (hash_memtable_run grow ops this) = fold map_step ops Map.empty"
proof -
  have "hm_inv this" "hm_map this = Map.empty" using hash_create_inv [OF assms(1)] by simp_all
  then show "hm_inv (hash_memtable_run grow ops this)"
    "hm_map (hash_memtable_run grow ops this) = fold map_step ops Map.empty"
    using hmt.run_content [OF _ assms(2), of this grow] by (simp_all add: hash_memtable_run_def)
qed

text \<open>C16. The search tree memtable refines a finite map for keys below $2^{31}$: after any
  sequence of puts, removes and clears a get returns what the map holds, the size field is
  the number of its keys, and the entry list is strictly sorted and holds exactly the map.\<close>

theorem rbtree_memtable_refines_map:
  assumes "\<forall>op \<in> set ops. op_key_ok key_ok op" "key_ok key"
    "this = rbtree_memtable_run ops rbtree_memtable_init" "m = fold map_step ops Map.empty"
  shows "rbtree_memtable_get this key = (case m key of None \<Rightarrow> Inl ENODATA | Some v \<Rightarrow> Inr v) \<and>
    rt_size this = card (dom m) \<and>
    sorted_wrt (<) (map me_key (rbtree_memtable_get_all_entry this)) \<and>
    map_of (map entry_kv (rbtree_memtable_get_all_entry this)) = m"
proof -
  note c = rbtree_run_content [OF assms(1), folded assms(3,4)]
  have "sorted_wrt (<) (map me_key (rbtree_memtable_get_all_entry this))"
    using rbt.entries_sorted [OF c(1)] by (simp add: entry_kv_def comp_def)
  then show ?thesis
    using assms(2) by (simp add: rbt.get_spec rbt.count_dom rbt.entries_content c)
qed

theorem rbtree_memtable_refines_map_witness:
  "rbtree_memtable_get (rbtree_memtable_run [OpPut 5 ''a'', OpPut 3 ''b'', OpPut 5 ''c''] rbtree_memtable_init) 5 = Inr ''c''"
  using rbtree_memtable_refines_map [of "[OpPut 5 ''a'', OpPut 3 ''b'', OpPut 5 ''c'']" 5, OF _ _ refl refl]
  by (simp add: key_ok_def)



text \<open>C26. Clearing the search tree memtable hands every entry that has a destructor to it
  exactly once, in key order, and leaves the table empty.\<close>

theorem rbtree_clear_destroys_once:
  "rbtree_memtable_clear this =
     (map me_val (filter me_dtr (rbtree_memtable_get_all_entry this)), this\<lparr>rt_root := Leaf, rt_size := 0\<rparr>)"
proof -
  have "concat (map delete_memtable_entry es) = map me_val (filter me_dtr es)" for es :: "'a memtable_entry list"
    by (induction es) (simp_all add: delete_memtable_entry_def)
  then show ?thesis by (simp add: rbtree_memtable_clear_def clear_loop_destroys rbtree_memtable_get_all_entry_def)
qed


end
