(* ===== verification/Block_Lock.thy ===== *)
theory Block_Lock
  imports Kernel_Lib "HOL-Library.Multiset"
begin

text \<open>
  The read/write semaphore of \<open>dm-block-manager.c\<close> (with the debugging locks compiled in):
  at most four readers or one writer, detection of recursive acquisition, priority to writers.
  Every operation runs under the spinlock of the semaphore, so it is one atomic step; a
  \<open>BUG_ON\<close> is the value \<open>None\<close>. The tasks that use the lock are the step relation
  \<open>bl_step\<close>.
\<close>

section \<open>Operations\<close>

definition MAX_HOLDERS :: nat where "MAX_HOLDERS = 4"

type_synonym task = nat

record waiter =
  w_task :: task
  wants_write :: bool

record block_lock =
  count :: int
  waiters :: "waiter list"
  holders :: "task option list"

definition find_holder :: "block_lock \<Rightarrow> task option \<Rightarrow> nat option" where
  "find_holder lock t =
     (if t \<in> set (holders lock) then Some (length (takeWhile (\<lambda>h. h \<noteq> t) (holders lock))) else None)"

definition add_holder :: "block_lock \<Rightarrow> task \<Rightarrow> block_lock option" where
  "add_holder lock t =
     (case find_holder lock None of
        None \<Rightarrow> None
      | Some h \<Rightarrow> Some (lock\<lparr>holders := (holders lock)[h := Some t]\<rparr>))"

definition del_holder :: "block_lock \<Rightarrow> task \<Rightarrow> block_lock option" where
  "del_holder lock t =
     (case find_holder lock (Some t) of
        None \<Rightarrow> None
      | Some h \<Rightarrow> Some (lock\<lparr>holders := (holders lock)[h := None]\<rparr>))"

definition check_holder :: "block_lock \<Rightarrow> task \<Rightarrow> unit result" where
  "check_holder lock cur = (if Some cur \<in> set (holders lock) then Inl EINVAL else Inr ())"

fun wake_loop :: "waiter list \<Rightarrow> block_lock \<Rightarrow> block_lock option" where
  "wake_loop [] lock = Some lock"
| "wake_loop (w # ws) lock =
     (if count lock \<ge> int MAX_HOLDERS then Some lock
      else if wants_write w then
        (if count lock > 0 then Some lock
         else add_holder (lock\<lparr>count := - 1, waiters := ws\<rparr>) (w_task w))
      else
        (case add_holder (lock\<lparr>count := count lock + 1, waiters := ws\<rparr>) (w_task w) of
           None \<Rightarrow> None
         | Some lock' \<Rightarrow> wake_loop ws lock'))"

definition wake_many :: "block_lock \<Rightarrow> block_lock option" where
  "wake_many lock = (if count lock < 0 then None else wake_loop (waiters lock) lock)"

definition bl_init :: block_lock where
  "bl_init = \<lparr>count = 0, waiters = [], holders = replicate MAX_HOLDERS None\<rparr>"

definition available_for_read :: "block_lock \<Rightarrow> bool" where
  "available_for_read lock \<longleftrightarrow> count lock \<ge> 0 \<and> count lock < int MAX_HOLDERS \<and> waiters lock = []"

text \<open>The result \<open>Inr True\<close>: the lock is held; \<open>Inr False\<close>: the task waits in the queue.\<close>

definition bl_down_read :: "block_lock \<Rightarrow> task \<Rightarrow> (bool result \<times> block_lock) option" where
  "bl_down_read lock cur =
     (case check_holder lock cur of
        Inl r \<Rightarrow> Some (Inl r, lock)
      | Inr _ \<Rightarrow>
          if available_for_read lock then
            map_option (Pair (Inr True)) (add_holder (lock\<lparr>count := count lock + 1\<rparr>) cur)
          else Some (Inr False,
            lock\<lparr>waiters := waiters lock @ [\<lparr>w_task = cur, wants_write = False\<rparr>]\<rparr>))"

definition bl_down_read_nonblock :: "block_lock \<Rightarrow> task \<Rightarrow> (bool result \<times> block_lock) option" where
  "bl_down_read_nonblock lock cur =
     (case check_holder lock cur of
        Inl r \<Rightarrow> Some (Inl r, lock)
      | Inr _ \<Rightarrow>
          if available_for_read lock then
            map_option (Pair (Inr True)) (add_holder (lock\<lparr>count := count lock + 1\<rparr>) cur)
          else Some (Inl EWOULDBLOCK, lock))"

definition bl_up_read :: "block_lock \<Rightarrow> task \<Rightarrow> block_lock option" where
  "bl_up_read lock cur =
     (if count lock \<le> 0 then None
      else case del_holder lock cur of
        None \<Rightarrow> None
      | Some l \<Rightarrow>
          let l' = l\<lparr>count := count l - 1\<rparr>
          in if waiters l' \<noteq> [] then wake_many l' else Some l')"

definition bl_down_write :: "block_lock \<Rightarrow> task \<Rightarrow> (bool result \<times> block_lock) option" where
  "bl_down_write lock cur =
     (case check_holder lock cur of
        Inl r \<Rightarrow> Some (Inl r, lock)
      | Inr _ \<Rightarrow>
          if count lock = 0 \<and> waiters lock = [] then
            map_option (Pair (Inr True)) (add_holder (lock\<lparr>count := - 1\<rparr>) cur)
          else Some (Inr False,
            lock\<lparr>waiters := \<lparr>w_task = cur, wants_write = True\<rparr> # waiters lock\<rparr>))"

definition bl_up_write :: "block_lock \<Rightarrow> task \<Rightarrow> block_lock option" where
  "bl_up_write lock cur =
     (case del_holder lock cur of
        None \<Rightarrow> None
      | Some l \<Rightarrow>
          let l' = l\<lparr>count := 0\<rparr>
          in if waiters l' \<noteq> [] then wake_many l' else Some l')"

section \<open>The tasks\<close>

text \<open>A task in the queue sleeps, so it takes no step; a task unlocks in the mode in which it
  holds the lock. Nothing else is assumed of the tasks. A step that hits a \<open>BUG_ON\<close> leads to
  the state \<open>None\<close>.\<close>

definition is_waiting :: "block_lock \<Rightarrow> task \<Rightarrow> bool" where
  "is_waiting lock t \<longleftrightarrow> t \<in> w_task ` set (waiters lock)"

definition holds_read :: "block_lock \<Rightarrow> task \<Rightarrow> bool" where
  "holds_read lock t \<longleftrightarrow> Some t \<in> set (holders lock) \<and> count lock > 0"

definition holds_write :: "block_lock \<Rightarrow> task \<Rightarrow> bool" where
  "holds_write lock t \<longleftrightarrow> Some t \<in> set (holders lock) \<and> count lock < 0"

inductive bl_step :: "block_lock \<Rightarrow> block_lock option \<Rightarrow> bool" where
  down_read: "\<not> is_waiting lock t \<Longrightarrow> bl_step lock (map_option snd (bl_down_read lock t))"
| down_read_nonblock: "\<not> is_waiting lock t \<Longrightarrow> bl_step lock (map_option snd (bl_down_read_nonblock lock t))"
| down_write: "\<not> is_waiting lock t \<Longrightarrow> bl_step lock (map_option snd (bl_down_write lock t))"
| up_read: "holds_read lock t \<Longrightarrow> bl_step lock (bl_up_read lock t)"
| up_write: "holds_write lock t \<Longrightarrow> bl_step lock (bl_up_write lock t)"

inductive bl_reachable :: "block_lock option \<Rightarrow> bool" where
  init: "bl_reachable (Some bl_init)"
| step: "bl_reachable (Some lock) \<Longrightarrow> bl_step lock lock' \<Longrightarrow> bl_reachable lock'"

section \<open>Invariant\<close>

definition bl_core :: "block_lock \<Rightarrow> bool" where
  "bl_core lock \<longleftrightarrow> length (holders lock) = MAX_HOLDERS \<and>
     distinct (somes (holders lock) @ map w_task (waiters lock)) \<and>
     (count lock = - 1 \<and> length (somes (holders lock)) = 1 \<or> count lock = int (length (somes (holders lock))))"

text \<open>No wake-up is lost: whoever waits on a lock that is not write-locked and not full is
  behind a writer, which waits for readers to leave.\<close>

definition no_lost_wakeup :: "block_lock \<Rightarrow> bool" where
  "no_lost_wakeup lock \<longleftrightarrow>
     (waiters lock \<noteq> [] \<and> 0 \<le> count lock \<and> count lock < int MAX_HOLDERS \<longrightarrow>
        wants_write (hd (waiters lock)) \<and> 0 < count lock)"

definition bl_inv :: "block_lock \<Rightarrow> bool" where
  "bl_inv lock \<longleftrightarrow> bl_core lock \<and> no_lost_wakeup lock"

lemma first_index:
  "t \<in> set xs \<Longrightarrow> length (takeWhile (\<lambda>h. h \<noteq> t) xs) < length xs \<and> xs ! length (takeWhile (\<lambda>h. h \<noteq> t) xs) = t"
  by (induction xs) auto

lemma find_holder_Some:
  "find_holder lock t = Some h \<Longrightarrow> h < length (holders lock) \<and> holders lock ! h = t"
  using first_index [of t "holders lock"] by (auto simp: find_holder_def split: if_splits)

lemma mset_facts:
  assumes "mset xs = add_mset t (mset ys)"
  shows "length xs = Suc (length ys)" "distinct xs \<longleftrightarrow> t \<notin> set ys \<and> distinct ys" "set xs = insert t (set ys)"
proof -
  have "mset xs = mset (t # ys)" using assms by simp
  then show "length xs = Suc (length ys)" "distinct xs \<longleftrightarrow> t \<notin> set ys \<and> distinct ys" "set xs = insert t (set ys)"
    by (metis length_Cons mset_eq_length, metis distinct.simps(2) mset_eq_imp_distinct_iff,
        metis list.set(2) mset_eq_setD)
qed

lemma add_holder_ok:
  assumes "length (somes (holders lock)) < length (holders lock)"
  obtains lock' where "add_holder lock t = Some lock'" "count lock' = count lock" "waiters lock' = waiters lock"
    "length (holders lock') = length (holders lock)"
    "mset (somes (holders lock')) = add_mset t (mset (somes (holders lock)))"
proof -
  have "None \<in> set (holders lock)" using assms by (simp add: length_somes)
  then obtain h where h: "find_holder lock None = Some h" by (simp add: find_holder_def)
  from find_holder_Some [OF h] show ?thesis
    by (intro that [of "lock\<lparr>holders := (holders lock)[h := Some t]\<rparr>"])
      (simp_all add: add_holder_def h somes_mset)
qed

lemma del_holder_ok:
  assumes "Some t \<in> set (holders lock)"
  obtains lock' where "del_holder lock t = Some lock'" "count lock' = count lock" "waiters lock' = waiters lock"
    "length (holders lock') = length (holders lock)"
    "mset (somes (holders lock)) = add_mset t (mset (somes (holders lock')))"
proof -
  obtain h where h: "find_holder lock (Some t) = Some h" using assms by (simp add: find_holder_def)
  from find_holder_Some [OF h] show ?thesis
    by (intro that [of "lock\<lparr>holders := (holders lock)[h := None]\<rparr>"])
      (simp_all add: del_holder_def h somes_mset)
qed

lemma wake_loop_ok:
  assumes "bl_core lock" "waiters lock = ws" "0 \<le> count lock"
  shows "\<exists>lock'. wake_loop ws lock = Some lock' \<and> bl_inv lock'"
  using assms
proof (induction ws arbitrary: lock)
  case Nil
  then show ?case by (simp add: bl_inv_def no_lost_wakeup_def)
next
  case (Cons w ws)
  have len: "length (holders lock) = MAX_HOLDERS" and c: "count lock = int (length (somes (holders lock)))"
    using Cons.prems by (auto simp: bl_core_def)
  consider "count lock \<ge> int MAX_HOLDERS" | "count lock < int MAX_HOLDERS" "wants_write w" "count lock > 0"
    | "count lock < int MAX_HOLDERS" "wants_write w" "count lock = 0"
    | "count lock < int MAX_HOLDERS" "\<not> wants_write w"
    using Cons.prems(3) by linarith
  then show ?case
  proof cases
    case 3
    let ?l = "lock\<lparr>count := - 1, waiters := ws\<rparr>"
    from 3 c len have "length (somes (holders ?l)) < length (holders ?l)" by simp
    from add_holder_ok [OF this, of "w_task w"] obtain l where l: "add_holder ?l (w_task w) = Some l"
      "count l = - 1" "waiters l = ws" "length (holders l) = MAX_HOLDERS"
      "mset (somes (holders l)) = add_mset (w_task w) (mset (somes (holders lock)))" by (auto simp: len)
    moreover have "bl_inv l"
      using mset_facts [OF l(5)] Cons.prems 3 c l
      by (auto simp: bl_inv_def bl_core_def no_lost_wakeup_def)
    ultimately show ?thesis using 3 by (auto simp: MAX_HOLDERS_def)
  next
    case 4
    let ?l = "lock\<lparr>count := count lock + 1, waiters := ws\<rparr>"
    from 4 c len have "length (somes (holders ?l)) < length (holders ?l)" by simp
    from add_holder_ok [OF this, of "w_task w"] obtain l where l: "add_holder ?l (w_task w) = Some l"
      "count l = count lock + 1" "waiters l = ws" "length (holders l) = MAX_HOLDERS"
      "mset (somes (holders l)) = add_mset (w_task w) (mset (somes (holders lock)))" by (auto simp: len)
    have "bl_core l" using mset_facts [OF l(5)] Cons.prems c l by (auto simp: bl_core_def)
    from Cons.IH [OF this l(3)] l Cons.prems(3) obtain l' where "wake_loop ws l = Some l'" "bl_inv l'" by auto
    with 4 l show ?thesis by auto
  qed (use Cons.prems in \<open>auto simp: bl_inv_def no_lost_wakeup_def\<close>)
qed

lemma release_ok:
  assumes "bl_core lock" "Some t \<in> set (holders lock)" "del_holder lock t = Some l"
    "l' = l\<lparr>count := (if count lock < 0 then 0 else count lock - 1)\<rparr>"
  shows "\<exists>lock'. (if waiters l' \<noteq> [] then wake_many l' else Some l') = Some lock' \<and> bl_inv lock'"
proof -
  from del_holder_ok [OF assms(2)] assms(3) have l: "count l = count lock" "waiters l = waiters lock"
    "length (holders l) = length (holders lock)"
    "mset (somes (holders lock)) = add_mset t (mset (somes (holders l)))" by auto
  have core: "bl_core l'" and pos: "0 \<le> count l'"
    using mset_facts [OF l(4)] assms(1,4) l by (auto simp: bl_core_def split: if_splits)
  from wake_loop_ok [OF core refl pos] pos core show ?thesis
    by (auto simp: wake_many_def bl_inv_def no_lost_wakeup_def)
qed

lemma acquire_ok:
  assumes "bl_core lock" "waiters lock = []" "0 \<le> count lock" "count lock < int MAX_HOLDERS"
    "Some t \<notin> set (holders lock)" "c = count lock + 1 \<or> c = - 1 \<and> count lock = 0"
  shows "\<exists>l. add_holder (lock\<lparr>count := c\<rparr>) t = Some l \<and> bl_inv l"
proof -
  have len: "length (holders lock) = MAX_HOLDERS" and cnt: "count lock = int (length (somes (holders lock)))"
    using assms by (auto simp: bl_core_def)
  with assms(4) have "length (somes (holders (lock\<lparr>count := c\<rparr>))) < length (holders (lock\<lparr>count := c\<rparr>))" by simp
  from add_holder_ok [OF this, of t] obtain l where l: "add_holder (lock\<lparr>count := c\<rparr>) t = Some l"
    "count l = c" "waiters l = []" "length (holders l) = MAX_HOLDERS"
    "mset (somes (holders l)) = add_mset t (mset (somes (holders lock)))" using assms(2) by (auto simp: len)
  have "t \<notin> set (somes (holders lock))" using assms(5) by (simp add: set_somes)
  then have "bl_inv l"
    using mset_facts [OF l(5)] assms(1,6) cnt l by (auto simp: bl_inv_def bl_core_def no_lost_wakeup_def)
  with l show ?thesis by blast
qed

lemma queue_ok:
  assumes "bl_inv lock" "Some t \<notin> set (holders lock)" "\<not> is_waiting lock t"
  shows "\<not> available_for_read lock \<Longrightarrow>
      bl_inv (lock\<lparr>waiters := waiters lock @ [\<lparr>w_task = t, wants_write = False\<rparr>]\<rparr>)"
    and "\<not> (count lock = 0 \<and> waiters lock = []) \<Longrightarrow>
      bl_inv (lock\<lparr>waiters := \<lparr>w_task = t, wants_write = True\<rparr> # waiters lock\<rparr>)"
proof -
  have t: "t \<notin> set (somes (holders lock))" "t \<notin> w_task ` set (waiters lock)"
    using assms by (simp_all add: set_somes is_waiting_def)
  show "\<not> available_for_read lock \<Longrightarrow>
      bl_inv (lock\<lparr>waiters := waiters lock @ [\<lparr>w_task = t, wants_write = False\<rparr>]\<rparr>)"
    using assms(1) t
    by (cases "waiters lock") (auto simp: bl_inv_def bl_core_def no_lost_wakeup_def available_for_read_def)
  show "\<not> (count lock = 0 \<and> waiters lock = []) \<Longrightarrow>
      bl_inv (lock\<lparr>waiters := \<lparr>w_task = t, wants_write = True\<rparr> # waiters lock\<rparr>)"
    using assms(1) t
    by (cases "waiters lock") (auto simp: bl_inv_def bl_core_def no_lost_wakeup_def MAX_HOLDERS_def)
qed

lemma down_ok:
  assumes inv: "bl_inv lock" and w: "\<not> is_waiting lock t"
  shows "\<exists>r l. bl_down_read lock t = Some (r, l) \<and> bl_inv l"
    and "\<exists>r l. bl_down_read_nonblock lock t = Some (r, l) \<and> bl_inv l"
    and "\<exists>r l. bl_down_write lock t = Some (r, l) \<and> bl_inv l"
proof -
  have core: "bl_core lock" using inv by (simp add: bl_inv_def)
  have rd: "\<exists>l. add_holder (lock\<lparr>count := count lock + 1\<rparr>) t = Some l \<and> bl_inv l"
    if "available_for_read lock" "Some t \<notin> set (holders lock)"
    using that acquire_ok [OF core, of t "count lock + 1"] by (simp add: available_for_read_def)
  have wr: "\<exists>l. add_holder (lock\<lparr>count := - 1\<rparr>) t = Some l \<and> bl_inv l"
    if "count lock = 0" "waiters lock = []" "Some t \<notin> set (holders lock)"
    using that acquire_ok [OF core, of t "- 1"] by (simp add: MAX_HOLDERS_def)
  note q = queue_ok [OF inv _ w]
  show "\<exists>r l. bl_down_read lock t = Some (r, l) \<and> bl_inv l"
    using rd q(1) inv
    by (cases "Some t \<in> set (holders lock)"; cases "available_for_read lock")
      (auto simp: bl_down_read_def check_holder_def)
  show "\<exists>r l. bl_down_read_nonblock lock t = Some (r, l) \<and> bl_inv l"
    using rd inv
    by (cases "Some t \<in> set (holders lock)"; cases "available_for_read lock")
      (auto simp: bl_down_read_nonblock_def check_holder_def)
  show "\<exists>r l. bl_down_write lock t = Some (r, l) \<and> bl_inv l"
    using wr q(2) inv by (auto simp: bl_down_write_def check_holder_def)
qed

lemma up_ok:
  assumes inv: "bl_inv lock"
  shows "holds_read lock t \<Longrightarrow> \<exists>l. bl_up_read lock t = Some l \<and> bl_inv l"
    and "holds_write lock t \<Longrightarrow> \<exists>l. bl_up_write lock t = Some l \<and> bl_inv l"
proof -
  have core: "bl_core lock" using inv by (simp add: bl_inv_def)
  show "\<exists>l. bl_up_read lock t = Some l \<and> bl_inv l" if h: "holds_read lock t"
  proof -
    have t: "Some t \<in> set (holders lock)" and c: "\<not> count lock \<le> 0" using h by (auto simp: holds_read_def)
    obtain l where l: "del_holder lock t = Some l" "count l = count lock" using del_holder_ok [OF t] by metis
    have e: "(if count lock < 0 then 0 else count lock - 1) = count l - 1" using c l by simp
    show ?thesis
      using release_ok [OF core t l(1) refl, unfolded e] c l by (simp add: bl_up_read_def Let_def split: if_splits)
  qed
  show "\<exists>l. bl_up_write lock t = Some l \<and> bl_inv l" if h: "holds_write lock t"
  proof -
    have t: "Some t \<in> set (holders lock)" and c: "count lock < 0" using h by (auto simp: holds_write_def)
    obtain l where l: "del_holder lock t = Some l" using del_holder_ok [OF t] by metis
    have e: "(if count lock < 0 then 0 else count lock - 1) = 0" using c by simp
    show ?thesis
      using release_ok [OF core t l(1) refl, unfolded e] l by (simp add: bl_up_write_def Let_def split: if_splits)
  qed
qed

lemma bl_step_inv: "bl_step lock lock' \<Longrightarrow> bl_inv lock \<Longrightarrow> \<exists>l. lock' = Some l \<and> bl_inv l"
proof (induction rule: bl_step.induct)
  case (down_read lock t)
  then show ?case using down_ok(1) by force
next
  case (down_read_nonblock lock t)
  then show ?case using down_ok(2) by force
next
  case (down_write lock t)
  then show ?case using down_ok(3) by force
qed (simp_all add: up_ok)

lemma bl_reachable_inv: "bl_reachable s \<Longrightarrow> \<exists>lock. s = Some lock \<and> bl_inv lock"
proof (induction rule: bl_reachable.induct)
  case init
  then show ?case by (simp add: bl_inv_def bl_core_def no_lost_wakeup_def bl_init_def somes_def)
next
  case (step lock lock')
  then show ?case using bl_step_inv by blast
qed

section \<open>Properties\<close>

text \<open>C13. The block lock is safe under every interleaving of its tasks: no BUG_ON is hit, a
  writer holds the lock alone, at most four tasks hold it, no task holds it twice, and no
  wake-up is lost: when the lock is free nobody waits, and a waiting queue on a lock that is
  neither write-locked nor full is headed by a writer that waits for the readers.\<close>

theorem block_lock_safe:
  assumes "bl_reachable s"
  shows "\<exists>lock. s = Some lock \<and>
    (\<forall>t u. holds_write lock t \<longrightarrow> (Some u \<in> set (holders lock) \<longleftrightarrow> u = t)) \<and>
    length (somes (holders lock)) \<le> MAX_HOLDERS \<and> distinct (somes (holders lock)) \<and>
    (count lock = 0 \<longrightarrow> waiters lock = []) \<and> no_lost_wakeup lock"
proof -
  obtain lock where l: "s = Some lock" "bl_inv lock" using bl_reachable_inv [OF assms] by blast
  then have core: "bl_core lock" and w: "no_lost_wakeup lock" by (simp_all add: bl_inv_def)
  have "Some u \<in> set (holders lock) \<longleftrightarrow> u = t" if "holds_write lock t" for t u
  proof -
    have "count lock < 0" "t \<in> set (somes (holders lock))"
      using that by (simp_all add: holds_write_def set_somes)
    with core have "somes (holders lock) = [t]" by (auto simp: bl_core_def length_Suc_conv)
    then show ?thesis by (auto simp flip: set_somes)
  qed
  moreover have "length (somes (holders lock)) \<le> MAX_HOLDERS"
    using core length_filter_le [of _ "holders lock"] by (simp add: bl_core_def somes_def)
  ultimately show ?thesis
    using l core w by (auto simp: bl_core_def no_lost_wakeup_def MAX_HOLDERS_def)
qed

theorem block_lock_safe_witness:
  "\<exists>lock. map_option snd (bl_down_write bl_init 7) = Some lock \<and> holders lock = [Some 7, None, None, None] \<and>
     no_lost_wakeup lock"
proof -
  have "\<not> is_waiting bl_init 7" by (simp add: is_waiting_def bl_init_def)
  then have "bl_reachable (map_option snd (bl_down_write bl_init 7))"
    by (intro bl_reachable.step [OF bl_reachable.init] bl_step.down_write)
  moreover have "map_option (holders \<circ> snd) (bl_down_write bl_init 7) = Some [Some 7, None, None, None]"
    by (simp add: bl_down_write_def check_holder_def bl_init_def MAX_HOLDERS_def add_holder_def
        find_holder_def eval_nat_numeral)
  ultimately show ?thesis using block_lock_safe by fastforce
qed

end
