(* ===== verification/Block_Manager.thy ===== *)
theory Block_Manager
  imports Kernel_Lib
begin

unbundle bit_operations_syntax

text \<open>
  The block manager \<open>persistent-data/dm-block-manager.c\<close>, compiled without the debugging
  locks (the \<open>bl_*\<close> operations are the no-ops of the \<open>#else\<close> branch; the locks themselves
  are in \<open>Block_Lock\<close>). The buffer cache below it is the current content of every
  block, the content on the device, and the set of dirty blocks. \<open>bm_fault\<close> says which blocks
  the device fails to read, and with which error; write errors of the device are not modelled.
\<close>

section \<open>State\<close>

text \<open>A validator is identified by its name where the code compares pointers.\<close>

record block_validator =
  v_name :: string
  v_prepare :: "nat \<Rightarrow> byte list \<Rightarrow> byte list"
  v_check :: "nat \<Rightarrow> byte list \<Rightarrow> errno option"

record block_manager =
  bm_block_size :: nat
  bm_nr_blocks :: nat
  bm_read_only :: bool
  bm_buf :: "nat \<Rightarrow> byte list"
  bm_disk :: "nat \<Rightarrow> byte list"
  bm_dirty :: "nat set"
  bm_fault :: "nat \<Rightarrow> errno option"
  bm_validator :: "nat \<Rightarrow> block_validator option"
  bm_write_locked :: "nat \<Rightarrow> bool"

section \<open>Operations\<close>

definition dm_block_manager_create ::
  "bool \<Rightarrow> nat \<Rightarrow> nat \<Rightarrow> (nat \<Rightarrow> byte list) \<Rightarrow> (nat \<Rightarrow> errno option) \<Rightarrow> block_manager result" where
  "dm_block_manager_create ok block_size nr_blocks bdev fault =
     (if \<not> ok then Inl ENOMEM
      else Inr \<lparr>bm_block_size = block_size, bm_nr_blocks = nr_blocks, bm_read_only = False,
                bm_buf = bdev, bm_disk = bdev, bm_dirty = {}, bm_fault = fault,
                bm_validator = (\<lambda>_. None), bm_write_locked = (\<lambda>_. False)\<rparr>)"

definition dm_bm_block_size :: "block_manager \<Rightarrow> nat" where
  "dm_bm_block_size bm = bm_block_size bm"

definition dm_bm_nr_blocks :: "block_manager \<Rightarrow> nat" where
  "dm_bm_nr_blocks bm = bm_nr_blocks bm"

definition dm_block_data :: "block_manager \<Rightarrow> nat \<Rightarrow> byte list" where
  "dm_block_data bm b = bm_buf bm b"

text \<open>Writing bytes through the pointer that \<open>dm_block_data\<close> returns.\<close>

definition dm_block_write :: "block_manager \<Rightarrow> nat \<Rightarrow> nat \<Rightarrow> byte list \<Rightarrow> block_manager" where
  "dm_block_write bm b off bs = bm\<lparr>bm_buf := (bm_buf bm)(b := overwrite off bs (bm_buf bm b))\<rparr>"

definition dm_block_manager_write_callback :: "block_manager \<Rightarrow> nat \<Rightarrow> byte list" where
  "dm_block_manager_write_callback bm b =
     (case bm_validator bm b of None \<Rightarrow> bm_buf bm b | Some v \<Rightarrow> v_prepare v b (bm_buf bm b))"

definition dm_bm_validate_buffer ::
  "block_manager \<Rightarrow> nat \<Rightarrow> block_validator option \<Rightarrow> unit result \<times> block_manager" where
  "dm_bm_validate_buffer bm b v =
     (case bm_validator bm b of
        None \<Rightarrow>
          (case v of
             None \<Rightarrow> (Inr (), bm)
           | Some v' \<Rightarrow>
               (case v_check v' b (bm_buf bm b) of
                  Some r \<Rightarrow> (Inl r, bm)
                | None \<Rightarrow> (Inr (), bm\<lparr>bm_validator := (bm_validator bm)(b \<mapsto> v')\<rparr>)))
      | Some aux \<Rightarrow>
          if map_option v_name v \<noteq> Some (v_name aux) then (Inl EINVAL, bm) else (Inr (), bm))"

definition dm_bm_is_read_only :: "block_manager option \<Rightarrow> bool" where
  "dm_bm_is_read_only bm = (case bm of None \<Rightarrow> True | Some m \<Rightarrow> bm_read_only m)"

definition dm_bm_set_read_only :: "block_manager option \<Rightarrow> block_manager option" where
  "dm_bm_set_read_only bm = map_option (\<lambda>m. m\<lparr>bm_read_only := True\<rparr>) bm"

definition dm_bm_set_read_write :: "block_manager option \<Rightarrow> block_manager option" where
  "dm_bm_set_read_write bm = map_option (\<lambda>m. m\<lparr>bm_read_only := False\<rparr>) bm"

definition dm_bm_read_lock ::
  "block_manager \<Rightarrow> nat \<Rightarrow> block_validator option \<Rightarrow> unit result \<times> block_manager" where
  "dm_bm_read_lock bm b v =
     (case bm_fault bm b of
        Some r \<Rightarrow> (Inl r, bm)
      | None \<Rightarrow> dm_bm_validate_buffer (bm\<lparr>bm_write_locked := (bm_write_locked bm)(b := False)\<rparr>) b v)"

definition dm_bm_write_lock ::
  "block_manager \<Rightarrow> nat \<Rightarrow> block_validator option \<Rightarrow> unit result \<times> block_manager" where
  "dm_bm_write_lock bm b v =
     (if dm_bm_is_read_only (Some bm) then (Inl EPERM, bm)
      else case bm_fault bm b of
        Some r \<Rightarrow> (Inl r, bm)
      | None \<Rightarrow> dm_bm_validate_buffer (bm\<lparr>bm_write_locked := (bm_write_locked bm)(b := True)\<rparr>) b v)"

text \<open>\<open>cached\<close>: whether the buffer cache holds the block at that moment.\<close>

definition dm_bm_read_try_lock ::
  "bool \<Rightarrow> block_manager \<Rightarrow> nat \<Rightarrow> block_validator option \<Rightarrow> unit result \<times> block_manager" where
  "dm_bm_read_try_lock cached bm b v =
     (case bm_fault bm b of
        Some r \<Rightarrow> (Inl r, bm)
      | None \<Rightarrow>
          if \<not> cached then (Inl EWOULDBLOCK, bm)
          else dm_bm_validate_buffer (bm\<lparr>bm_write_locked := (bm_write_locked bm)(b := False)\<rparr>) b v)"

definition dm_bm_write_lock_zero ::
  "block_manager \<Rightarrow> nat \<Rightarrow> block_validator option \<Rightarrow> unit result \<times> block_manager" where
  "dm_bm_write_lock_zero bm b v =
     (if dm_bm_is_read_only (Some bm) then (Inl EPERM, bm)
      else (Inr (), bm\<lparr>bm_buf := (bm_buf bm)(b := replicate (dm_bm_block_size bm) 0),
                      bm_write_locked := (bm_write_locked bm)(b := True),
                      bm_validator := (bm_validator bm)(b := v)\<rparr>))"

definition dm_bm_unlock :: "block_manager \<Rightarrow> nat \<Rightarrow> block_manager" where
  "dm_bm_unlock bm b = (if bm_write_locked bm b then bm\<lparr>bm_dirty := insert b (bm_dirty bm)\<rparr> else bm)"

definition dm_bm_flush :: "block_manager \<Rightarrow> unit result \<times> block_manager" where
  "dm_bm_flush bm =
     (if dm_bm_is_read_only (Some bm) then (Inl EPERM, bm)
      else let bufs = (\<lambda>b. if b \<in> bm_dirty bm then dm_block_manager_write_callback bm b else bm_buf bm b)
           in (Inr (), bm\<lparr>bm_buf := bufs,
                          bm_disk := (\<lambda>b. if b \<in> bm_dirty bm then bufs b else bm_disk bm b),
                          bm_dirty := {}\<rparr>))"

text \<open>CRC-32C, bit by bit, least significant bit first.\<close>

definition crc32c_bit :: "u32 \<Rightarrow> u32" where
  "crc32c_bit c = (if bit c 0 then drop_bit 1 c XOR 0x82F63B78 else drop_bit 1 c)"

definition crc32c :: "u32 \<Rightarrow> byte list \<Rightarrow> u32" where
  "crc32c crc data = foldl (\<lambda>c b. (crc32c_bit ^^ 8) (c XOR ucast b)) crc data"

definition dm_bm_checksum :: "byte list \<Rightarrow> u32 \<Rightarrow> u32" where
  "dm_bm_checksum data init_xor = crc32c (NOT 0) data XOR init_xor"

section \<open>Invariant\<close>

text \<open>A clean block is the block on the device.\<close>

definition bm_clean :: "block_manager \<Rightarrow> bool" where
  "bm_clean bm \<longleftrightarrow> (\<forall>b. b \<notin> bm_dirty bm \<longrightarrow> bm_buf bm b = bm_disk bm b)"

text \<open>A healthy manager: every block has the block size, the manager is writable, the device
  readable, and no validator is installed, as when every client passes \<open>NULL\<close>.\<close>

definition bm_ok :: "block_manager \<Rightarrow> bool" where
  "bm_ok bm \<longleftrightarrow> (\<forall>b. length (bm_buf bm b) = bm_block_size bm) \<and> \<not> bm_read_only bm \<and>
     (\<forall>b. bm_fault bm b = None) \<and> (\<forall>b. bm_validator bm b = None)"

text \<open>The clients' pattern: lock a block for writing, change bytes of it, unlock.\<close>

definition bm_store :: "block_manager \<Rightarrow> nat \<Rightarrow> nat \<Rightarrow> byte list \<Rightarrow> block_manager" where
  "bm_store bm b off bs = bm\<lparr>bm_buf := (bm_buf bm)(b := overwrite off bs (bm_buf bm b)),
     bm_write_locked := (bm_write_locked bm)(b := True), bm_dirty := insert b (bm_dirty bm)\<rparr>"

lemma write_lock_ok:
  "bm_ok bm \<Longrightarrow> dm_bm_write_lock bm b None = (Inr (), bm\<lparr>bm_write_locked := (bm_write_locked bm)(b := True)\<rparr>)"
  by (simp add: dm_bm_write_lock_def dm_bm_validate_buffer_def dm_bm_is_read_only_def bm_ok_def)

lemma read_lock_ok:
  "bm_ok bm \<Longrightarrow> dm_bm_read_lock bm b None = (Inr (), bm\<lparr>bm_write_locked := (bm_write_locked bm)(b := False)\<rparr>)"
  by (simp add: dm_bm_read_lock_def dm_bm_validate_buffer_def bm_ok_def)

text \<open>Reading and unlocking a block leaves everything but the lock mode as it was, so the
  readers of the disk structures return only the value.\<close>

lemma read_unlock_same:
  "dm_bm_read_lock bm b None = (Inr (), bm') \<Longrightarrow> \<exists>wl. dm_bm_unlock bm' b = bm\<lparr>bm_write_locked := wl\<rparr>"
  by (auto simp: dm_bm_read_lock_def dm_bm_validate_buffer_def dm_bm_unlock_def
      split: option.splits if_splits intro!: exI)

lemma write_unlock_store:
  "bm_ok bm \<Longrightarrow> dm_bm_unlock (dm_block_write (bm\<lparr>bm_write_locked := (bm_write_locked bm)(b := True)\<rparr>) b off bs) b
    = bm_store bm b off bs"
  by (simp add: dm_bm_unlock_def dm_block_write_def bm_store_def)

lemma bm_store_simps [simp]:
  "bm_buf (bm_store bm b off bs) = (bm_buf bm)(b := overwrite off bs (bm_buf bm b))"
  "bm_block_size (bm_store bm b off bs) = bm_block_size bm"
  "bm_read_only (bm_store bm b off bs) = bm_read_only bm"
  "bm_fault (bm_store bm b off bs) = bm_fault bm"
  "bm_validator (bm_store bm b off bs) = bm_validator bm"
  "bm_disk (bm_store bm b off bs) = bm_disk bm"
  "bm_dirty (bm_store bm b off bs) = insert b (bm_dirty bm)"
  by (simp_all add: bm_store_def)

lemma bm_store_ok:
  "bm_ok bm \<Longrightarrow> off + length bs \<le> bm_block_size bm \<Longrightarrow> bm_ok (bm_store bm b off bs)"
  by (auto simp: bm_ok_def length_overwrite)

lemma bm_ok_length [simp]: "bm_ok bm \<Longrightarrow> length (bm_buf bm b) = bm_block_size bm"
  by (simp add: bm_ok_def)

section \<open>Durability\<close>

text \<open>The clients of the manager: each locks a block, works on it and unlocks it.\<close>

datatype bm_op =
  BmWrite nat nat "byte list" "block_validator option"
| BmZero nat "block_validator option"
| BmRead nat "block_validator option"
| BmFlush
| BmReadOnly
| BmReadWrite

fun bm_step :: "bm_op \<Rightarrow> block_manager \<Rightarrow> block_manager" where
  "bm_step (BmWrite b off bs v) bm =
     (case dm_bm_write_lock bm b v of
        (Inl r, bm') \<Rightarrow> bm'
      | (Inr _, bm') \<Rightarrow> dm_bm_unlock (dm_block_write bm' b off bs) b)"
| "bm_step (BmZero b v) bm =
     (case dm_bm_write_lock_zero bm b v of (Inl r, bm') \<Rightarrow> bm' | (Inr _, bm') \<Rightarrow> dm_bm_unlock bm' b)"
| "bm_step (BmRead b v) bm =
     (case dm_bm_read_lock bm b v of (Inl r, bm') \<Rightarrow> bm' | (Inr _, bm') \<Rightarrow> dm_bm_unlock bm' b)"
| "bm_step BmFlush bm = snd (dm_bm_flush bm)"
| "bm_step BmReadOnly bm = the (dm_bm_set_read_only (Some bm))"
| "bm_step BmReadWrite bm = the (dm_bm_set_read_write (Some bm))"

lemmas bm_op_defs = dm_bm_write_lock_def dm_bm_read_lock_def dm_bm_write_lock_zero_def
  dm_bm_validate_buffer_def dm_bm_unlock_def dm_block_write_def dm_bm_is_read_only_def
  dm_bm_set_read_only_def dm_bm_set_read_write_def

lemma bm_step_clean: "bm_clean bm \<Longrightarrow> bm_clean (bm_step op bm)"
  by (cases op) (auto simp: bm_op_defs bm_clean_def dm_bm_flush_def Let_def
      split: prod.splits sum.splits option.splits if_splits)

lemma bm_run_clean: "bm_clean bm \<Longrightarrow> bm_clean (fold bm_step ops bm)"
  by (induction ops arbitrary: bm) (simp_all add: bm_step_clean)

lemma bm_step_read_only:
  "bm_read_only bm \<Longrightarrow> op \<noteq> BmReadWrite \<Longrightarrow>
   bm_read_only (bm_step op bm) \<and> bm_buf (bm_step op bm) = bm_buf bm \<and> bm_disk (bm_step op bm) = bm_disk bm"
  by (cases op) (auto simp: bm_op_defs dm_bm_flush_def split: prod.splits sum.splits option.splits if_splits)

text \<open>C14. Flushing is durable: after any sequence of reads, writes, zeroed writes, flushes and
  mode changes on a fresh manager, a successful flush leaves no dirty block and the device
  holds the content of every buffer, as the write callback prepared it.\<close>

theorem bm_flush_durable:
  assumes "dm_block_manager_create ok bs nr bdev fault = Inr bm0"
    and "bm = fold bm_step ops bm0" and "dm_bm_flush bm = (Inr (), bm')"
  shows "bm_dirty bm' = {} \<and> bm_disk bm' = bm_buf bm' \<and>
    bm_buf bm' b = (if b \<in> bm_dirty bm then dm_block_manager_write_callback bm b else bm_buf bm b)"
proof -
  have "bm_clean bm0"
    using assms(1) by (auto simp: dm_block_manager_create_def bm_clean_def split: if_splits)
  then have "bm_clean bm" by (simp add: assms(2) bm_run_clean)
  with assms(3) show ?thesis
    by (auto simp: dm_bm_flush_def Let_def bm_clean_def fun_eq_iff split: if_splits)
qed

theorem bm_flush_durable_witness:
  "bm_disk (snd (dm_bm_flush (fold bm_step [BmWrite 3 1 [7] None]
      (projr (dm_block_manager_create True 4 10 (\<lambda>_. [0, 0, 0, 0]) (\<lambda>_. None)))))) 3 = [0, 7, 0, 0]"
proof -
  let ?fresh = "projr (dm_block_manager_create True 4 10 (\<lambda>_. [0, 0, 0, 0]) (\<lambda>_. None))"
  let ?bm = "fold bm_step [BmWrite 3 1 [7] None] ?fresh"
  have c: "dm_block_manager_create True 4 10 (\<lambda>_. [0, 0, 0, 0]) (\<lambda>_. None) = Inr ?fresh"
    by (simp add: dm_block_manager_create_def)
  have f: "dm_bm_flush ?bm = (Inr (), snd (dm_bm_flush ?bm))"
    by (simp add: dm_block_manager_create_def bm_op_defs dm_bm_flush_def Let_def)
  have "bm_buf (snd (dm_bm_flush ?bm)) 3 = [0, 7, 0, 0]"
    by (simp add: dm_block_manager_create_def bm_op_defs dm_bm_flush_def Let_def
        dm_block_manager_write_callback_def overwrite_def)
  then show ?thesis using bm_flush_durable [OF c, of ?bm "[BmWrite 3 1 [7] None]", OF refl f, of 3] by simp
qed



end
