(* ===== verification/Disk_Structs.thy ===== *)
theory Disk_Structs
  imports Block_Manager
begin

text \<open>
  The persistent arrays and bit sets of \<open>disk_structs.c\<close>, over the block manager, and the
  contract they promise their clients (the tables of the checkpoint region and the
  catalogue). A reader returns only the value, since its unlock restores the manager.
\<close>

section \<open>Disk arrays\<close>

definition SWORNDISK_METADATA_BLOCK_SIZE :: nat where "SWORNDISK_METADATA_BLOCK_SIZE = 4096"
definition BITS_PER_LONG :: nat where "BITS_PER_LONG = 64"

definition disk_array_blocks :: "nat \<Rightarrow> nat \<Rightarrow> nat \<Rightarrow> nat" where
  "disk_array_blocks nr_elem elem_size block_size =
     (if elem_size = 0 then 0 else nr_elem div (block_size div elem_size) + 1)"

record disk_array =
  da_start :: nat
  da_nr_entry :: nat
  da_entry_size :: nat
  da_entries_per_block :: nat

definition disk_array_entry_block :: "disk_array \<Rightarrow> nat \<Rightarrow> nat" where
  "disk_array_entry_block this index = da_start this + index div da_entries_per_block this"

definition disk_array_entry_offset :: "disk_array \<Rightarrow> nat \<Rightarrow> nat" where
  "disk_array_entry_offset this index = (index mod da_entries_per_block this) * da_entry_size this"

definition disk_array_set :: "disk_array \<Rightarrow> block_manager \<Rightarrow> nat \<Rightarrow> byte list \<Rightarrow> unit result \<times> block_manager" where
  "disk_array_set this bm index entry =
     (if index \<ge> da_nr_entry this then (Inl EINVAL, bm)
      else let b = disk_array_entry_block this index
           in case dm_bm_write_lock bm b None of
                (Inl r, bm') \<Rightarrow> (Inl r, bm')
              | (Inr _, bm') \<Rightarrow>
                  (Inr (), dm_bm_unlock (dm_block_write bm' b (disk_array_entry_offset this index)
                                           (take (da_entry_size this) entry)) b))"

definition disk_array_get :: "disk_array \<Rightarrow> block_manager \<Rightarrow> nat \<Rightarrow> byte list result" where
  "disk_array_get this bm index =
     (if index \<ge> da_nr_entry this then Inl EINVAL
      else let b = disk_array_entry_block this index
           in case dm_bm_read_lock bm b None of
                (Inl r, bm') \<Rightarrow> Inl EINVAL
              | (Inr _, bm') \<Rightarrow>
                  Inr (slice (disk_array_entry_offset this index) (da_entry_size this) (dm_block_data bm' b)))"

function disk_array_format_loop ::
  "disk_array \<Rightarrow> bool \<Rightarrow> nat \<Rightarrow> nat \<Rightarrow> block_manager \<Rightarrow> unit result \<times> block_manager" where
  "disk_array_format_loop this val remaining shift bm =
     (if remaining > 0 then
        (case dm_bm_write_lock bm (da_start this + shift) None of
           (Inl r, bm') \<Rightarrow> (Inl r, bm')
         | (Inr _, bm') \<Rightarrow>
             let cycle = (if remaining < SWORNDISK_METADATA_BLOCK_SIZE then remaining else SWORNDISK_METADATA_BLOCK_SIZE);
                 bm'' = dm_bm_unlock (dm_block_write bm' (da_start this + shift) 0
                                        (replicate cycle (if val then 0xff else 0))) (da_start this + shift)
             in disk_array_format_loop this val (remaining - cycle) (shift + 1) bm'')
      else (Inr (), bm))"
  by pat_completeness auto
termination
  by (relation "measure (\<lambda>(_, _, remaining, _, _). remaining)")
    (auto simp: SWORNDISK_METADATA_BLOCK_SIZE_def)

declare disk_array_format_loop.simps [simp del]

definition disk_array_format :: "disk_array \<Rightarrow> bool \<Rightarrow> block_manager \<Rightarrow> unit result \<times> block_manager" where
  "disk_array_format this val bm =
     disk_array_format_loop this val
       (disk_array_blocks (da_nr_entry this) (da_entry_size this) SWORNDISK_METADATA_BLOCK_SIZE
          * SWORNDISK_METADATA_BLOCK_SIZE) 0 bm"

definition disk_array_init :: "nat \<Rightarrow> nat \<Rightarrow> nat \<Rightarrow> disk_array" where
  "disk_array_init start nr_entry entry_size =
     \<lparr>da_start = start, da_nr_entry = nr_entry, da_entry_size = entry_size,
      da_entries_per_block = SWORNDISK_METADATA_BLOCK_SIZE div entry_size\<rparr>"

definition disk_array_create :: "bool \<Rightarrow> nat \<Rightarrow> nat \<Rightarrow> nat \<Rightarrow> disk_array option" where
  "disk_array_create ok start nr_entry entry_size =
     (if \<not> ok then None else Some (disk_array_init start nr_entry entry_size))"

section \<open>Disk bit sets\<close>

record disk_bitset =
  db_nr_bit :: nat
  db_array :: disk_array

definition disk_bitset_group :: "nat \<Rightarrow> nat" where
  "disk_bitset_group index = index div BITS_PER_LONG"

definition disk_bitset_offset :: "nat \<Rightarrow> nat" where
  "disk_bitset_offset index = index mod BITS_PER_LONG"

definition disk_bitset_nr_group :: "nat \<Rightarrow> nat" where
  "disk_bitset_nr_group nr_bit = (if nr_bit \<noteq> 0 then (nr_bit - 1) div BITS_PER_LONG + 1 else 0)"

text \<open>An \<open>unsigned long\<close> of the array.\<close>

definition long_of :: "byte list \<Rightarrow> u64" where
  "long_of bs = of_nat (le_nat bs)"

definition of_long :: "u64 \<Rightarrow> byte list" where
  "of_long w = le_bytes 8 (unat w)"

definition disk_bitset_operate :: "disk_bitset \<Rightarrow> block_manager \<Rightarrow> nat \<Rightarrow> bool \<Rightarrow> unit result \<times> block_manager" where
  "disk_bitset_operate this bm index flag =
     (if index \<ge> db_nr_bit this then (Inl EINVAL, bm)
      else case disk_array_get (db_array this) bm (disk_bitset_group index) of
        Inl r \<Rightarrow> (Inl r, bm)
      | Inr bs \<Rightarrow>
          let grp = (if flag then set_bit else unset_bit) (disk_bitset_offset index) (long_of bs)
          in disk_array_set (db_array this) bm (disk_bitset_group index) (of_long grp))"

definition disk_bitset_set :: "disk_bitset \<Rightarrow> block_manager \<Rightarrow> nat \<Rightarrow> unit result \<times> block_manager" where
  "disk_bitset_set this bm index = disk_bitset_operate this bm index True"

definition disk_bitset_clear :: "disk_bitset \<Rightarrow> block_manager \<Rightarrow> nat \<Rightarrow> unit result \<times> block_manager" where
  "disk_bitset_clear this bm index = disk_bitset_operate this bm index False"

definition disk_bitset_get :: "disk_bitset \<Rightarrow> block_manager \<Rightarrow> nat \<Rightarrow> bool result" where
  "disk_bitset_get this bm index =
     (case disk_array_get (db_array this) bm (disk_bitset_group index) of
        Inl r \<Rightarrow> Inl r
      | Inr bs \<Rightarrow> Inr (bit (long_of bs) (disk_bitset_offset index)))"

definition disk_bitset_format :: "disk_bitset \<Rightarrow> bool \<Rightarrow> block_manager \<Rightarrow> unit result \<times> block_manager" where
  "disk_bitset_format this val bm = disk_array_format (db_array this) val bm"

definition disk_bitset_init :: "bool \<Rightarrow> nat \<Rightarrow> nat \<Rightarrow> disk_bitset result" where
  "disk_bitset_init ok start nr_bit =
     (case disk_array_create ok start (disk_bitset_nr_group nr_bit) 8 of
        None \<Rightarrow> Inl ENOMEM
      | Some a \<Rightarrow> Inr \<lparr>db_nr_bit = nr_bit, db_array = a\<rparr>)"

definition disk_bitset_create :: "bool \<Rightarrow> bool \<Rightarrow> nat \<Rightarrow> nat \<Rightarrow> disk_bitset option" where
  "disk_bitset_create ok ok_array start nr_bit =
     (if \<not> ok then None
      else case disk_bitset_init ok_array start nr_bit of Inl r \<Rightarrow> None | Inr this \<Rightarrow> Some this)"

section \<open>The contract of a persistent table\<close>

text \<open>A table of \<open>len\<close> cells in a state \<open>'s\<close>: what \<open>get\<close> returns after \<open>set\<close>, and errors out of
  range. \<open>cell\<close> decides which values a cell can hold.\<close>

definition table_contents :: "('s \<Rightarrow> nat \<Rightarrow> 'a result) \<Rightarrow> nat \<Rightarrow> 's \<Rightarrow> 'a list" where
  "table_contents get len s = map (\<lambda>i. projr (get s i)) [0..<len]"

locale persistent_table =
  fixes get :: "'s \<Rightarrow> nat \<Rightarrow> 'a result"
    and set :: "'s \<Rightarrow> nat \<Rightarrow> 'a \<Rightarrow> unit result \<times> 's"
    and len :: nat
    and cell :: "'a \<Rightarrow> bool"
    and invar :: "'s \<Rightarrow> bool"
  assumes get_cell: "invar s \<Longrightarrow> i < len \<Longrightarrow> \<exists>v. get s i = Inr v \<and> cell v"
    and set_cell: "invar s \<Longrightarrow> i < len \<Longrightarrow> cell v \<Longrightarrow>
      \<exists>s'. set s i v = (Inr (), s') \<and> invar s' \<and> (\<forall>j < len. get s' j = (if j = i then Inr v else get s j))"
begin

lemma get_contents: "invar s \<Longrightarrow> i < len \<Longrightarrow> get s i = Inr (table_contents get len s ! i)"
  using get_cell [of s i] by (auto simp: table_contents_def)

lemma set_contents:
  assumes "invar s" "i < len" "cell v" "set s i v = (r, s')"
  shows "r = Inr ()" "invar s'" "table_contents get len s' = (table_contents get len s)[i := v]"
proof -
  obtain s'' where s'': "set s i v = (Inr (), s'')" "invar s''"
    "\<forall>j < len. get s'' j = (if j = i then Inr v else get s j)"
    using set_cell [OF assms(1-3)] by blast
  with assms(4) show "r = Inr ()" "invar s'" by simp_all
  show "table_contents get len s' = (table_contents get len s)[i := v]"
    using assms(4) s'' by (intro nth_equalityI) (auto simp: table_contents_def nth_list_update)
qed

lemma sets_contents:
  assumes "invar s" "\<forall>(i, v) \<in> List.set kvs. i < len \<and> cell v"
  shows "invar (fold (\<lambda>(i, v) s. snd (set s i v)) kvs s) \<and>
    table_contents get len (fold (\<lambda>(i, v) s. snd (set s i v)) kvs s) = fold (\<lambda>(i, v) xs. xs[i := v]) kvs (table_contents get len s)"
  using assms
proof (induction kvs arbitrary: s)
  case (Cons kv kvs)
  obtain i v where kv: "kv = (i, v)" by (cases kv)
  have "set s i v = (fst (set s i v), snd (set s i v))" by simp
  from set_contents [OF Cons.prems(1) _ _ this] Cons kv show ?case by simp
qed simp

end

section \<open>Disk arrays keep the contract\<close>

definition da_ok :: "disk_array \<Rightarrow> bool" where
  "da_ok this \<longleftrightarrow> 0 < da_entry_size this \<and> da_entry_size this \<le> SWORNDISK_METADATA_BLOCK_SIZE \<and>
     da_entries_per_block this = SWORNDISK_METADATA_BLOCK_SIZE div da_entry_size this"

definition da_inv :: "disk_array \<Rightarrow> block_manager \<Rightarrow> bool" where
  "da_inv this bm \<longleftrightarrow> da_ok this \<and> bm_ok bm \<and> bm_block_size bm = SWORNDISK_METADATA_BLOCK_SIZE"

lemma da_epb_pos: "da_ok this \<Longrightarrow> 0 < da_entries_per_block this"
  by (simp add: da_ok_def div_greater_zero_iff)

lemma da_offset_bound:
  assumes "da_ok this"
  shows "disk_array_entry_offset this i + da_entry_size this \<le> SWORNDISK_METADATA_BLOCK_SIZE"
proof -
  let ?n = "da_entries_per_block this" and ?z = "da_entry_size this"
  have "Suc (i mod ?n) \<le> ?n" using da_epb_pos [OF assms] by (simp add: Suc_leI)
  then have "Suc (i mod ?n) * ?z \<le> ?n * ?z" by (rule mult_le_mono1)
  also have "\<dots> \<le> SWORNDISK_METADATA_BLOCK_SIZE" using assms by (simp add: da_ok_def)
  finally show ?thesis by (simp add: disk_array_entry_offset_def add.commute)
qed

lemma da_distinct_cells:
  assumes "da_ok this" "i \<noteq> j" "disk_array_entry_block this i = disk_array_entry_block this j"
  shows "disk_array_entry_offset this i + da_entry_size this \<le> disk_array_entry_offset this j \<or>
    disk_array_entry_offset this j + da_entry_size this \<le> disk_array_entry_offset this i"
proof -
  let ?n = "da_entries_per_block this" and ?z = "da_entry_size this"
  have "i div ?n = j div ?n" using assms(3) by (simp add: disk_array_entry_block_def)
  then have "i mod ?n \<noteq> j mod ?n" using assms(2) by (metis div_mult_mod_eq)
  then have "Suc (i mod ?n) \<le> j mod ?n \<or> Suc (j mod ?n) \<le> i mod ?n" by linarith
  then have "Suc (i mod ?n) * ?z \<le> (j mod ?n) * ?z \<or> Suc (j mod ?n) * ?z \<le> (i mod ?n) * ?z"
    using mult_le_mono1 by blast
  then show ?thesis by (simp add: disk_array_entry_offset_def add.commute)
qed

definition da_cell :: "disk_array \<Rightarrow> block_manager \<Rightarrow> nat \<Rightarrow> byte list" where
  "da_cell this bm i = slice (disk_array_entry_offset this i) (da_entry_size this) (bm_buf bm (disk_array_entry_block this i))"

lemma disk_array_get_ok:
  "bm_ok bm \<Longrightarrow> disk_array_get this bm i = (if i < da_nr_entry this then Inr (da_cell this bm i) else Inl EINVAL)"
  by (simp add: disk_array_get_def Let_def read_lock_ok dm_block_data_def da_cell_def)

lemma disk_array_set_ok:
  "bm_ok bm \<Longrightarrow> length e = da_entry_size this \<Longrightarrow> disk_array_set this bm i e =
    (if i < da_nr_entry this then (Inr (), bm_store bm (disk_array_entry_block this i) (disk_array_entry_offset this i) e)
     else (Inl EINVAL, bm))"
  by (simp add: disk_array_set_def Let_def write_lock_ok write_unlock_store)

lemma length_da_cell: "da_inv this bm \<Longrightarrow> length (da_cell this bm i) = da_entry_size this"
  using da_offset_bound [of this i] by (simp add: da_inv_def da_cell_def len_simps)

lemma da_store_inv:
  fixes i j :: nat
  assumes "da_inv this bm" "length e = da_entry_size this"
  defines "bm' \<equiv> bm_store bm (disk_array_entry_block this i) (disk_array_entry_offset this i) e"
  shows "da_inv this bm'" "da_cell this bm' j = (if j = i then e else da_cell this bm j)"
proof -
  have b: "disk_array_entry_offset this k + da_entry_size this \<le> bm_block_size bm" for k
    using da_offset_bound [of this k] assms(1) by (simp add: da_inv_def)
  show "da_inv this bm'" using assms b [of i] by (simp add: da_inv_def bm_store_ok)
  have ok: "bm_ok bm" "da_ok this" using assms(1) by (simp_all add: da_inv_def)
  show "da_cell this bm' j = (if j = i then e else da_cell this bm j)"
    using b [of i] b [of j] assms(2) ok da_distinct_cells [OF ok(2), of j i]
    by (auto simp: da_cell_def bm'_def buf_simps)
qed

interpretation da: persistent_table "disk_array_get this" "disk_array_set this" "da_nr_entry this"
  "\<lambda>e. length e = da_entry_size this" "da_inv this"
proof unfold_locales
  fix bm i assume "da_inv this bm" "i < da_nr_entry this"
  then show "\<exists>v. disk_array_get this bm i = Inr v \<and> length v = da_entry_size this"
    using length_da_cell [of this bm i] by (simp add: disk_array_get_ok da_inv_def)
next
  fix bm i and v :: "byte list"
  assume inv: "da_inv this bm" and i: "i < da_nr_entry this" and v: "length v = da_entry_size this"
  have ok: "bm_ok bm" using inv by (simp add: da_inv_def)
  note st = da_store_inv [OF inv v, of i]
  have "bm_ok (bm_store bm (disk_array_entry_block this i) (disk_array_entry_offset this i) v)"
    using st(1) by (simp add: da_inv_def)
  with ok i v st show "\<exists>s'. disk_array_set this bm i v = (Inr (), s') \<and> da_inv this s' \<and>
      (\<forall>j < da_nr_entry this. disk_array_get this s' j = (if j = i then Inr v else disk_array_get this bm j))"
    by (auto simp: disk_array_set_ok disk_array_get_ok)
qed

text \<open>A set touches only the blocks of the array.\<close>

definition da_region :: "disk_array \<Rightarrow> nat set" where
  "da_region this = {da_start this ..< da_start this +
     disk_array_blocks (da_nr_entry this) (da_entry_size this) SWORNDISK_METADATA_BLOCK_SIZE}"

lemma da_block_in_region:
  assumes "da_ok this" "i < da_nr_entry this"
  shows "disk_array_entry_block this i \<in> da_region this"
proof -
  have "i div da_entries_per_block this \<le> da_nr_entry this div da_entries_per_block this"
    using assms(2) by (simp add: div_le_mono)
  then show ?thesis
    using assms(1) by (simp add: da_region_def disk_array_entry_block_def disk_array_blocks_def da_ok_def)
qed

lemma disk_array_set_frame:
  assumes "da_inv this bm" "length e = da_entry_size this" "disk_array_set this bm i e = (r, bm')"
  shows "b \<notin> da_region this \<Longrightarrow> bm_buf bm' b = bm_buf bm b"
  using assms da_block_in_region [of this i]
  by (auto simp: disk_array_set_ok da_inv_def split: if_splits)

text \<open>The blocks that hold an entry; formatting may write one block more.\<close>

definition da_span :: "disk_array \<Rightarrow> nat set" where
  "da_span this = {da_start this ..< da_start this +
     (if da_nr_entry this = 0 then 0 else Suc ((da_nr_entry this - 1) div da_entries_per_block this))}"

lemma da_block_in_span: "i < da_nr_entry this \<Longrightarrow> disk_array_entry_block this i \<in> da_span this"
  using div_le_mono [of i "da_nr_entry this - 1" "da_entries_per_block this"]
  by (auto simp: da_span_def disk_array_entry_block_def less_Suc_eq_le)

lemma da_span_region: "da_ok this \<Longrightarrow> da_span this \<subseteq> da_region this"
  using div_le_mono [of "da_nr_entry this - 1" "da_nr_entry this" "da_entries_per_block this"]
  by (auto simp: da_span_def da_region_def disk_array_blocks_def da_ok_def)

lemma disk_array_set_span:
  assumes "da_inv this bm" "length e = da_entry_size this" "disk_array_set this bm i e = (r, bm')"
  shows "b \<notin> da_span this \<Longrightarrow> bm_buf bm' b = bm_buf bm b"
  using assms da_block_in_span [of i this]
  by (auto simp: disk_array_set_ok da_inv_def split: if_splits)

lemma disk_array_get_cong:
  "da_inv this bm \<Longrightarrow> da_inv this bm' \<Longrightarrow> (\<And>b. b \<in> da_span this \<Longrightarrow> bm_buf bm' b = bm_buf bm b) \<Longrightarrow>
   disk_array_get this bm' i = disk_array_get this bm i"
  using da_block_in_span [of i this] by (simp add: disk_array_get_ok da_inv_def da_cell_def)

section \<open>Formatting\<close>

definition format_byte :: "bool \<Rightarrow> byte" where
  "format_byte val = (if val then 0xff else 0)"

lemma format_loop_ok:
  assumes "bm_ok bm" "bm_block_size bm = SWORNDISK_METADATA_BLOCK_SIZE"
  shows "\<exists>bm'. disk_array_format_loop this val (n * SWORNDISK_METADATA_BLOCK_SIZE) shift bm = (Inr (), bm') \<and>
    bm_ok bm' \<and> bm_block_size bm' = SWORNDISK_METADATA_BLOCK_SIZE \<and>
    (\<forall>b. bm_buf bm' b = (if b \<in> {da_start this + shift ..< da_start this + shift + n}
       then replicate SWORNDISK_METADATA_BLOCK_SIZE (format_byte val) else bm_buf bm b))"
  using assms
proof (induction n arbitrary: shift bm)
  case 0
  then show ?case by (simp add: disk_array_format_loop.simps)
next
  case (Suc n)
  let ?B = SWORNDISK_METADATA_BLOCK_SIZE
  let ?st = "bm_store bm (da_start this + shift) 0 (replicate ?B (format_byte val))"
  have "0 < ?B" by (simp add: SWORNDISK_METADATA_BLOCK_SIZE_def)
  then have step: "disk_array_format_loop this val (Suc n * ?B) shift bm = disk_array_format_loop this val (n * ?B) (Suc shift) ?st"
    using Suc.prems write_unlock_store [OF Suc.prems(1)]
    by (subst disk_array_format_loop.simps) (simp add: write_lock_ok Let_def format_byte_def)
  have st: "bm_ok ?st" "bm_block_size ?st = ?B" using Suc.prems by (simp_all add: bm_store_ok)
  have ow: "overwrite 0 (replicate ?B (format_byte val)) (bm_buf bm (da_start this + shift)) = replicate ?B (format_byte val)"
    using Suc.prems by (simp add: overwrite_def)
  from Suc.IH [OF st, of "Suc shift"] obtain bm' where
    bm': "disk_array_format_loop this val (n * ?B) (Suc shift) ?st = (Inr (), bm')" "bm_ok bm'" "bm_block_size bm' = ?B"
    "\<forall>b. bm_buf bm' b = (if b \<in> {da_start this + Suc shift ..< da_start this + Suc shift + n}
       then replicate ?B (format_byte val) else bm_buf ?st b)" by blast
  have "\<forall>b. bm_buf bm' b = (if b \<in> {da_start this + shift ..< da_start this + shift + Suc n}
       then replicate ?B (format_byte val) else bm_buf bm b)"
    using bm'(4) ow by auto
  with bm' step show ?case by auto
qed

lemma disk_array_format_ok:
  assumes "da_inv this bm"
  obtains bm' where "disk_array_format this val bm = (Inr (), bm')" "da_inv this bm'"
    "\<And>i. i < da_nr_entry this \<Longrightarrow> disk_array_get this bm' i = Inr (replicate (da_entry_size this) (format_byte val))"
    "\<And>b. b \<notin> da_region this \<Longrightarrow> bm_buf bm' b = bm_buf bm b"
proof -
  let ?B = SWORNDISK_METADATA_BLOCK_SIZE
  have ok: "bm_ok bm" "bm_block_size bm = ?B" "da_ok this" using assms by (simp_all add: da_inv_def)
  from format_loop_ok [OF ok(1,2), of this val "disk_array_blocks (da_nr_entry this) (da_entry_size this) ?B" 0]
  obtain bm' where bm': "disk_array_format this val bm = (Inr (), bm')" "bm_ok bm'" "bm_block_size bm' = ?B"
    "\<forall>b. bm_buf bm' b = (if b \<in> da_region this then replicate ?B (format_byte val) else bm_buf bm b)"
    by (auto simp: disk_array_format_def da_region_def)
  have "disk_array_get this bm' i = Inr (replicate (da_entry_size this) (format_byte val))"
    if "i < da_nr_entry this" for i
    using that bm' da_block_in_region [OF ok(3) that] da_offset_bound [OF ok(3), of i]
    by (simp add: disk_array_get_ok da_cell_def slice_replicate)
  with bm' ok(3) show ?thesis by (intro that [of bm']) (simp_all add: da_inv_def)
qed

section \<open>Typed tables\<close>

text \<open>A table of byte strings with a codec is a table of values.\<close>

locale coded_table = persistent_table get set len cell invar
  for get :: "'s \<Rightarrow> nat \<Rightarrow> 'b result" and set :: "'s \<Rightarrow> nat \<Rightarrow> 'b \<Rightarrow> unit result \<times> 's" and len cell invar +
  fixes enc :: "'a \<Rightarrow> 'b" and dec :: "'b \<Rightarrow> 'a" and okv :: "'a \<Rightarrow> bool"
  assumes cell_enc: "okv v \<Longrightarrow> cell (enc v)"
    and dec_enc: "okv v \<Longrightarrow> dec (enc v) = v"
    and ok_dec: "cell b \<Longrightarrow> okv (dec b)"

sublocale coded_table \<subseteq> typed: persistent_table "\<lambda>s i. map_sum id dec (get s i)" "\<lambda>s i v. set s i (enc v)" len okv invar
proof unfold_locales
  fix s i assume "invar s" "i < len"
  then show "\<exists>v. map_sum id dec (get s i) = Inr v \<and> okv v" using get_cell ok_dec by force
next
  fix s i v assume "invar s" "i < len" "okv v"
  from set_cell [OF this(1,2) cell_enc [OF this(3)]] dec_enc [OF this(3)]
  show "\<exists>s'. set s i (enc v) = (Inr (), s') \<and> invar s' \<and>
      (\<forall>j < len. map_sum id dec (get s' j) = (if j = i then Inr v else map_sum id dec (get s j)))"
    by auto
qed

section \<open>Bit sets keep the contract\<close>

definition db_ok :: "disk_bitset \<Rightarrow> bool" where
  "db_ok this \<longleftrightarrow> da_entry_size (db_array this) = 8 \<and> da_nr_entry (db_array this) = disk_bitset_nr_group (db_nr_bit this)"

definition db_inv :: "disk_bitset \<Rightarrow> block_manager \<Rightarrow> bool" where
  "db_inv this bm \<longleftrightarrow> db_ok this \<and> da_inv (db_array this) bm"

lemma long_of_long: "long_of (of_long w) = w"
proof -
  have "unat w < 256 ^ 8" using unsigned_less [of w, where 'a = nat] by simp
  then show ?thesis by (simp add: long_of_def of_long_def le_nat_le_bytes_id)
qed

lemma length_of_long [simp]: "length (of_long w) = 8"
  by (simp add: of_long_def)

lemma group_in_range: "db_ok this \<Longrightarrow> i < db_nr_bit this \<Longrightarrow> disk_bitset_group i < da_nr_entry (db_array this)"
  by (simp add: db_ok_def disk_bitset_group_def disk_bitset_nr_group_def div_le_mono less_Suc_eq_le)

lemma same_bit: "disk_bitset_group i = disk_bitset_group j \<Longrightarrow> disk_bitset_offset i = disk_bitset_offset j \<Longrightarrow> i = j"
  unfolding disk_bitset_group_def disk_bitset_offset_def by (metis div_mult_mod_eq)

lemma disk_bitset_get_ok:
  "db_inv this bm \<Longrightarrow> i < db_nr_bit this \<Longrightarrow>
   disk_bitset_get this bm i = Inr (bit (long_of (da_cell (db_array this) bm (disk_bitset_group i))) (disk_bitset_offset i))"
  using group_in_range [of this i] by (simp add: disk_bitset_get_def db_inv_def da_inv_def disk_array_get_ok)

interpretation db: persistent_table "disk_bitset_get this" "disk_bitset_operate this" "db_nr_bit this" "\<lambda>_. True" "db_inv this"
proof unfold_locales
  fix bm i assume "db_inv this bm" "i < db_nr_bit this"
  then show "\<exists>v. disk_bitset_get this bm i = Inr v \<and> True" by (simp add: disk_bitset_get_ok)
next
  fix bm i and v :: bool
  assume inv: "db_inv this bm" and i: "i < db_nr_bit this"
  let ?a = "db_array this" and ?g = "disk_bitset_group i"
  let ?w = "(if v then set_bit else unset_bit) (disk_bitset_offset i) (long_of (da_cell ?a bm ?g))"
  have da: "da_inv ?a bm" and ok: "db_ok this" using inv by (simp_all add: db_inv_def)
  have g: "?g < da_nr_entry ?a" by (rule group_in_range [OF ok i])
  have "length (of_long ?w) = da_entry_size ?a" using ok by (simp add: db_ok_def)
  note st = da_store_inv [OF da this, of ?g]
  let ?bm = "bm_store bm (disk_array_entry_block ?a ?g) (disk_array_entry_offset ?a ?g) (of_long ?w)"
  have op: "disk_bitset_operate this bm i v = (Inr (), ?bm)"
    using da g i ok by (simp add: disk_bitset_operate_def disk_array_get_ok disk_array_set_ok da_inv_def db_ok_def Let_def)
  have off: "disk_bitset_offset k < 64" for k by (simp add: disk_bitset_offset_def BITS_PER_LONG_def)
  have inv': "db_inv this ?bm" using st(1) ok by (simp add: db_inv_def)
  have "disk_bitset_get this ?bm j = (if j = i then Inr v else disk_bitset_get this bm j)" if "j < db_nr_bit this" for j
    using same_bit [of i j] off [of i] off [of j]
    by (auto simp: disk_bitset_get_ok [OF inv' that] disk_bitset_get_ok [OF inv that] st(2) long_of_long
        bit_set_bit_iff bit_unset_bit_iff bit_simps)
  with op inv' show "\<exists>s'. disk_bitset_operate this bm i v = (Inr (), s') \<and> db_inv this s' \<and>
      (\<forall>j < db_nr_bit this. disk_bitset_get this s' j = (if j = i then Inr v else disk_bitset_get this bm j))"
    by blast
qed

lemma disk_bitset_operate_span:
  assumes "db_inv this bm" "i < db_nr_bit this" "disk_bitset_operate this bm i v = (r, bm')"
  shows "b \<notin> da_span (db_array this) \<Longrightarrow> bm_buf bm' b = bm_buf bm b"
  using assms group_in_range [of this i] da_block_in_span [of "disk_bitset_group i" "db_array this"]
  by (auto simp: disk_bitset_operate_def disk_array_get_ok disk_array_set_ok db_inv_def da_inv_def db_ok_def Let_def)

lemma disk_bitset_get_cong:
  "db_inv this bm \<Longrightarrow> db_inv this bm' \<Longrightarrow> (\<And>b. b \<in> da_span (db_array this) \<Longrightarrow> bm_buf bm' b = bm_buf bm b) \<Longrightarrow>
   disk_bitset_get this bm' i = disk_bitset_get this bm i"
  using disk_array_get_cong [of "db_array this" bm bm'] by (simp add: disk_bitset_get_def db_inv_def)

lemma bitset_create_ok:
  assumes "disk_bitset_create ok ok_array start n = Some this" "bm_ok bm" "bm_block_size bm = SWORNDISK_METADATA_BLOCK_SIZE"
  shows "db_inv this bm" "db_nr_bit this = n"
  using assms
  by (auto simp: disk_bitset_create_def disk_bitset_init_def disk_array_create_def disk_array_init_def
      db_inv_def db_ok_def da_inv_def da_ok_def SWORNDISK_METADATA_BLOCK_SIZE_def split: if_splits)

lemma array_create_ok:
  assumes "disk_array_create ok start n z = Some this" "bm_ok bm" "bm_block_size bm = SWORNDISK_METADATA_BLOCK_SIZE"
    "0 < z" "z \<le> SWORNDISK_METADATA_BLOCK_SIZE"
  shows "da_inv this bm" "da_nr_entry this = n" "da_entry_size this = z" "da_start this = start"
  using assms by (auto simp: disk_array_create_def disk_array_init_def da_inv_def da_ok_def split: if_splits)

lemma long_of_format: "n < 64 \<Longrightarrow> bit (long_of (replicate 8 (format_byte val))) n = val"
proof -
  assume n: "n < 64"
  have "replicate 8 x = [x, x, x, x, x, x, x, x]" for x :: byte
    by (simp add: eval_nat_numeral)
  then have "long_of (replicate 8 (format_byte val)) = (if val then - 1 else 0)"
    by (simp add: long_of_def format_byte_def)
  then show ?thesis using n by simp
qed

lemma bitset_format_ok:
  assumes "db_inv this bm" "disk_bitset_format this val bm = (r, bm')"
  shows "r = Inr ()" "db_inv this bm'" "i < db_nr_bit this \<Longrightarrow> disk_bitset_get this bm' i = Inr val"
    "b \<notin> da_region (db_array this) \<Longrightarrow> bm_buf bm' b = bm_buf bm b"
proof -
  have da: "da_inv (db_array this) bm" and ok: "db_ok this" using assms(1) by (simp_all add: db_inv_def)
  obtain bm'' where f: "disk_array_format (db_array this) val bm = (Inr (), bm'')" "da_inv (db_array this) bm''"
    "\<And>i. i < da_nr_entry (db_array this) \<Longrightarrow>
       disk_array_get (db_array this) bm'' i = Inr (replicate (da_entry_size (db_array this)) (format_byte val))"
    "\<And>b. b \<notin> da_region (db_array this) \<Longrightarrow> bm_buf bm'' b = bm_buf bm b"
    using disk_array_format_ok [OF da] by blast
  then have e: "r = Inr ()" "bm'' = bm'" using assms(2) by (simp_all add: disk_bitset_format_def)
  show "r = Inr ()" "db_inv this bm'" "b \<notin> da_region (db_array this) \<Longrightarrow> bm_buf bm' b = bm_buf bm b"
    using e f ok by (simp_all add: db_inv_def)
  have "disk_bitset_offset i < 64" by (simp add: disk_bitset_offset_def BITS_PER_LONG_def)
  then show "i < db_nr_bit this \<Longrightarrow> disk_bitset_get this bm' i = Inr val"
    using f(3) [of "disk_bitset_group i"] group_in_range [OF ok] ok e
    by (simp add: disk_bitset_get_def db_ok_def long_of_format)
qed

lemma table_contents_format:
  assumes "\<And>i. i < n \<Longrightarrow> get s i = Inr v"
  shows "table_contents get n s = replicate n v"
  using assms by (intro nth_equalityI) (simp_all add: table_contents_def)

section \<open>Properties\<close>

text \<open>C12. A disk bit set is a persistent array of bits: on a healthy device, formatting succeeds and
  sets every bit to the given value, and after any sequence of sets and clears within range a
  get returns the value last written to that bit, across blocks and words.\<close>

theorem disk_bitset_correct:
  assumes "disk_bitset_create True True start n = Some this"
    and "bm_ok bm" "bm_block_size bm = SWORNDISK_METADATA_BLOCK_SIZE"
    and "disk_bitset_format this val bm = (r, bm0)"
    and "\<forall>(i, v) \<in> set ops. i < n" and "j < n"
  shows "r = Inr () \<and>
    disk_bitset_get this (fold (\<lambda>(i, v) s. snd (disk_bitset_operate this s i v)) ops bm0) j =
      Inr (fold (\<lambda>(i, v) xs. xs[i := v]) ops (replicate n val) ! j)"
proof -
  note c = bitset_create_ok [OF assms(1-3)]
  note f = bitset_format_ok [OF c(1) assms(4)]
  have "table_contents (disk_bitset_get this) n bm0 = replicate n val"
    using f(3) c(2) by (intro table_contents_format) simp
  moreover have "\<forall>(i, v) \<in> set ops. i < db_nr_bit this \<and> True" using assms(5) c(2) by simp
  note db.sets_contents [OF f(2) this]
  ultimately show ?thesis using f(1) assms(6) by (simp add: db.get_contents c(2))
qed

theorem disk_bitset_correct_witness:
  "disk_bitset_get (\<lparr>db_nr_bit = 100, db_array = disk_array_init 5 2 8\<rparr>)
     (fold (\<lambda>(i, v) s. snd (disk_bitset_operate \<lparr>db_nr_bit = 100, db_array = disk_array_init 5 2 8\<rparr> s i v))
        [(70, True), (71, True), (70, False)]
        (snd (disk_bitset_format \<lparr>db_nr_bit = 100, db_array = disk_array_init 5 2 8\<rparr> False
           (projr (dm_block_manager_create True 4096 10 (\<lambda>_. replicate 4096 0) (\<lambda>_. None)))))) 71 = Inr True"
proof -
  let ?bm = "projr (dm_block_manager_create True 4096 10 (\<lambda>_. replicate 4096 0) (\<lambda>_. None))"
  let ?t = "\<lparr>db_nr_bit = 100, db_array = disk_array_init 5 2 8\<rparr>"
  have c: "disk_bitset_create True True 5 100 = Some ?t"
    by (simp add: disk_bitset_create_def disk_bitset_init_def disk_array_create_def disk_bitset_nr_group_def BITS_PER_LONG_def
        numeral_2_eq_2)
  have ok: "bm_ok ?bm" "bm_block_size ?bm = SWORNDISK_METADATA_BLOCK_SIZE"
    by (simp_all add: dm_block_manager_create_def bm_ok_def SWORNDISK_METADATA_BLOCK_SIZE_def)
  have "disk_bitset_format ?t False ?bm = (fst (disk_bitset_format ?t False ?bm), snd (disk_bitset_format ?t False ?bm))" by simp
  from disk_bitset_correct [OF c ok this, of "[(70, True), (71, True), (70, False)]" 71] show ?thesis by simp
qed

text \<open>C9. A disk array is a persistent array of entries inside its own region: on a healthy
  device, formatting and any sequence of sets within range give the entries of the
  corresponding list updates, out-of-range accesses fail with EINVAL, and no block outside the
  region of the array changes.\<close>

theorem disk_array_correct:
  assumes "disk_array_create True start n z = Some this" "0 < z" "z \<le> SWORNDISK_METADATA_BLOCK_SIZE"
    and "bm_ok bm" "bm_block_size bm = SWORNDISK_METADATA_BLOCK_SIZE"
    and "disk_array_format this val bm = (r, bm0)"
    and "\<forall>(i, v) \<in> set ops. i < n \<and> length v = z"
    and "bm' = fold (\<lambda>(i, v) s. snd (disk_array_set this s i v)) ops bm0"
  shows "r = Inr () \<and>
    disk_array_get this bm' j = (if j < n
      then Inr (fold (\<lambda>(i, v) xs. xs[i := v]) ops (replicate n (replicate z (format_byte val))) ! j)
      else Inl EINVAL) \<and>
    (\<forall>b. b \<notin> {start ..< start + disk_array_blocks n z SWORNDISK_METADATA_BLOCK_SIZE} \<longrightarrow> bm_buf bm' b = bm_buf bm b)"
proof -
  note c = array_create_ok [OF assms(1,4,5,2,3)]
  obtain bm'' where f: "disk_array_format this val bm = (Inr (), bm'')" "da_inv this bm''"
    "\<And>i. i < da_nr_entry this \<Longrightarrow> disk_array_get this bm'' i = Inr (replicate (da_entry_size this) (format_byte val))"
    "\<And>b. b \<notin> da_region this \<Longrightarrow> bm_buf bm'' b = bm_buf bm b"
    using disk_array_format_ok [OF c(1)] by blast
  have e: "r = Inr ()" "bm'' = bm0" using f(1) assms(6) by simp_all
  have tc: "table_contents (disk_array_get this) n bm0 = replicate n (replicate z (format_byte val))"
    using f(3) c e by (intro table_contents_format) simp
  have ops: "\<forall>(i, v) \<in> set ops. i < da_nr_entry this \<and> length v = da_entry_size this" using assms(7) c by simp
  have inv0: "da_inv this bm0" using f(2) e by simp
  note run = da.sets_contents [OF inv0 ops, folded assms(8)]
  have frame: "b \<notin> da_region this \<Longrightarrow> bm_buf bm' b = bm_buf bm0 b" for b
    using ops inv0 unfolding assms(8)
  proof (induction ops arbitrary: bm0)
    case (Cons kv kvs)
    obtain i v where kv: "kv = (i, v)" by (cases kv)
    have s: "disk_array_set this bm0 i v = (fst (disk_array_set this bm0 i v), snd (disk_array_set this bm0 i v))" by simp
    have iv: "i < da_nr_entry this" "length v = da_entry_size this" using Cons.prems kv by auto
    from da.set_contents(2) [OF Cons.prems(3) iv s] disk_array_set_frame [OF Cons.prems(3) iv(2) s Cons.prems(1)]
      Cons kv show ?case by simp
  qed simp
  have out: "\<not> j < n \<Longrightarrow> disk_array_get this bm' j = Inl EINVAL" using c by (simp add: disk_array_get_def)
  have "disk_array_get this bm' j = (if j < n
      then Inr (fold (\<lambda>(i, v) xs. xs[i := v]) ops (replicate n (replicate z (format_byte val))) ! j) else Inl EINVAL)"
    using run tc c out by (cases "j < n") (simp_all add: da.get_contents)
  then show ?thesis using e frame f(4) c by (simp add: da_region_def)
qed

theorem disk_array_correct_witness:
  "disk_array_get (disk_array_init 3 10 2)
     (fold (\<lambda>(i, v) s. snd (disk_array_set (disk_array_init 3 10 2) s i v)) [(4, [1, 2]), (5, [3, 4])]
        (snd (disk_array_format (disk_array_init 3 10 2) True
           (projr (dm_block_manager_create True 4096 10 (\<lambda>_. replicate 4096 0) (\<lambda>_. None)))))) 4 = Inr [1, 2]"
proof -
  let ?bm = "projr (dm_block_manager_create True 4096 10 (\<lambda>_. replicate 4096 0) (\<lambda>_. None))"
  let ?t = "disk_array_init 3 10 2"
  have c: "disk_array_create True 3 10 2 = Some ?t" by (simp add: disk_array_create_def)
  have z: "(0::nat) < 2" "2 \<le> SWORNDISK_METADATA_BLOCK_SIZE" by (simp_all add: SWORNDISK_METADATA_BLOCK_SIZE_def)
  have ok: "bm_ok ?bm" "bm_block_size ?bm = SWORNDISK_METADATA_BLOCK_SIZE"
    by (simp_all add: dm_block_manager_create_def bm_ok_def SWORNDISK_METADATA_BLOCK_SIZE_def)
  have "disk_array_format ?t True ?bm = (fst (disk_array_format ?t True ?bm), snd (disk_array_format ?t True ?bm))" by simp
  from disk_array_correct [OF c z ok this, of "[(4, [1, 2]), (5, [3, 4])]", OF _ refl, of 4] show ?thesis
    by simp
qed

end
