(* ===== verification/Checkpoint.thy ===== *)
theory Checkpoint
  imports Disk_Structs
begin

unbundle bit_operations_syntax

text \<open>
  The tables of the checkpoint region, \<open>metadata.c\<close> lines 226 to 697: the segment validator,
  the reverse index table and the data segment table with its victims. The red-black tree of
  victims is its in-order list; a pointer in \<open>node_list\<close> to the node of a victim is the
  victim itself. \<open>ok\<close> parameters say whether an allocation succeeds.
\<close>

definition BLOCKS_PER_SEGMENT :: nat where "BLOCKS_PER_SEGMENT = 1024"

section \<open>Segment validator\<close>

record seg_validator =
  sv_nr_segment :: nat
  sv_cur_segment :: nat
  seg_validity_table :: disk_bitset

definition seg_validator_take ::
  "seg_validator \<Rightarrow> block_manager \<Rightarrow> nat \<Rightarrow> unit result \<times> seg_validator \<times> block_manager" where
  "seg_validator_take this bm seg =
     (case disk_bitset_set (seg_validity_table this) bm seg of
        (Inl r, bm') \<Rightarrow> (Inl r, this, bm')
      | (Inr _, bm') \<Rightarrow> (Inr (), this\<lparr>sv_cur_segment := sv_cur_segment this + 1\<rparr>, bm'))"

text \<open>The inner loop of \<open>next\<close>: scan from \<open>cur\<close>; \<open>None\<close> when the end is reached.\<close>

function seg_validator_scan :: "seg_validator \<Rightarrow> block_manager \<Rightarrow> nat \<Rightarrow> nat option" where
  "seg_validator_scan this bm cur =
     (if cur < sv_nr_segment this then
        (if disk_bitset_get (seg_validity_table this) bm cur = Inr False then Some cur
         else seg_validator_scan this bm (cur + 1))
      else None)"
  by pat_completeness auto
termination
  by (relation "measure (\<lambda>(this, _, cur). sv_nr_segment this - cur)") auto

declare seg_validator_scan.simps [simp del]

definition seg_validator_next :: "seg_validator \<Rightarrow> block_manager \<Rightarrow> nat result \<times> seg_validator" where
  "seg_validator_next this bm =
     (case seg_validator_scan this bm (sv_cur_segment this) of
        Some seg \<Rightarrow> (Inr seg, this\<lparr>sv_cur_segment := seg\<rparr>)
      | None \<Rightarrow>
          (case seg_validator_scan this bm 0 of
             Some seg \<Rightarrow> (Inr seg, this\<lparr>sv_cur_segment := seg\<rparr>)
           | None \<Rightarrow> (Inl ENODATA, this\<lparr>sv_cur_segment := sv_nr_segment this\<rparr>)))"

definition seg_validator_test_and_return ::
  "seg_validator \<Rightarrow> block_manager \<Rightarrow> nat \<Rightarrow> bool result \<times> block_manager" where
  "seg_validator_test_and_return this bm seg =
     (case disk_bitset_get (seg_validity_table this) bm seg of
        Inl r \<Rightarrow> (Inl r, bm)
      | Inr valid \<Rightarrow>
          (case disk_bitset_clear (seg_validity_table this) bm seg of
             (Inl r, bm') \<Rightarrow> (Inl r, bm')
           | (Inr _, bm') \<Rightarrow> (Inr valid, bm')))"

definition seg_validator_format ::
  "seg_validator \<Rightarrow> block_manager \<Rightarrow> unit result \<times> seg_validator \<times> block_manager" where
  "seg_validator_format this bm =
     (case disk_bitset_format (seg_validity_table this) False bm of
        (Inl r, bm') \<Rightarrow> (Inl r, this, bm')
      | (Inr _, bm') \<Rightarrow> (Inr (), this\<lparr>sv_cur_segment := 0\<rparr>, bm'))"

fun seg_validator_count_loop :: "seg_validator \<Rightarrow> block_manager \<Rightarrow> nat list \<Rightarrow> nat \<Rightarrow> nat result" where
  "seg_validator_count_loop this bm [] n = Inr n"
| "seg_validator_count_loop this bm (segno # segnos) n =
     (case disk_bitset_get (seg_validity_table this) bm segno of
        Inl r \<Rightarrow> Inl r
      | Inr valid \<Rightarrow> seg_validator_count_loop this bm segnos (n + (if valid then 1 else 0)))"

definition seg_validator_valid_segment_count :: "seg_validator \<Rightarrow> block_manager \<Rightarrow> nat result" where
  "seg_validator_valid_segment_count this bm = seg_validator_count_loop this bm [0..<sv_nr_segment this] 0"

definition seg_validator_init :: "bool \<Rightarrow> bool \<Rightarrow> nat \<Rightarrow> nat \<Rightarrow> seg_validator result" where
  "seg_validator_init ok_set ok_array start nr_segment =
     (case disk_bitset_create ok_set ok_array start nr_segment of
        None \<Rightarrow> Inl ENOMEM
      | Some table \<Rightarrow> Inr \<lparr>sv_nr_segment = nr_segment, sv_cur_segment = 0, seg_validity_table = table\<rparr>)"

definition seg_validator_create :: "bool \<Rightarrow> bool \<Rightarrow> bool \<Rightarrow> nat \<Rightarrow> nat \<Rightarrow> seg_validator option" where
  "seg_validator_create ok ok_set ok_array start nr_segment =
     (if \<not> ok then None
      else case seg_validator_init ok_set ok_array start nr_segment of Inl r \<Rightarrow> None | Inr this \<Rightarrow> Some this)"

section \<open>Reverse index table\<close>

record reverse_index_table =
  rit_nr_block :: nat
  rit_array :: disk_array

definition rit_enc :: "nat \<Rightarrow> byte list" where "rit_enc lba = le_bytes 8 lba"
definition rit_dec :: "byte list \<Rightarrow> nat" where "rit_dec bs = le_nat bs"

definition reverse_index_table_format ::
  "reverse_index_table \<Rightarrow> block_manager \<Rightarrow> unit result \<times> block_manager" where
  "reverse_index_table_format this bm = disk_array_format (rit_array this) False bm"

definition reverse_index_table_set_entry ::
  "reverse_index_table \<Rightarrow> block_manager \<Rightarrow> nat \<Rightarrow> nat \<Rightarrow> unit result \<times> block_manager" where
  "reverse_index_table_set_entry this bm blk lba = disk_array_set (rit_array this) bm blk (rit_enc lba)"

definition reverse_index_table_set ::
  "reverse_index_table \<Rightarrow> block_manager \<Rightarrow> nat \<Rightarrow> nat \<Rightarrow> unit result \<times> block_manager" where
  "reverse_index_table_set this bm blk lba = reverse_index_table_set_entry this bm blk lba"

definition reverse_index_table_get_entry :: "reverse_index_table \<Rightarrow> block_manager \<Rightarrow> nat \<Rightarrow> byte list result" where
  "reverse_index_table_get_entry this bm blk = disk_array_get (rit_array this) bm blk"

definition reverse_index_table_get :: "reverse_index_table \<Rightarrow> block_manager \<Rightarrow> nat \<Rightarrow> nat result" where
  "reverse_index_table_get this bm blk = map_sum id rit_dec (reverse_index_table_get_entry this bm blk)"

definition reverse_index_table_init :: "bool \<Rightarrow> nat \<Rightarrow> nat \<Rightarrow> reverse_index_table result" where
  "reverse_index_table_init ok start nr_block =
     (case disk_array_create ok start nr_block 8 of
        None \<Rightarrow> Inl ENOMEM
      | Some a \<Rightarrow> Inr \<lparr>rit_nr_block = nr_block, rit_array = a\<rparr>)"

definition reverse_index_table_create :: "bool \<Rightarrow> bool \<Rightarrow> nat \<Rightarrow> nat \<Rightarrow> reverse_index_table option" where
  "reverse_index_table_create ok ok_array start nr_block =
     (if \<not> ok then None
      else case reverse_index_table_init ok_array start nr_block of Inl r \<Rightarrow> None | Inr this \<Rightarrow> Some this)"

section \<open>Data segment table\<close>

type_synonym bitmap = "1024 word"

record dst_entry =
  nr_valid_block :: nat
  block_validity_table :: bitmap

definition DST_ENTRY_SIZE :: nat where "DST_ENTRY_SIZE = 136"

definition dst_enc :: "dst_entry \<Rightarrow> byte list" where
  "dst_enc e = le_bytes 8 (nr_valid_block e) @ le_bytes 128 (unat (block_validity_table e))"

definition dst_dec :: "byte list \<Rightarrow> dst_entry" where
  "dst_dec bs = \<lparr>nr_valid_block = le_nat (take 8 bs), block_validity_table = of_nat (le_nat (drop 8 bs))\<rparr>"

record victim =
  v_segno :: nat
  v_nr_valid_block :: nat
  v_block_validity_table :: bitmap

record dst =
  dst_start :: nat
  dst_nr_segment :: nat
  dst_array :: disk_array
  node_list :: "victim option list"
  victims :: "victim list"

definition victim_create :: "bool \<Rightarrow> nat \<Rightarrow> nat \<Rightarrow> bitmap \<Rightarrow> victim option" where
  "victim_create ok segno nr_valid table =
     (if \<not> ok then None
      else Some \<lparr>v_segno = segno, v_nr_valid_block = nr_valid, v_block_validity_table = table\<rparr>)"

definition victim_less :: "victim \<Rightarrow> victim \<Rightarrow> bool" where
  "victim_less victim1 victim2 \<longleftrightarrow> v_nr_valid_block victim1 < v_nr_valid_block victim2"

text \<open>\<open>rb_add\<close> descends to the left when the new node is less, so it lands behind its equals.\<close>

fun rb_add :: "(victim \<Rightarrow> victim \<Rightarrow> bool) \<Rightarrow> victim \<Rightarrow> victim list \<Rightarrow> victim list" where
  "rb_add lt v [] = [v]"
| "rb_add lt v (u # us) = (if lt v u then v # u # us else u # rb_add lt v us)"

definition dst_add_victim :: "bool \<Rightarrow> dst \<Rightarrow> nat \<Rightarrow> nat \<Rightarrow> bitmap \<Rightarrow> unit result \<times> dst" where
  "dst_add_victim ok this segno nr_valid table =
     (case victim_create ok segno nr_valid table of
        None \<Rightarrow> (Inl ENOMEM, this)
      | Some v \<Rightarrow> (Inr (), this\<lparr>victims := rb_add victim_less v (victims this),
                                node_list := (node_list this)[segno := Some v]\<rparr>))"

definition dst_victim_empty :: "dst \<Rightarrow> bool" where
  "dst_victim_empty this \<longleftrightarrow> victims this = []"

definition dst_peek_victim :: "dst \<Rightarrow> victim option" where
  "dst_peek_victim this = (case victims this of [] \<Rightarrow> None | v # _ \<Rightarrow> Some v)"

definition dst_remove_victim :: "dst \<Rightarrow> nat \<Rightarrow> victim option \<times> dst" where
  "dst_remove_victim this segno =
     (case node_list this ! segno of
        None \<Rightarrow> (None, this)
      | Some v \<Rightarrow> (Some v, this\<lparr>victims := remove1 v (victims this),
                                node_list := (node_list this)[segno := None]\<rparr>))"

definition dst_destroy_victim :: "dst \<Rightarrow> nat \<Rightarrow> dst" where
  "dst_destroy_victim this segno = snd (dst_remove_victim this segno)"

definition dst_pop_victim :: "dst \<Rightarrow> victim option \<times> dst" where
  "dst_pop_victim this =
     (case dst_peek_victim this of
        None \<Rightarrow> (None, this)
      | Some v \<Rightarrow> dst_remove_victim this (v_segno v))"

definition should_threaded_logging :: "dst \<Rightarrow> bool" where
  "should_threaded_logging this =
     (case dst_peek_victim this of
        None \<Rightarrow> False
      | Some v \<Rightarrow> v_nr_valid_block v > BLOCKS_PER_SEGMENT div 4 * 3)"

definition block_to_segment :: "nat \<Rightarrow> nat" where
  "block_to_segment block_id = block_id div BLOCKS_PER_SEGMENT"

definition block_offset_within_segment :: "nat \<Rightarrow> nat" where
  "block_offset_within_segment block_id = block_id mod BLOCKS_PER_SEGMENT"

definition dst_update_victim :: "bool \<Rightarrow> dst \<Rightarrow> nat \<Rightarrow> nat \<Rightarrow> bitmap \<Rightarrow> unit result \<times> dst" where
  "dst_update_victim ok this segno nr_valid table =
     (let this' = dst_destroy_victim this segno
      in if nr_valid \<ge> BLOCKS_PER_SEGMENT then (Inr (), this')
         else dst_add_victim ok this' segno nr_valid table)"

definition dst_get_entry :: "dst \<Rightarrow> block_manager \<Rightarrow> nat \<Rightarrow> dst_entry result" where
  "dst_get_entry this bm segno = map_sum id dst_dec (disk_array_get (dst_array this) bm segno)"

definition dst_set_entry :: "dst \<Rightarrow> block_manager \<Rightarrow> nat \<Rightarrow> dst_entry \<Rightarrow> unit result \<times> block_manager" where
  "dst_set_entry this bm segno e = disk_array_set (dst_array this) bm segno (dst_enc e)"

definition dst_take_segment :: "dst \<Rightarrow> block_manager \<Rightarrow> nat \<Rightarrow> unit result \<times> dst \<times> block_manager" where
  "dst_take_segment this bm segno =
     (case dst_get_entry this bm segno of
        Inl r \<Rightarrow> (Inl r, this, bm)
      | Inr entry \<Rightarrow>
          if nr_valid_block entry \<noteq> 0 then (Inl EINVAL, this, bm)
          else
            (case dst_set_entry this bm segno
                    (entry\<lparr>nr_valid_block := BLOCKS_PER_SEGMENT, block_validity_table := - 1\<rparr>) of
               (Inl r, bm') \<Rightarrow> (Inl r, this, bm')
             | (Inr _, bm') \<Rightarrow> (Inr (), dst_destroy_victim this segno, bm')))"

definition dst_write_back ::
  "bool \<Rightarrow> dst \<Rightarrow> block_manager \<Rightarrow> nat \<Rightarrow> dst_entry \<Rightarrow> unit result \<times> dst \<times> block_manager" where
  "dst_write_back ok this bm segno entry =
     (case dst_set_entry this bm segno entry of
        (Inl r, bm') \<Rightarrow> (Inl r, this, bm')
      | (Inr _, bm') \<Rightarrow>
          (case dst_update_victim ok this segno (nr_valid_block entry) (block_validity_table entry) of
             (r, this') \<Rightarrow> (r, this', bm')))"

definition dst_take_block :: "bool \<Rightarrow> dst \<Rightarrow> block_manager \<Rightarrow> nat \<Rightarrow> unit result \<times> dst \<times> block_manager" where
  "dst_take_block ok this bm blkaddr =
     (let segno = block_to_segment blkaddr; offset = block_offset_within_segment blkaddr
      in case dst_get_entry this bm segno of
           Inl r \<Rightarrow> (Inl r, this, bm)
         | Inr entry \<Rightarrow>
             if nr_valid_block entry \<ge> BLOCKS_PER_SEGMENT then (Inl EINVAL, this, bm)
             else dst_write_back ok this bm segno
                    (entry\<lparr>nr_valid_block := nr_valid_block entry + 1,
                           block_validity_table := set_bit offset (block_validity_table entry)\<rparr>))"

definition dst_return_block :: "bool \<Rightarrow> dst \<Rightarrow> block_manager \<Rightarrow> nat \<Rightarrow> unit result \<times> dst \<times> block_manager" where
  "dst_return_block ok this bm blkaddr =
     (let segno = block_to_segment blkaddr; offset = block_offset_within_segment blkaddr
      in case dst_get_entry this bm segno of
           Inl r \<Rightarrow> (Inl r, this, bm)
         | Inr entry \<Rightarrow>
             if nr_valid_block entry = 0 then (Inl EINVAL, this, bm)
             else dst_write_back ok this bm segno
                    (entry\<lparr>nr_valid_block := nr_valid_block entry - 1,
                           block_validity_table := unset_bit offset (block_validity_table entry)\<rparr>))"

text \<open>The result of adding a victim is ignored while loading.\<close>

fun dst_load_loop :: "(nat \<Rightarrow> bool) \<Rightarrow> block_manager \<Rightarrow> nat list \<Rightarrow> dst \<Rightarrow> unit result \<times> dst" where
  "dst_load_loop oks bm [] this = (Inr (), this)"
| "dst_load_loop oks bm (segno # segnos) this =
     (case dst_get_entry this bm segno of
        Inl r \<Rightarrow> (Inl ENODATA, this)
      | Inr entry \<Rightarrow>
          dst_load_loop oks bm segnos
            (if nr_valid_block entry < BLOCKS_PER_SEGMENT
             then snd (dst_add_victim (oks segno) this segno (nr_valid_block entry) (block_validity_table entry))
             else this))"

definition dst_load :: "(nat \<Rightarrow> bool) \<Rightarrow> block_manager \<Rightarrow> dst \<Rightarrow> unit result \<times> dst" where
  "dst_load oks bm this = dst_load_loop oks bm [0..<dst_nr_segment this] this"

definition dst_init :: "bool \<Rightarrow> bool \<Rightarrow> (nat \<Rightarrow> bool) \<Rightarrow> block_manager \<Rightarrow> nat \<Rightarrow> nat \<Rightarrow> dst result" where
  "dst_init ok_array ok_list oks bm start nr_segment =
     (case disk_array_create ok_array start nr_segment DST_ENTRY_SIZE of
        None \<Rightarrow> Inl ENOMEM
      | Some a \<Rightarrow>
          if \<not> ok_list then Inl ENOMEM
          else case dst_load oks bm \<lparr>dst_start = start, dst_nr_segment = nr_segment, dst_array = a,
                                     node_list = replicate nr_segment None, victims = []\<rparr> of
                 (Inl r, _) \<Rightarrow> Inl r
               | (Inr _, this) \<Rightarrow> Inr this)"

text \<open>The loop that empties the victims; \<open>None\<close> when it does not end.\<close>

partial_function (option) dst_drain :: "dst \<Rightarrow> dst option" where
  "dst_drain this = (if victims this = [] then Some this else dst_drain (snd (dst_pop_victim this)))"

definition dst_format ::
  "bool \<Rightarrow> bool \<Rightarrow> (nat \<Rightarrow> bool) \<Rightarrow> dst \<Rightarrow> block_manager \<Rightarrow> (unit result \<times> dst \<times> block_manager) option" where
  "dst_format ok_array ok_list oks this bm =
     (case disk_array_format (dst_array this) False bm of
        (Inl r, bm') \<Rightarrow> Some (Inl r, this, bm')
      | (Inr _, bm') \<Rightarrow>
          map_option
            (\<lambda>this'. case dst_init ok_array ok_list oks bm' (dst_start this') (dst_nr_segment this') of
                       Inl r \<Rightarrow> (Inl r, this', bm')
                     | Inr this'' \<Rightarrow> (Inr (), this'', bm'))
            (dst_drain this))"

definition dst_create :: "bool \<Rightarrow> bool \<Rightarrow> bool \<Rightarrow> (nat \<Rightarrow> bool) \<Rightarrow> block_manager \<Rightarrow> nat \<Rightarrow> nat \<Rightarrow> dst option" where
  "dst_create ok ok_array ok_list oks bm start nr_segment =
     (if \<not> ok then None
      else case dst_init ok_array ok_list oks bm start nr_segment of Inl r \<Rightarrow> None | Inr this \<Rightarrow> Some this)"

section \<open>Allocation of slots\<close>

text \<open>The contract of an allocator of numbered slots: a slot handed out was free and is used from
  then on; allocation fails only when every slot is used.\<close>

fun alloc_run :: "('s \<Rightarrow> nat result \<times> 's) \<Rightarrow> nat \<Rightarrow> 's \<Rightarrow> nat result list \<times> 's" where
  "alloc_run alloc 0 s = ([], s)"
| "alloc_run alloc (Suc k) s =
     (case alloc s of (r, s') \<Rightarrow> case alloc_run alloc k s' of (rs, s'') \<Rightarrow> (r # rs, s''))"

locale slot_allocator =
  fixes alloc :: "'s \<Rightarrow> nat result \<times> 's"
    and release :: "'s \<Rightarrow> nat \<Rightarrow> 's"
    and used :: "'s \<Rightarrow> nat set"
    and cap :: "'s \<Rightarrow> nat"
    and invar :: "'s \<Rightarrow> bool"
  assumes alloc_ok: "invar s \<Longrightarrow> alloc s = (Inr i, s') \<Longrightarrow>
      i < cap s \<and> i \<notin> used s \<and> used s' = insert i (used s) \<and> cap s' = cap s \<and> invar s'"
    and alloc_fail: "invar s \<Longrightarrow> alloc s = (Inl e, s') \<Longrightarrow> e = ENODATA \<and> used s = {..<cap s}"
    and release_ok: "invar s \<Longrightarrow> i < cap s \<Longrightarrow> used (release s i) = used s - {i} \<and> cap (release s i) = cap s \<and> invar (release s i)"
    and used_cap: "invar s \<Longrightarrow> used s \<subseteq> {..<cap s}"
begin

lemma alloc_available:
  assumes "invar s" "card (used s) < cap s"
  obtains i s' where "alloc s = (Inr i, s')"
proof (cases "alloc s")
  case (Pair r s')
  then show ?thesis
  proof (cases r)
    case (Inl e)
    then have "used s = {..<cap s}" using alloc_fail assms(1) Pair by blast
    then have "card (used s) = cap s" by simp
    with assms(2) show ?thesis by simp
  qed (use that Pair in simp)
qed

lemma alloc_run_distinct:
  "invar s \<Longrightarrow> card (used s) + k \<le> cap s \<Longrightarrow>
   \<exists>segs s'. alloc_run alloc k s = (map Inr segs, s') \<and> invar s' \<and> cap s' = cap s \<and> length segs = k \<and>
     distinct segs \<and> set segs \<inter> used s = {} \<and> used s' = used s \<union> set segs"
proof (induction k arbitrary: s)
  case (Suc k)
  then have "card (used s) < cap s" by simp
  from alloc_available [OF Suc.prems(1) this] obtain i s1 where a: "alloc s = (Inr i, s1)" .
  note a' = alloc_ok [OF Suc.prems(1) a]
  have "finite (used s)" using used_cap [OF Suc.prems(1)] finite_subset by blast
  then have "card (used s1) + k \<le> cap s1" using a' Suc.prems(2) by simp
  from Suc.IH [OF _ this] a' obtain segs s' where
    "alloc_run alloc k s1 = (map Inr segs, s')" "invar s'" "cap s' = cap s" "length segs = k" "distinct segs"
    "set segs \<inter> insert i (used s) = {}" "used s' = insert i (used s) \<union> set segs" by auto
  then show ?case using a a' by (intro exI [of _ "i # segs"] exI [of _ s']) auto
qed simp

end

definition seg_validator_alloc ::
  "seg_validator \<times> block_manager \<Rightarrow> nat result \<times> seg_validator \<times> block_manager" where
  "seg_validator_alloc s =
     (case s of (this, bm) \<Rightarrow>
        case seg_validator_next this bm of
          (Inl r, this') \<Rightarrow> (Inl r, this', bm)
        | (Inr seg, this') \<Rightarrow>
            (case seg_validator_take this' bm seg of
               (Inl r, s') \<Rightarrow> (Inl r, s')
             | (Inr _, s') \<Rightarrow> (Inr seg, s')))"

definition sv_inv :: "seg_validator \<times> block_manager \<Rightarrow> bool" where
  "sv_inv s \<longleftrightarrow> db_inv (seg_validity_table (fst s)) (snd s) \<and> db_nr_bit (seg_validity_table (fst s)) = sv_nr_segment (fst s)"

definition sv_used :: "seg_validator \<times> block_manager \<Rightarrow> nat set" where
  "sv_used s = {i. i < sv_nr_segment (fst s) \<and> disk_bitset_get (seg_validity_table (fst s)) (snd s) i = Inr True}"

lemma sv_get:
  "sv_inv (this, bm) \<Longrightarrow> i < sv_nr_segment this \<Longrightarrow>
   disk_bitset_get (seg_validity_table this) bm i = Inr (i \<in> sv_used (this, bm))"
  using db.get_cell [of "seg_validity_table this" bm i] by (auto simp: sv_inv_def sv_used_def)

lemma sv_operate:
  assumes "sv_inv (this, bm)" "i < sv_nr_segment this"
  obtains bm' where "disk_bitset_operate (seg_validity_table this) bm i v = (Inr (), bm')" "sv_inv (this, bm')"
    "sv_used (this, bm') = (if v then insert i (sv_used (this, bm)) else sv_used (this, bm) - {i})"
proof -
  have i: "i < db_nr_bit (seg_validity_table this)" and inv: "db_inv (seg_validity_table this) bm"
    using assms by (simp_all add: sv_inv_def)
  from db.set_cell [OF inv i, of v] obtain bm' where
    bm': "disk_bitset_operate (seg_validity_table this) bm i v = (Inr (), bm')" "db_inv (seg_validity_table this) bm'"
    "\<forall>j < db_nr_bit (seg_validity_table this). disk_bitset_get (seg_validity_table this) bm' j =
       (if j = i then Inr v else disk_bitset_get (seg_validity_table this) bm j)" by auto
  moreover have "sv_inv (this, bm')" using bm'(2) assms by (simp add: sv_inv_def)
  moreover have "sv_used (this, bm') = (if v then insert i (sv_used (this, bm)) else sv_used (this, bm) - {i})"
    using bm'(3) assms by (auto simp: sv_used_def sv_inv_def split: if_splits)
  ultimately show ?thesis using that by blast
qed

lemma sv_scan:
  assumes "sv_inv (this, bm)"
  shows "case seg_validator_scan this bm cur of
      Some seg \<Rightarrow> cur \<le> seg \<and> seg < sv_nr_segment this \<and> seg \<notin> sv_used (this, bm)
    | None \<Rightarrow> {cur ..< sv_nr_segment this} \<subseteq> sv_used (this, bm)"
  using assms
proof (induction this bm cur rule: seg_validator_scan.induct)
  case (1 this bm cur)
  show ?case
  proof (cases "cur < sv_nr_segment this")
    case True
    note get = sv_get [OF "1.prems" True]
    show ?thesis
    proof (cases "cur \<in> sv_used (this, bm)")
      case in_use: True
      with True get have s: "seg_validator_scan this bm cur = seg_validator_scan this bm (cur + 1)"
        by (simp add: seg_validator_scan.simps [of this bm cur])
      have "{cur ..< sv_nr_segment this} = insert cur {cur + 1 ..< sv_nr_segment this}" using True by auto
      then show ?thesis using "1.IH" [OF True _ "1.prems"] get in_use by (auto simp: s split: option.splits)
    qed (use True get in \<open>simp add: seg_validator_scan.simps [of this bm cur]\<close>)
  qed (simp add: seg_validator_scan.simps [of this bm cur])
qed

lemma sv_next:
  assumes "sv_inv (this, bm)" "seg_validator_next this bm = (r, this')"
  shows "\<exists>cur. this' = this\<lparr>sv_cur_segment := cur\<rparr>"
    "case r of Inr seg \<Rightarrow> seg < sv_nr_segment this \<and> seg \<notin> sv_used (this, bm)
             | Inl e \<Rightarrow> e = ENODATA \<and> sv_used (this, bm) = {..<sv_nr_segment this}"
proof -
  show "\<exists>cur. this' = this\<lparr>sv_cur_segment := cur\<rparr>"
    using assms(2) by (auto simp: seg_validator_next_def split: option.splits)
  have "sv_used (this, bm) \<subseteq> {..<sv_nr_segment this}" by (auto simp: sv_used_def)
  then show "case r of Inr seg \<Rightarrow> seg < sv_nr_segment this \<and> seg \<notin> sv_used (this, bm)
             | Inl e \<Rightarrow> e = ENODATA \<and> sv_used (this, bm) = {..<sv_nr_segment this}"
    using assms(2) sv_scan [OF assms(1), of "sv_cur_segment this"] sv_scan [OF assms(1), of 0]
    by (auto simp: seg_validator_next_def atLeast0LessThan split: option.splits)
qed

lemma sv_cur_irrelevant [simp]:
  "sv_inv (this\<lparr>sv_cur_segment := c\<rparr>, bm) = sv_inv (this, bm)"
  "sv_used (this\<lparr>sv_cur_segment := c\<rparr>, bm) = sv_used (this, bm)"
  by (simp_all add: sv_inv_def sv_used_def)

lemma sv_alloc_cases:
  assumes inv: "sv_inv (this, bm)" and alloc: "seg_validator_alloc (this, bm) = (r, this', bm')"
  shows "case r of
      Inr seg \<Rightarrow> seg < sv_nr_segment this \<and> seg \<notin> sv_used (this, bm) \<and>
        sv_used (this', bm') = insert seg (sv_used (this, bm)) \<and> sv_nr_segment this' = sv_nr_segment this \<and> sv_inv (this', bm')
    | Inl e \<Rightarrow> e = ENODATA \<and> sv_used (this, bm) = {..<sv_nr_segment this}"
proof -
  obtain r1 t1 where n: "seg_validator_next this bm = (r1, t1)" by (metis prod.collapse)
  obtain c where t1: "t1 = this\<lparr>sv_cur_segment := c\<rparr>" using sv_next(1) [OF inv n] ..
  note nx = sv_next(2) [OF inv n]
  show ?thesis
  proof (cases r1)
    case (Inl e)
    then have "r = Inl e" using n alloc by (simp add: seg_validator_alloc_def)
    then show ?thesis using nx Inl by simp
  next
    case (Inr seg)
    then have seg: "seg < sv_nr_segment t1" "seg \<notin> sv_used (this, bm)" using nx by (simp_all add: t1)
    have inv1: "sv_inv (t1, bm)" using inv by (simp add: t1)
    obtain bm1 where b: "disk_bitset_operate (seg_validity_table t1) bm seg True = (Inr (), bm1)" "sv_inv (t1, bm1)"
      "sv_used (t1, bm1) = insert seg (sv_used (t1, bm))" using sv_operate [OF inv1 seg(1), of True] by auto
    have "r = Inr seg" "bm' = bm1" "this' = t1\<lparr>sv_cur_segment := sv_cur_segment t1 + 1\<rparr>"
      using alloc n Inr b(1) by (simp_all add: seg_validator_alloc_def seg_validator_take_def disk_bitset_set_def)
    then show ?thesis using b seg by (simp add: t1)
  qed
qed

definition sv_release :: "seg_validator \<times> block_manager \<Rightarrow> nat \<Rightarrow> seg_validator \<times> block_manager" where
  "sv_release s seg = (fst s, snd (seg_validator_test_and_return (fst s) (snd s) seg))"

interpretation sva: slot_allocator seg_validator_alloc sv_release sv_used "\<lambda>s. sv_nr_segment (fst s)" sv_inv
proof unfold_locales
  fix s i s' assume "sv_inv s" "seg_validator_alloc s = (Inr i, s')"
  then show "i < sv_nr_segment (fst s) \<and> i \<notin> sv_used s \<and> sv_used s' = insert i (sv_used s) \<and>
      sv_nr_segment (fst s') = sv_nr_segment (fst s) \<and> sv_inv s'"
    using sv_alloc_cases [of "fst s" "snd s" "Inr i" "fst s'" "snd s'"] by simp
next
  fix s e s' assume "sv_inv s" "seg_validator_alloc s = (Inl e, s')"
  then show "e = ENODATA \<and> sv_used s = {..<sv_nr_segment (fst s)}"
    using sv_alloc_cases [of "fst s" "snd s" "Inl e" "fst s'" "snd s'"] by simp
next
  fix s i assume inv: "sv_inv s" and i: "i < sv_nr_segment (fst s)"
  then have inv': "sv_inv (fst s, snd s)" by simp
  from sv_operate [OF inv' i, of False] obtain bm' where
    "disk_bitset_operate (seg_validity_table (fst s)) (snd s) i False = (Inr (), bm')" "sv_inv (fst s, bm')"
    "sv_used (fst s, bm') = sv_used s - {i}" by auto
  then show "sv_used (sv_release s i) = sv_used s - {i} \<and> sv_nr_segment (fst (sv_release s i)) = sv_nr_segment (fst s) \<and>
      sv_inv (sv_release s i)"
    by (simp add: sv_release_def seg_validator_test_and_return_def disk_bitset_clear_def sv_get [OF inv' i])
qed (auto simp: sv_used_def)

section \<open>Typed tables on disk\<close>

definition da_sized :: "nat \<Rightarrow> disk_array \<Rightarrow> block_manager \<Rightarrow> bool" where
  "da_sized z this bm \<longleftrightarrow> da_inv this bm \<and> da_entry_size this = z"

interpretation sized: persistent_table "disk_array_get this" "disk_array_set this" "da_nr_entry this"
  "\<lambda>e. length e = z" "da_sized z this"
proof unfold_locales
  fix bm i assume "da_sized z this bm" "i < da_nr_entry this"
  then show "\<exists>v. disk_array_get this bm i = Inr v \<and> length v = z"
    using da.get_cell by (auto simp: da_sized_def)
next
  fix bm i and v :: "byte list" assume "da_sized z this bm" "i < da_nr_entry this" "length v = z"
  then show "\<exists>s'. disk_array_set this bm i v = (Inr (), s') \<and> da_sized z this s' \<and>
      (\<forall>j < da_nr_entry this. disk_array_get this s' j = (if j = i then Inr v else disk_array_get this bm j))"
    using da.set_cell [of this bm i v] by (auto simp: da_sized_def)
qed

interpretation rit_table: coded_table "disk_array_get this" "disk_array_set this" "da_nr_entry this"
  "\<lambda>e. length e = 8" "da_sized 8 this" rit_enc rit_dec "\<lambda>lba. lba < 2 ^ 64"
proof unfold_locales
  fix lba :: nat and b :: "byte list"
  show "lba < 2 ^ 64 \<Longrightarrow> rit_dec (rit_enc lba) = lba" by (simp add: rit_dec_def rit_enc_def)
  show "length b = 8 \<Longrightarrow> rit_dec b < 2 ^ 64" using le_nat_less [of b] by (simp add: rit_dec_def)
qed (simp add: rit_enc_def)

lemma dst_enc_dec: "nr_valid_block e < 2 ^ 64 \<Longrightarrow> dst_dec (dst_enc e) = e"
proof -
  assume n: "nr_valid_block e < 2 ^ 64"
  have "unat (block_validity_table e) < 256 ^ 128"
    using unsigned_less [of "block_validity_table e", where 'a = nat] by simp
  then show ?thesis using n by (simp add: dst_dec_def dst_enc_def)
qed

lemma length_dst_enc [simp]: "length (dst_enc e) = DST_ENTRY_SIZE"
  by (simp add: dst_enc_def DST_ENTRY_SIZE_def)

interpretation dst_table: coded_table "disk_array_get this" "disk_array_set this" "da_nr_entry this"
  "\<lambda>e. length e = DST_ENTRY_SIZE" "da_sized DST_ENTRY_SIZE this" dst_enc dst_dec "\<lambda>e. nr_valid_block e < 2 ^ 64"
proof unfold_locales
  fix b :: "byte list"
  have "le_nat (take 8 b) < 256 ^ 8"
    using le_nat_less [of "take 8 b"] power_increasing [of "length (take 8 b)" 8 "256::nat"] by simp
  then show "nr_valid_block (dst_dec b) < 2 ^ 64" by (simp add: dst_dec_def)
qed (simp_all add: dst_enc_dec)

section \<open>The victims mirror the table\<close>

definition dst_ok :: "dst \<Rightarrow> block_manager \<Rightarrow> bool" where
  "dst_ok this bm \<longleftrightarrow> da_sized DST_ENTRY_SIZE (dst_array this) bm \<and> da_nr_entry (dst_array this) = dst_nr_segment this"

definition dst_entry_at :: "dst \<Rightarrow> block_manager \<Rightarrow> nat \<Rightarrow> dst_entry" where
  "dst_entry_at this bm i = projr (dst_get_entry this bm i)"

definition victim_of :: "nat \<Rightarrow> dst_entry \<Rightarrow> victim option" where
  "victim_of i e = (if nr_valid_block e < BLOCKS_PER_SEGMENT
     then Some \<lparr>v_segno = i, v_nr_valid_block = nr_valid_block e, v_block_validity_table = block_validity_table e\<rparr>
     else None)"

definition vt_ok :: "dst \<Rightarrow> bool" where
  "vt_ok this \<longleftrightarrow> sorted_wrt (\<lambda>a b. v_nr_valid_block a \<le> v_nr_valid_block b) (victims this) \<and>
     mset (victims this) = mset (somes (node_list this)) \<and>
     (\<forall>i < length (node_list this). \<forall>v. node_list this ! i = Some v \<longrightarrow> v_segno v = i)"

definition dst_inv :: "dst \<Rightarrow> block_manager \<Rightarrow> bool" where
  "dst_inv this bm \<longleftrightarrow> dst_ok this bm \<and> vt_ok this \<and>
     node_list this = map (\<lambda>i. victim_of i (dst_entry_at this bm i)) [0..<dst_nr_segment this]"

lemma mset_rb_add: "mset (rb_add lt v us) = add_mset v (mset us)"
  by (induction us) auto

lemma rb_add_sorted:
  "sorted_wrt (\<lambda>a b. v_nr_valid_block a \<le> v_nr_valid_block b) us \<Longrightarrow>
   sorted_wrt (\<lambda>a b. v_nr_valid_block a \<le> v_nr_valid_block b) (rb_add victim_less v us)"
proof (induction us)
  case (Cons u us)
  have "set (rb_add victim_less v us) = insert v (set us)"
    using mset_rb_add [of victim_less v us] by (metis list.set(2) mset.simps(2) mset_eq_setD)
  with Cons show ?case by (auto simp: victim_less_def [of v u])
qed simp

lemma sorted_remove1: "sorted_wrt R xs \<Longrightarrow> sorted_wrt R (remove1 x xs)"
  by (induction xs) (auto dest: notin_set_remove1)

lemma dst_destroy_ok:
  assumes "vt_ok this" "segno < length (node_list this)"
  shows "vt_ok (dst_destroy_victim this segno)"
    "node_list (dst_destroy_victim this segno) = (node_list this)[segno := None]"
    "dst_array (dst_destroy_victim this segno) = dst_array this"
    "dst_nr_segment (dst_destroy_victim this segno) = dst_nr_segment this"
    "dst_start (dst_destroy_victim this segno) = dst_start this"
proof -
  show "dst_array (dst_destroy_victim this segno) = dst_array this"
    "dst_nr_segment (dst_destroy_victim this segno) = dst_nr_segment this"
    "dst_start (dst_destroy_victim this segno) = dst_start this"
    by (simp_all add: dst_destroy_victim_def dst_remove_victim_def split: option.split)
  show n: "node_list (dst_destroy_victim this segno) = (node_list this)[segno := None]"
    by (cases "node_list this ! segno")
      (simp_all add: dst_destroy_victim_def dst_remove_victim_def list_update_same_conv [THEN iffD2, symmetric] assms(2))
  show "vt_ok (dst_destroy_victim this segno)"
  proof (cases "node_list this ! segno")
    case None
    then show ?thesis using assms by (simp add: dst_destroy_victim_def dst_remove_victim_def)
  next
    case (Some v)
    have "mset (remove1 v (victims this)) = mset (somes ((node_list this)[segno := None]))"
      using assms(1) somes_mset(2) [OF assms(2) Some] by (simp add: vt_ok_def)
    then show ?thesis
      using assms Some
      by (auto simp: dst_destroy_victim_def dst_remove_victim_def vt_ok_def sorted_remove1 nth_list_update split: if_splits)
  qed
qed

lemma dst_add_ok:
  assumes "vt_ok this" "segno < length (node_list this)" "node_list this ! segno = None"
  shows "fst (dst_add_victim True this segno n t) = Inr ()" "vt_ok (snd (dst_add_victim True this segno n t))"
    "node_list (snd (dst_add_victim True this segno n t)) =
      (node_list this)[segno := Some \<lparr>v_segno = segno, v_nr_valid_block = n, v_block_validity_table = t\<rparr>]"
    "dst_array (snd (dst_add_victim True this segno n t)) = dst_array this"
    "dst_nr_segment (snd (dst_add_victim True this segno n t)) = dst_nr_segment this"
    "dst_start (snd (dst_add_victim True this segno n t)) = dst_start this"
  using assms somes_mset(1) [OF assms(2,3)]
  by (auto simp: dst_add_victim_def victim_create_def vt_ok_def mset_rb_add rb_add_sorted nth_list_update split: if_splits)

lemma dst_update_ok:
  assumes "vt_ok this" "segno < length (node_list this)" "dst_update_victim True this segno (nr_valid_block e) (block_validity_table e) = (r, this')"
  shows "r = Inr ()" "vt_ok this'" "node_list this' = (node_list this)[segno := victim_of segno e]"
    "dst_array this' = dst_array this" "dst_nr_segment this' = dst_nr_segment this" "dst_start this' = dst_start this"
proof -
  note d = dst_destroy_ok [OF assms(1,2)]
  have l: "segno < length (node_list (dst_destroy_victim this segno))" "node_list (dst_destroy_victim this segno) ! segno = None"
    using assms(2) by (simp_all add: d(2))
  note a = dst_add_ok [OF d(1) l, of "nr_valid_block e" "block_validity_table e"]
  have this': "this' = (if nr_valid_block e \<ge> BLOCKS_PER_SEGMENT then dst_destroy_victim this segno
      else snd (dst_add_victim True (dst_destroy_victim this segno) segno (nr_valid_block e) (block_validity_table e)))"
    and r: "r = Inr ()"
    using assms(3) a(1) by (auto simp: dst_update_victim_def Let_def split: if_splits)
  show "r = Inr ()" by (rule r)
  show "vt_ok this'" "node_list this' = (node_list this)[segno := victim_of segno e]"
    "dst_array this' = dst_array this" "dst_nr_segment this' = dst_nr_segment this" "dst_start this' = dst_start this"
    using a d by (auto simp: this' victim_of_def)
qed

lemma dst_entry_update: "(e :: dst_entry)\<lparr>nr_valid_block := n, block_validity_table := t\<rparr> = \<lparr>nr_valid_block = n, block_validity_table = t\<rparr>"
  by simp

lemma dst_get_ok:
  "dst_ok this bm \<Longrightarrow> i < dst_nr_segment this \<Longrightarrow>
   dst_get_entry this bm i = Inr (dst_entry_at this bm i) \<and> nr_valid_block (dst_entry_at this bm i) < 2 ^ 64"
  using dst_table.typed.get_cell [of "dst_array this" bm i]
  by (auto simp: dst_ok_def dst_get_entry_def dst_entry_at_def)

lemma dst_get_out: "dst_ok this bm \<Longrightarrow> \<not> i < dst_nr_segment this \<Longrightarrow> dst_get_entry this bm i = Inl EINVAL"
  by (simp add: dst_get_entry_def dst_ok_def disk_array_get_def)

lemma dst_set_ok:
  assumes "dst_ok this bm" "i < dst_nr_segment this" "nr_valid_block e < 2 ^ 64"
  obtains bm' where "dst_set_entry this bm i e = (Inr (), bm')" "dst_ok this bm'"
    "\<And>j. j < dst_nr_segment this \<Longrightarrow> dst_entry_at this bm' j = (if j = i then e else dst_entry_at this bm j)"
  using dst_table.typed.set_cell [of "dst_array this" bm i e] assms
  by (auto simp: dst_ok_def dst_get_entry_def dst_set_entry_def dst_entry_at_def)

lemma dst_entry_at_cong: "dst_array this' = dst_array this \<Longrightarrow> dst_entry_at this' = dst_entry_at this"
  by (simp add: fun_eq_iff dst_entry_at_def dst_get_entry_def)

lemma dst_change_inv:
  assumes inv: "dst_inv this bm" and i: "i < dst_nr_segment this" and ok: "dst_ok this bm'"
    and ent: "\<And>j. j < dst_nr_segment this \<Longrightarrow> dst_entry_at this bm' j = (if j = i then e else dst_entry_at this bm j)"
    and vt: "vt_ok this'" "node_list this' = (node_list this)[i := victim_of i e]"
    and same: "dst_array this' = dst_array this" "dst_nr_segment this' = dst_nr_segment this"
  shows "dst_inv this' bm'"
proof -
  have "node_list this' = map (\<lambda>j. victim_of j (dst_entry_at this' bm' j)) [0..<dst_nr_segment this]"
    using inv i ent vt(2) dst_entry_at_cong [OF same(1)]
    by (intro nth_equalityI) (auto simp: dst_inv_def nth_list_update)
  then show ?thesis using ok vt same by (simp add: dst_inv_def dst_ok_def)
qed

lemma dst_inv_nodes: "dst_inv this bm \<Longrightarrow> length (node_list this) = dst_nr_segment this"
  by (simp add: dst_inv_def)

lemma dst_write_back_ok:
  assumes inv: "dst_inv this bm" and i: "i < dst_nr_segment this" and e: "nr_valid_block e < 2 ^ 64"
    and wb: "dst_write_back True this bm i e = (r, this', bm')"
  shows "r = Inr ()" "dst_inv this' bm'" "dst_nr_segment this' = dst_nr_segment this" "dst_array this' = dst_array this"
    "j < dst_nr_segment this \<Longrightarrow> dst_entry_at this' bm' j = (if j = i then e else dst_entry_at this bm j)"
proof -
  have ok: "dst_ok this bm" and vt: "vt_ok this" using inv by (simp_all add: dst_inv_def)
  obtain b where b: "dst_set_entry this bm i e = (Inr (), b)" "dst_ok this b"
    "\<And>j. j < dst_nr_segment this \<Longrightarrow> dst_entry_at this b j = (if j = i then e else dst_entry_at this bm j)"
    using dst_set_ok [OF ok i e] by blast
  obtain r' t where u: "dst_update_victim True this i (nr_valid_block e) (block_validity_table e) = (r', t)" by (metis prod.collapse)
  have il: "i < length (node_list this)" using i inv by (simp add: dst_inv_nodes)
  note up = dst_update_ok [OF vt il u]
  have eq: "r = Inr ()" "this' = t" "bm' = b" using wb b u up(1) by (simp_all add: dst_write_back_def)
  show "r = Inr ()" by (rule eq)
  show "dst_inv this' bm'" unfolding eq by (rule dst_change_inv [OF inv i b(2,3) up(2-5)])
  show "dst_nr_segment this' = dst_nr_segment this" "dst_array this' = dst_array this" using up eq by simp_all
  show "j < dst_nr_segment this \<Longrightarrow> dst_entry_at this' bm' j = (if j = i then e else dst_entry_at this bm j)"
    using b(3) dst_entry_at_cong [OF up(4)] eq by simp
qed

lemma dst_take_segment_ok:
  assumes inv: "dst_inv this bm" and i: "i < dst_nr_segment this"
    and ts: "dst_take_segment this bm i = (r, this', bm')" and free: "nr_valid_block (dst_entry_at this bm i) = 0"
  shows "r = Inr ()" "dst_inv this' bm'" "dst_nr_segment this' = dst_nr_segment this" "dst_array this' = dst_array this"
    "j < dst_nr_segment this \<Longrightarrow> dst_entry_at this' bm' j =
       (if j = i then \<lparr>nr_valid_block = BLOCKS_PER_SEGMENT, block_validity_table = - 1\<rparr> else dst_entry_at this bm j)"
proof -
  have ok: "dst_ok this bm" and vt: "vt_ok this" using inv by (simp_all add: dst_inv_def)
  let ?e = "\<lparr>nr_valid_block = BLOCKS_PER_SEGMENT, block_validity_table = - 1\<rparr> :: dst_entry"
  have e: "nr_valid_block ?e < 2 ^ 64" by (simp add: BLOCKS_PER_SEGMENT_def)
  obtain b where b: "dst_set_entry this bm i ?e = (Inr (), b)" "dst_ok this b"
    "\<And>j. j < dst_nr_segment this \<Longrightarrow> dst_entry_at this b j = (if j = i then ?e else dst_entry_at this bm j)"
    using dst_set_ok [OF ok i e] by blast
  have il: "i < length (node_list this)" using i inv by (simp add: dst_inv_nodes)
  note d = dst_destroy_ok [OF vt il]
  have eq: "r = Inr ()" "this' = dst_destroy_victim this i" "bm' = b"
    using ts free b(1) dst_get_ok [OF ok i] by (simp_all add: dst_take_segment_def dst_entry_update)
  show "r = Inr ()" by (rule eq)
  have n: "node_list (dst_destroy_victim this i) = (node_list this)[i := victim_of i ?e]"
    using d(2) by (simp add: victim_of_def)
  show "dst_inv this' bm'" unfolding eq by (rule dst_change_inv [OF inv i b(2,3) d(1) n d(3,4)])
  show "dst_nr_segment this' = dst_nr_segment this" "dst_array this' = dst_array this" using d eq by simp_all
  show "j < dst_nr_segment this \<Longrightarrow> dst_entry_at this' bm' j = (if j = i then ?e else dst_entry_at this bm j)"
    using b(3) dst_entry_at_cong [OF d(3)] eq by simp
qed

section \<open>Operations on the data segment table\<close>

datatype dst_op = TakeSegment nat | TakeBlock nat | ReturnBlock nat

fun dst_step :: "dst_op \<Rightarrow> dst \<times> block_manager \<Rightarrow> dst \<times> block_manager" where
  "dst_step (TakeSegment segno) (this, bm) = snd (dst_take_segment this bm segno)"
| "dst_step (TakeBlock blk) (this, bm) = snd (dst_take_block True this bm blk)"
| "dst_step (ReturnBlock blk) (this, bm) = snd (dst_return_block True this bm blk)"

text \<open>The effect of an operation on the entry of its segment; an operation whose guard fails has
  no effect.\<close>

fun dst_effect :: "dst_op \<Rightarrow> nat \<times> (dst_entry \<Rightarrow> dst_entry)" where
  "dst_effect (TakeSegment segno) =
     (segno, \<lambda>e. if nr_valid_block e = 0 then \<lparr>nr_valid_block = BLOCKS_PER_SEGMENT, block_validity_table = - 1\<rparr> else e)"
| "dst_effect (TakeBlock blk) =
     (blk div BLOCKS_PER_SEGMENT, \<lambda>e. if nr_valid_block e < BLOCKS_PER_SEGMENT
        then \<lparr>nr_valid_block = nr_valid_block e + 1, block_validity_table = set_bit (blk mod BLOCKS_PER_SEGMENT) (block_validity_table e)\<rparr> else e)"
| "dst_effect (ReturnBlock blk) =
     (blk div BLOCKS_PER_SEGMENT, \<lambda>e. if nr_valid_block e \<noteq> 0
        then \<lparr>nr_valid_block = nr_valid_block e - 1, block_validity_table = unset_bit (blk mod BLOCKS_PER_SEGMENT) (block_validity_table e)\<rparr> else e)"

definition dst_entries :: "dst \<times> block_manager \<Rightarrow> dst_entry list" where
  "dst_entries s = map (dst_entry_at (fst s) (snd s)) [0..<dst_nr_segment (fst s)]"

definition spec_step :: "dst_op \<Rightarrow> dst_entry list \<Rightarrow> dst_entry list" where
  "spec_step op es = (case dst_effect op of (i, f) \<Rightarrow> es[i := f (es ! i)])"

lemma dst_entries_eqI:
  assumes "dst_nr_segment this' = dst_nr_segment this"
    "\<And>j. j < dst_nr_segment this \<Longrightarrow> dst_entry_at this' bm' j = (if j = i then e else dst_entry_at this bm j)"
  shows "dst_entries (this', bm') = (dst_entries (this, bm))[i := e]"
  using assms by (intro nth_equalityI) (auto simp: dst_entries_def nth_list_update)

lemma dst_step_ok:
  assumes inv: "dst_inv (fst s) (snd s)"
  shows "dst_inv (fst (dst_step op s)) (snd (dst_step op s)) \<and> dst_entries (dst_step op s) = spec_step op (dst_entries s)"
proof -
  obtain this bm where s: "s = (this, bm)" by (cases s)
  have ok: "dst_ok this bm" and inv': "dst_inv this bm" using inv by (simp_all add: s dst_inv_def)
  let ?seg = "fst (dst_effect op)" and ?f = "snd (dst_effect op)"
  have "dst_step op s = s \<and> ?f (dst_entry_at this bm ?seg) = dst_entry_at this bm ?seg \<or>
     dst_inv (fst (dst_step op s)) (snd (dst_step op s)) \<and>
     dst_entries (dst_step op s) = (dst_entries s)[?seg := ?f (dst_entry_at this bm ?seg)]"
    if seg: "?seg < dst_nr_segment this"
  proof -
    let ?e = "dst_entry_at this bm ?seg"
    have e: "dst_get_entry this bm ?seg = Inr ?e" using dst_get_ok [OF ok seg] by simp
    have wb: "dst_inv (fst s') (snd s') \<and> dst_entries s' = (dst_entries s)[?seg := e']"
      if "s' = snd (dst_write_back True this bm ?seg e')" "nr_valid_block e' < 2 ^ 64" for e' s'
    proof -
      obtain r t b where w: "dst_write_back True this bm ?seg e' = (r, t, b)" by (metis prod_cases3)
      note wb = dst_write_back_ok [OF inv' seg that(2) w]
      show ?thesis using that(1) wb(2) dst_entries_eqI [OF wb(3,5)] by (simp add: s w)
    qed
    show ?thesis
    proof (cases op)
      case (TakeSegment segno)
      then have i: "segno < dst_nr_segment this" using seg by simp
      obtain r t b where w: "dst_take_segment this bm segno = (r, t, b)" by (metis prod_cases3)
      show ?thesis
      proof (cases "nr_valid_block (dst_entry_at this bm segno) = 0")
        case True
        note ts = dst_take_segment_ok [OF inv' i w True]
        show ?thesis using ts(2) dst_entries_eqI [OF ts(3,5)] True TakeSegment by (simp add: s w)
      next
        case False
        then show ?thesis using e TakeSegment by (simp add: s dst_take_segment_def)
      qed
    next
      case (TakeBlock blk)
      show ?thesis
      proof (cases "nr_valid_block ?e < BLOCKS_PER_SEGMENT")
        case True
        then have "nr_valid_block ?e + 1 < 2 ^ 64" by (simp add: BLOCKS_PER_SEGMENT_def)
        with True e TakeBlock show ?thesis
          by (intro disjI2 wb) (simp_all add: s dst_take_block_def Let_def dst_entry_update block_to_segment_def block_offset_within_segment_def)
      qed (use e TakeBlock in \<open>simp add: s dst_take_block_def Let_def block_to_segment_def\<close>)
    next
      case (ReturnBlock blk)
      show ?thesis
      proof (cases "nr_valid_block ?e = 0")
        case False
        have "nr_valid_block ?e < 2 ^ 64" using dst_get_ok [OF ok seg] by blast
        then have "nr_valid_block ?e - 1 < 2 ^ 64" by linarith
        with False e ReturnBlock show ?thesis
          by (intro disjI2 wb) (simp_all add: s dst_return_block_def Let_def dst_entry_update block_to_segment_def block_offset_within_segment_def)
      qed (use e ReturnBlock in \<open>simp add: s dst_return_block_def Let_def block_to_segment_def\<close>)
    qed
  qed
  moreover have "dst_step op s = s" if "\<not> ?seg < dst_nr_segment this"
    using that dst_get_out [OF ok]
    by (cases op) (simp_all add: s dst_take_segment_def dst_take_block_def dst_return_block_def Let_def block_to_segment_def)
  moreover have "(dst_entries s)[?seg := dst_entry_at this bm ?seg] = dst_entries s" if "?seg < dst_nr_segment this"
    using that by (simp add: s dst_entries_def list_update_same_conv)
  ultimately show ?thesis
    using inv by (cases "?seg < dst_nr_segment this") (auto simp: spec_step_def split_beta s dst_entries_def not_less list_update_beyond)
qed

lemma dst_run_ok:
  "dst_inv (fst s) (snd s) \<Longrightarrow>
   dst_inv (fst (fold dst_step ops s)) (snd (fold dst_step ops s)) \<and>
   dst_entries (fold dst_step ops s) = fold spec_step ops (dst_entries s)"
  by (induction ops arbitrary: s) (simp_all add: dst_step_ok)

lemma victim_of_None: "victim_of i e = None \<longleftrightarrow> BLOCKS_PER_SEGMENT \<le> nr_valid_block e"
  by (simp add: victim_of_def)

lemma dst_inv_peek:
  assumes "dst_inv this bm"
  shows "case dst_peek_victim this of
      None \<Rightarrow> \<forall>e \<in> set (dst_entries (this, bm)). BLOCKS_PER_SEGMENT \<le> nr_valid_block e
    | Some v \<Rightarrow> v_segno v < dst_nr_segment this \<and>
        dst_entries (this, bm) ! v_segno v = \<lparr>nr_valid_block = v_nr_valid_block v, block_validity_table = v_block_validity_table v\<rparr> \<and>
        v_nr_valid_block v < BLOCKS_PER_SEGMENT \<and>
        (\<forall>e \<in> set (dst_entries (this, bm)). v_nr_valid_block v \<le> nr_valid_block e)"
proof -
  let ?n = "dst_nr_segment this" and ?e = "dst_entry_at this bm"
  have vs: "set (victims this) = {v. \<exists>i < ?n. victim_of i (?e i) = Some v}"
  proof -
    have "set (victims this) = set (somes (node_list this))"
      using assms by (metis dst_inv_def mset_eq_setD vt_ok_def)
    also have "\<dots> = {v. Some v \<in> set (node_list this)}" by (auto simp: set_somes)
    also have "set (node_list this) = (\<lambda>i. victim_of i (?e i)) ` {..<?n}"
      using assms by (simp add: dst_inv_def atLeast0LessThan)
    finally show ?thesis by (simp add: image_iff Bex_def eq_commute [of "Some _"])
  qed
  show ?thesis
  proof (cases "victims this")
    case Nil
    then have "victim_of i (?e i) = None" if "i < ?n" for i
      using vs that by (cases "victim_of i (?e i)") auto
    then show ?thesis
      by (auto simp: dst_peek_victim_def Nil dst_entries_def victim_of_None)
  next
    case (Cons v us)
    have sorted: "\<forall>u \<in> set us. v_nr_valid_block v \<le> v_nr_valid_block u"
      using assms Cons by (simp add: dst_inv_def vt_ok_def)
    obtain i where i: "i < ?n" "victim_of i (?e i) = Some v" using vs Cons by auto
    then have v: "v_segno v = i" "v_nr_valid_block v = nr_valid_block (?e i)"
      "v_block_validity_table v = block_validity_table (?e i)" "nr_valid_block (?e i) < BLOCKS_PER_SEGMENT"
      by (auto simp: victim_of_def split: if_splits)
    have "v_nr_valid_block v \<le> nr_valid_block (?e j)" if "j < ?n" for j
    proof (cases "victim_of j (?e j)")
      case None
      then show ?thesis using v by (simp add: victim_of_def split: if_splits)
    next
      case (Some u)
      then have "u \<in> set (victims this)" using vs that by auto
      then show ?thesis using Cons sorted Some by (auto simp: victim_of_def split: if_splits)
    qed
    then show ?thesis using i v by (simp add: dst_peek_victim_def Cons dst_entries_def)
  qed
qed

section \<open>Loading and formatting the data segment table\<close>

lemma dst_load_loop_ok:
  assumes "dst_ok this bm" "vt_ok this" "length (node_list this) = dst_nr_segment this"
    "distinct xs" "\<forall>i \<in> set xs. i < dst_nr_segment this \<and> node_list this ! i = None"
  shows "\<exists>this'. dst_load_loop (\<lambda>_. True) bm xs this = (Inr (), this') \<and> vt_ok this' \<and>
    dst_array this' = dst_array this \<and> dst_nr_segment this' = dst_nr_segment this \<and> dst_start this' = dst_start this \<and>
    length (node_list this') = dst_nr_segment this \<and>
    (\<forall>i < dst_nr_segment this. node_list this' ! i =
       (if i \<in> set xs then victim_of i (dst_entry_at this bm i) else node_list this ! i))"
  using assms
proof (induction xs arbitrary: this)
  case (Cons x xs)
  let ?e = "dst_entry_at this bm x"
  define t where "t = (if nr_valid_block ?e < BLOCKS_PER_SEGMENT
    then snd (dst_add_victim True this x (nr_valid_block ?e) (block_validity_table ?e)) else this)"
  have x: "x < length (node_list this)" "node_list this ! x = None" "x < dst_nr_segment this" using Cons.prems by simp_all
  note a = dst_add_ok [OF Cons.prems(2) x(1,2), of "nr_valid_block ?e" "block_validity_table ?e"]
  have same: "(node_list this)[x := None] = node_list this" using x by (simp add: list_update_same_conv)
  have t: "vt_ok t" "node_list t = (node_list this)[x := victim_of x ?e]" "dst_array t = dst_array this"
    "dst_nr_segment t = dst_nr_segment this" "dst_start t = dst_start this"
    using a Cons.prems(2) same by (simp_all add: t_def victim_of_def)
  have "dst_load_loop (\<lambda>_. True) bm (x # xs) this = dst_load_loop (\<lambda>_. True) bm xs t"
    using dst_get_ok [OF Cons.prems(1) x(3)] by (simp add: t_def)
  moreover have "dst_ok t bm" using Cons.prems(1) t by (simp add: dst_ok_def)
  then have "\<exists>this'. dst_load_loop (\<lambda>_. True) bm xs t = (Inr (), this') \<and> vt_ok this' \<and>
    dst_array this' = dst_array t \<and> dst_nr_segment this' = dst_nr_segment t \<and> dst_start this' = dst_start t \<and>
    length (node_list this') = dst_nr_segment t \<and>
    (\<forall>i < dst_nr_segment t. node_list this' ! i =
       (if i \<in> set xs then victim_of i (dst_entry_at t bm i) else node_list t ! i))"
    using Cons.prems t by (intro Cons.IH) (auto simp: nth_list_update)
  ultimately show ?case
    using t dst_entry_at_cong [OF t(3)] Cons.prems x by (auto simp: nth_list_update)
qed auto

lemma dst_init_ok:
  assumes "bm_ok bm" "bm_block_size bm = SWORNDISK_METADATA_BLOCK_SIZE"
  obtains this where "dst_init True True (\<lambda>_. True) bm start n = Inr this" "dst_inv this bm" "dst_nr_segment this = n"
    "dst_start this = start" "dst_array this = disk_array_init start n DST_ENTRY_SIZE"
proof -
  let ?a = "disk_array_init start n DST_ENTRY_SIZE"
  let ?t = "\<lparr>dst_start = start, dst_nr_segment = n, dst_array = ?a, node_list = replicate n None, victims = []\<rparr>"
  have "da_inv ?a bm" using assms by (simp add: da_inv_def da_ok_def disk_array_init_def DST_ENTRY_SIZE_def SWORNDISK_METADATA_BLOCK_SIZE_def)
  then have ok: "dst_ok ?t bm" by (simp add: dst_ok_def da_sized_def disk_array_init_def)
  have vt: "vt_ok ?t" by (simp add: vt_ok_def somes_def)
  from dst_load_loop_ok [OF ok vt, of "[0..<n]"] obtain this where l: "dst_load (\<lambda>_. True) bm ?t = (Inr (), this)"
    "vt_ok this" "dst_array this = ?a" "dst_nr_segment this = n" "dst_start this = start" "length (node_list this) = n"
    "\<forall>i < n. node_list this ! i = victim_of i (dst_entry_at ?t bm i)"
    by (auto simp: dst_load_def)
  have "node_list this = map (\<lambda>i. victim_of i (dst_entry_at this bm i)) [0..<n]"
    using l dst_entry_at_cong [of this ?t] by (intro nth_equalityI) simp_all
  then have "dst_inv this bm" using l ok by (simp add: dst_inv_def dst_ok_def)
  with l show ?thesis by (intro that [of this]) (simp_all add: dst_init_def disk_array_create_def)
qed

lemma dst_drain_ok:
  "vt_ok this \<Longrightarrow> \<exists>this'. dst_drain this = Some this' \<and> victims this' = [] \<and> dst_array this' = dst_array this \<and>
     dst_nr_segment this' = dst_nr_segment this \<and> dst_start this' = dst_start this"
proof (induction "length (victims this)" arbitrary: this)
  case 0
  then show ?case by (simp add: dst_drain.simps)
next
  case (Suc k)
  then obtain v us where v: "victims this = v # us" by (cases "victims this") auto
  then have "Some v \<in> set (node_list this)"
    using Suc.prems by (metis list.set_intros(1) mset_eq_setD set_somes vt_ok_def)
  then obtain i where i: "i < length (node_list this)" "node_list this ! i = Some v" by (auto simp: in_set_conv_nth)
  then have "v_segno v = i" using Suc.prems by (simp add: vt_ok_def)
  then have pop: "snd (dst_pop_victim this) = dst_destroy_victim this i"
    by (simp add: dst_pop_victim_def dst_peek_victim_def v dst_destroy_victim_def)
  note d = dst_destroy_ok [OF Suc.prems i(1)]
  have "victims (dst_destroy_victim this i) = us"
    using i v by (simp add: dst_destroy_victim_def dst_remove_victim_def)
  then have "k = length (victims (dst_destroy_victim this i))" using Suc.hyps(2) v by simp
  from Suc.hyps(1) [OF this d(1)] show ?case using v pop d by (simp add: dst_drain.simps [of this])
qed

text \<open>The number of blocks marked valid in a bitmap.\<close>

definition popcount :: "bitmap \<Rightarrow> nat" where
  "popcount w = card {i. bit w i}"

definition entry_counts :: "dst_entry \<Rightarrow> bool" where
  "entry_counts e \<longleftrightarrow> nr_valid_block e = popcount (block_validity_table e)"

lemma finite_bits: "finite {i. bit (w :: bitmap) i}"
  by (rule finite_subset [of _ "{..<1024}"]) (auto dest: bit_imp_le_length)

lemma popcount_simps:
  "popcount 0 = 0"
  "popcount (- 1) = BLOCKS_PER_SEGMENT"
  "n < BLOCKS_PER_SEGMENT \<Longrightarrow> \<not> bit w n \<Longrightarrow> popcount (set_bit n w) = Suc (popcount w)"
  "bit w n \<Longrightarrow> Suc (popcount (unset_bit n w)) = popcount w"
proof -
  show "popcount 0 = 0" by (simp add: popcount_def)
  have "{i. bit (- 1 :: bitmap) i} = {..<1024}" by auto
  then show "popcount (- 1) = BLOCKS_PER_SEGMENT" by (simp add: popcount_def BLOCKS_PER_SEGMENT_def)
  show "popcount (set_bit n w) = Suc (popcount w)" if "n < BLOCKS_PER_SEGMENT" "\<not> bit w n"
  proof -
    have "{i. bit (set_bit n w) i} = insert n {i. bit w i}"
      using that by (auto simp: bit_set_bit_iff BLOCKS_PER_SEGMENT_def)
    then show ?thesis using that finite_bits [of w] by (simp add: popcount_def)
  qed
  show "Suc (popcount (unset_bit n w)) = popcount w" if "bit w n"
  proof -
    have "{i. bit w i} = insert n {i. bit (unset_bit n w) i}" "n \<notin> {i. bit (unset_bit n w) i}"
      using that by (auto simp: bit_unset_bit_iff)
    then show ?thesis using finite_bits [of "unset_bit n w"] by (simp add: popcount_def)
  qed
qed

section \<open>Properties\<close>

lemma sv_count_loop:
  "sv_inv (this, bm) \<Longrightarrow> \<forall>i \<in> set xs. i < sv_nr_segment this \<Longrightarrow>
   seg_validator_count_loop this bm xs n = Inr (n + length (filter (\<lambda>i. i \<in> sv_used (this, bm)) xs))"
  by (induction xs arbitrary: n) (simp_all add: sv_get)

lemma sv_count:
  assumes "sv_inv (this, bm)"
  shows "seg_validator_valid_segment_count this bm = Inr (card (sv_used (this, bm)))"
proof -
  have "sv_used (this, bm) = set (filter (\<lambda>i. i \<in> sv_used (this, bm)) [0..<sv_nr_segment this])"
    by (auto simp: sv_used_def)
  then have "card (sv_used (this, bm)) = length (filter (\<lambda>i. i \<in> sv_used (this, bm)) [0..<sv_nr_segment this])"
    by (metis distinct_card distinct_filter distinct_upt)
  then show ?thesis using sv_count_loop [OF assms] by (simp add: seg_validator_valid_segment_count_def)
qed

text \<open>C8. The segment validator allocates every segment exactly once: after formatting, any
  $k \le n$ allocations return $k$ different segments below $n$, the number of valid segments is then
  $k$, and once all are taken the next allocation fails with ENODATA.\<close>

theorem seg_validator_allocates_once:
  assumes "seg_validator_create True True True start n = Some this"
    and "bm_ok bm" "bm_block_size bm = SWORNDISK_METADATA_BLOCK_SIZE"
    and "seg_validator_format this bm = (r, s0)" and "k \<le> n"
  shows "\<exists>segs s. r = Inr () \<and> alloc_run seg_validator_alloc k s0 = (map Inr segs, s) \<and>
    length segs = k \<and> distinct segs \<and> set segs \<subseteq> {..<n} \<and>
    seg_validator_valid_segment_count (fst s) (snd s) = Inr k \<and>
    (k = n \<longrightarrow> fst (seg_validator_alloc s) = Inl ENODATA)"
proof -
  let ?t = "seg_validity_table this"
  have t: "disk_bitset_create True True start n = Some ?t" "sv_nr_segment this = n"
    using assms(1) by (auto simp: seg_validator_create_def seg_validator_init_def split: option.splits sum.splits)
  note c = bitset_create_ok [OF t(1) assms(2,3)]
  obtain r1 bm1 where f: "disk_bitset_format ?t False bm = (r1, bm1)" by (metis prod.collapse)
  note fm = bitset_format_ok [OF c(1) f]
  have eq: "r = Inr ()" "s0 = (this\<lparr>sv_cur_segment := 0\<rparr>, bm1)"
    using assms(4) f fm(1) by (simp_all add: seg_validator_format_def)
  have inv: "sv_inv s0" and u: "sv_used s0 = {}" and n: "sv_nr_segment (fst s0) = n"
    using fm t c by (auto simp: eq sv_inv_def sv_used_def)
  from sva.alloc_run_distinct [OF inv, of k] u n assms(5) obtain segs s where
    s: "alloc_run seg_validator_alloc k s0 = (map Inr segs, s)" "sv_inv s" "sv_nr_segment (fst s) = n" "length segs = k"
    "distinct segs" "sv_used s = set segs" by auto
  have "seg_validator_valid_segment_count (fst s) (snd s) = Inr k"
    using sv_count [of "fst s" "snd s"] s distinct_card [OF s(5)] by simp
  moreover have "set segs \<subseteq> {..<n}" using sva.used_cap [OF s(2)] s by simp
  moreover have "fst (seg_validator_alloc s) = Inl ENODATA" if "k = n"
  proof (cases "fst (seg_validator_alloc s)")
    case (Inl e)
    then show ?thesis using sva.alloc_fail [OF s(2), of e "snd (seg_validator_alloc s)"] by (metis prod.collapse)
  next
    case (Inr i)
    then have "i < n" "i \<notin> set segs" using sva.alloc_ok [OF s(2), of i "snd (seg_validator_alloc s)"] s
      by (metis prod.collapse)+
    moreover have "set segs = {..<n}"
      using \<open>set segs \<subseteq> {..<n}\<close> distinct_card [OF s(5)] that s(4) by (intro card_subset_eq) simp_all
    ultimately show ?thesis by simp
  qed
  ultimately show ?thesis using eq(1) s by blast
qed

theorem seg_validator_allocates_once_witness:
  "\<exists>segs s. alloc_run seg_validator_alloc 2 (snd (seg_validator_format
      (the (seg_validator_create True True True 5 100))
      (projr (dm_block_manager_create True 4096 10 (\<lambda>_. replicate 4096 255) (\<lambda>_. None))))) = (map Inr segs, s) \<and>
    distinct segs \<and> length segs = 2"
proof -
  let ?bm = "projr (dm_block_manager_create True 4096 10 (\<lambda>_. replicate 4096 255) (\<lambda>_. None))"
  let ?t = "the (seg_validator_create True True True 5 100)"
  have c: "seg_validator_create True True True 5 100 = Some ?t"
    by (simp add: seg_validator_create_def seg_validator_init_def disk_bitset_create_def disk_bitset_init_def disk_array_create_def)
  have ok: "bm_ok ?bm" "bm_block_size ?bm = SWORNDISK_METADATA_BLOCK_SIZE"
    by (simp_all add: dm_block_manager_create_def bm_ok_def SWORNDISK_METADATA_BLOCK_SIZE_def)
  have f: "seg_validator_format ?t ?bm = (fst (seg_validator_format ?t ?bm), snd (seg_validator_format ?t ?bm))" by simp
  from seg_validator_allocates_once [OF c ok f, of 2] show ?thesis by auto
qed

text \<open>C6. The victims of the data segment table mirror the entries on disk: from a freshly loaded
  table, after any sequence of taken segments, taken blocks and returned blocks, the entries
  are those of the specification, and the victim that is peeked is a segment with the fewest
  valid blocks, with its current bitmap; there is none exactly when every segment is full.\<close>

theorem dst_victims_mirror_entries:
  assumes "bm_ok bm" "bm_block_size bm = SWORNDISK_METADATA_BLOCK_SIZE"
    and "dst_create True True True (\<lambda>_. True) bm start n = Some this0"
    and "fold dst_step ops (this0, bm) = (this, bm')"
  shows "dst_entries (this, bm') = fold spec_step ops (dst_entries (this0, bm)) \<and>
    (case dst_peek_victim this of
      None \<Rightarrow> \<forall>e \<in> set (dst_entries (this, bm')). BLOCKS_PER_SEGMENT \<le> nr_valid_block e
    | Some v \<Rightarrow> v_segno v < n \<and>
        dst_entries (this, bm') ! v_segno v = \<lparr>nr_valid_block = v_nr_valid_block v, block_validity_table = v_block_validity_table v\<rparr> \<and>
        v_nr_valid_block v < BLOCKS_PER_SEGMENT \<and>
        (\<forall>e \<in> set (dst_entries (this, bm')). v_nr_valid_block v \<le> nr_valid_block e))"
proof -
  obtain t where t: "dst_init True True (\<lambda>_. True) bm start n = Inr t" "dst_inv t bm" "dst_nr_segment t = n"
    using dst_init_ok [OF assms(1,2)] by blast
  then have t0: "this0 = t" using assms(3) by (simp add: dst_create_def)
  have run: "dst_inv this bm'" "dst_entries (this, bm') = fold spec_step ops (dst_entries (this0, bm))"
    using dst_run_ok [of "(this0, bm)" ops] t(2) assms(4) t0 by simp_all
  have "length (fold spec_step ops es) = length es" for es
    by (induction ops arbitrary: es) (simp_all add: spec_step_def split_beta)
  from this [of "dst_entries (this0, bm)"] have "length (dst_entries (this, bm')) = n"
    using run(2) t t0 by (simp add: dst_entries_def)
  then have n: "dst_nr_segment this = n" by (simp add: dst_entries_def)
  show ?thesis using dst_inv_peek [OF run(1), unfolded n] run(2) by blast
qed

theorem dst_victims_mirror_entries_witness:
  "dst_nr_segment (the (dst_create True True True (\<lambda>_. True)
      (projr (dm_block_manager_create True 4096 10 (\<lambda>_. replicate 4096 0) (\<lambda>_. None))) 3 2)) = 2 \<and>
   (\<exists>this bm'. fold dst_step [TakeSegment 0, ReturnBlock 7] (the (dst_create True True True (\<lambda>_. True)
      (projr (dm_block_manager_create True 4096 10 (\<lambda>_. replicate 4096 0) (\<lambda>_. None))) 3 2),
      projr (dm_block_manager_create True 4096 10 (\<lambda>_. replicate 4096 0) (\<lambda>_. None))) = (this, bm') \<and>
    (case dst_peek_victim this of None \<Rightarrow> True | Some v \<Rightarrow> v_segno v < 2))"
proof -
  let ?bm = "projr (dm_block_manager_create True 4096 10 (\<lambda>_. replicate 4096 0) (\<lambda>_. None))"
  let ?t = "the (dst_create True True True (\<lambda>_. True) ?bm 3 2)"
  have ok: "bm_ok ?bm" "bm_block_size ?bm = SWORNDISK_METADATA_BLOCK_SIZE"
    by (simp_all add: dm_block_manager_create_def bm_ok_def SWORNDISK_METADATA_BLOCK_SIZE_def)
  obtain t where t: "dst_init True True (\<lambda>_. True) ?bm 3 2 = Inr t" "dst_nr_segment t = 2"
    using dst_init_ok [OF ok] by blast
  then have c: "dst_create True True True (\<lambda>_. True) ?bm 3 2 = Some ?t" by (simp add: dst_create_def)
  obtain this bm' where f: "fold dst_step [TakeSegment 0, ReturnBlock 7] (?t, ?bm) = (this, bm')" by (metis prod.collapse)
  have "case dst_peek_victim this of None \<Rightarrow> True | Some v \<Rightarrow> v_segno v < 2"
    using dst_victims_mirror_entries [OF ok c f] by (simp split: option.splits)
  then show ?thesis using f t by (auto simp: dst_create_def)
qed

text \<open>An operation is legal when it takes a block that is not valid, or returns one that is.\<close>

fun dst_legal :: "dst_op \<Rightarrow> dst_entry list \<Rightarrow> bool" where
  "dst_legal (TakeSegment segno) es = True"
| "dst_legal (TakeBlock blk) es = (\<not> bit (block_validity_table (es ! (blk div BLOCKS_PER_SEGMENT))) (blk mod BLOCKS_PER_SEGMENT))"
| "dst_legal (ReturnBlock blk) es = bit (block_validity_table (es ! (blk div BLOCKS_PER_SEGMENT))) (blk mod BLOCKS_PER_SEGMENT)"

fun dst_legal_run :: "dst_op list \<Rightarrow> dst_entry list \<Rightarrow> bool" where
  "dst_legal_run [] es = True"
| "dst_legal_run (op # ops) es = (dst_legal op es \<and> dst_legal_run ops (spec_step op es))"

lemma spec_step_counts:
  assumes "\<forall>e \<in> set es. entry_counts e" "dst_legal op es"
  shows "\<forall>e \<in> set (spec_step op es). entry_counts e"
proof -
  have m: "blk mod BLOCKS_PER_SEGMENT < BLOCKS_PER_SEGMENT" for blk by (simp add: BLOCKS_PER_SEGMENT_def)
  have eff: "entry_counts (snd (dst_effect op) (es ! fst (dst_effect op)))" if "fst (dst_effect op) < length es"
  proof -
    have c: "entry_counts (es ! fst (dst_effect op))" using assms(1) that by simp
    show ?thesis
    proof (cases op)
      case (ReturnBlock blk)
      then show ?thesis
        using c assms(2) popcount_simps(4) [of "block_validity_table (es ! (blk div BLOCKS_PER_SEGMENT))" "blk mod BLOCKS_PER_SEGMENT"]
        by (auto simp: entry_counts_def)
    qed (use c assms(2) m in \<open>auto simp: entry_counts_def popcount_simps\<close>)
  qed
  show ?thesis
  proof (cases "fst (dst_effect op) < length es")
    case True
    with eff assms(1) show ?thesis
      using set_update_subset_insert [of es "fst (dst_effect op)"] by (auto simp: spec_step_def split_beta)
  qed (use assms(1) in \<open>simp add: spec_step_def split_beta list_update_beyond not_less\<close>)
qed

lemma spec_run_counts:
  "\<forall>e \<in> set es. entry_counts e \<Longrightarrow> dst_legal_run ops es \<Longrightarrow> \<forall>e \<in> set (fold spec_step ops es). entry_counts e"
proof (induction ops arbitrary: es)
  case (Cons op ops)
  then have l: "dst_legal op es" "dst_legal_run ops (spec_step op es)" by simp_all
  show ?case using Cons.IH [OF spec_step_counts [OF Cons.prems(1) l(1)] l(2)] by simp
qed simp

lemma dst_dec_zero: "dst_dec (replicate DST_ENTRY_SIZE 0) = \<lparr>nr_valid_block = 0, block_validity_table = 0\<rparr>"
proof -
  have "le_nat (replicate k 0) = 0" for k by (induction k) simp_all
  then show ?thesis by (simp add: dst_dec_def)
qed

lemma dst_inv_parts: "dst_inv this bm \<Longrightarrow> da_inv (dst_array this) bm" "dst_inv this bm \<Longrightarrow> vt_ok this"
  by (simp_all add: dst_inv_def dst_ok_def da_sized_def)

lemma dst_inv_frame:
  assumes "dst_inv this bm" "bm_ok bm'" "bm_block_size bm' = SWORNDISK_METADATA_BLOCK_SIZE"
    "\<And>b. b \<in> da_span (dst_array this) \<Longrightarrow> bm_buf bm' b = bm_buf bm b"
  shows "dst_inv this bm'" "dst_entries (this, bm') = dst_entries (this, bm)"
proof -
  have da: "da_inv (dst_array this) bm'" using dst_inv_parts(1) [OF assms(1)] assms(2,3) by (simp add: da_inv_def)
  have "dst_entry_at this bm' = dst_entry_at this bm"
    using disk_array_get_cong [OF dst_inv_parts(1) [OF assms(1)] da assms(4)]
    by (auto simp: fun_eq_iff dst_entry_at_def dst_get_entry_def)
  then show "dst_inv this bm'" "dst_entries (this, bm') = dst_entries (this, bm)"
    using assms(1) da by (simp_all add: dst_inv_def dst_ok_def da_sized_def dst_entries_def)
qed

lemma dst_format_ok:
  assumes da: "da_inv (dst_array this) bm" and vt: "vt_ok this"
    and arr: "dst_array this = disk_array_init (dst_start this) (dst_nr_segment this) DST_ENTRY_SIZE"
  obtains this' bm' where "dst_format True True (\<lambda>_. True) this bm = Some (Inr (), this', bm')" "dst_inv this' bm'"
    "dst_nr_segment this' = dst_nr_segment this"
    "dst_entries (this', bm') = replicate (dst_nr_segment this) \<lparr>nr_valid_block = 0, block_validity_table = 0\<rparr>"
    "dst_array this' = dst_array this" "dst_start this' = dst_start this"
    "\<And>b. b \<notin> da_region (dst_array this) \<Longrightarrow> bm_buf bm' b = bm_buf bm b"
proof -
  obtain bm' where f: "disk_array_format (dst_array this) False bm = (Inr (), bm')" "da_inv (dst_array this) bm'"
    "\<And>i. i < da_nr_entry (dst_array this) \<Longrightarrow>
      disk_array_get (dst_array this) bm' i = Inr (replicate (da_entry_size (dst_array this)) (format_byte False))"
    "\<And>b. b \<notin> da_region (dst_array this) \<Longrightarrow> bm_buf bm' b = bm_buf bm b"
    by (rule disk_array_format_ok [OF da, of False]) (rule that)
  obtain d where d: "dst_drain this = Some d" "dst_nr_segment d = dst_nr_segment this" "dst_start d = dst_start this"
    using dst_drain_ok [OF vt] by blast
  have bm': "bm_ok bm'" "bm_block_size bm' = SWORNDISK_METADATA_BLOCK_SIZE" using f(2) by (simp_all add: da_inv_def)
  obtain t where t: "dst_init True True (\<lambda>_. True) bm' (dst_start this) (dst_nr_segment this) = Inr t" "dst_inv t bm'"
    "dst_nr_segment t = dst_nr_segment this" "dst_array t = dst_array this" "dst_start t = dst_start this"
    using dst_init_ok [OF bm', of "dst_start this" "dst_nr_segment this", folded arr] by blast
  have "dst_entry_at t bm' i = \<lparr>nr_valid_block = 0, block_validity_table = 0\<rparr>" if "i < dst_nr_segment this" for i
    using f(3) [of i] that arr
    by (simp add: dst_entry_at_def dst_get_entry_def t(4) disk_array_init_def format_byte_def dst_dec_zero)
  then have "dst_entries (t, bm') = replicate (dst_nr_segment this) \<lparr>nr_valid_block = 0, block_validity_table = 0\<rparr>"
    using t by (intro nth_equalityI) (simp_all add: dst_entries_def)
  then show ?thesis using f d t by (intro that [of t bm']) (simp_all add: dst_format_def)
qed

text \<open>C7. The valid-block counter of every segment is the number of bits set in its bitmap: it holds
  after formatting and is kept by every legal sequence of operations, one that takes blocks
  that are free and returns blocks that are valid.\<close>

theorem dst_counts_valid_blocks:
  assumes "bm_ok bm0" "bm_block_size bm0 = SWORNDISK_METADATA_BLOCK_SIZE"
    and "dst_create True True True (\<lambda>_. True) bm0 start n = Some this0"
  shows "\<exists>this bm. dst_format True True (\<lambda>_. True) this0 bm0 = Some (Inr (), this, bm) \<and>
    (dst_legal_run ops (dst_entries (this, bm)) \<longrightarrow>
      (\<forall>e \<in> set (dst_entries (fold dst_step ops (this, bm))). entry_counts e))"
proof -
  obtain t where t: "dst_init True True (\<lambda>_. True) bm0 start n = Inr t" "dst_inv t bm0" "dst_nr_segment t = n"
    "dst_array t = disk_array_init (dst_start t) (dst_nr_segment t) DST_ENTRY_SIZE"
    using dst_init_ok [OF assms(1,2), of start n] by auto
  then have "this0 = t" using assms(3) by (simp add: dst_create_def)
  then obtain this bm where f: "dst_format True True (\<lambda>_. True) this0 bm0 = Some (Inr (), this, bm)" "dst_inv this bm"
    "dst_entries (this, bm) = replicate n \<lparr>nr_valid_block = 0, block_validity_table = 0\<rparr>"
    using dst_format_ok [OF dst_inv_parts [OF t(2)] t(4), unfolded t(3)] by blast
  have "\<forall>e \<in> set (dst_entries (this, bm)). entry_counts e"
    by (simp add: f(3) entry_counts_def popcount_simps(1))
  note c = spec_run_counts [OF this, of ops]
  have "dst_entries (fold dst_step ops (this, bm)) = fold spec_step ops (dst_entries (this, bm))"
    using dst_run_ok [of "(this, bm)" ops] f(2) by simp
  with c f(1) show ?thesis by (intro exI [of _ this] exI [of _ bm]) simp
qed

theorem dst_counts_valid_blocks_witness:
  "\<exists>this bm. dst_format True True (\<lambda>_. True)
      (the (dst_create True True True (\<lambda>_. True)
        (projr (dm_block_manager_create True 4096 10 (\<lambda>_. replicate 4096 1) (\<lambda>_. None))) 3 1))
      (projr (dm_block_manager_create True 4096 10 (\<lambda>_. replicate 4096 1) (\<lambda>_. None))) = Some (Inr (), this, bm) \<and>
    (\<forall>e \<in> set (dst_entries (fold dst_step [TakeSegment 0] (this, bm))). entry_counts e)"
proof -
  let ?bm = "projr (dm_block_manager_create True 4096 10 (\<lambda>_. replicate 4096 1) (\<lambda>_. None))"
  have ok: "bm_ok ?bm" "bm_block_size ?bm = SWORNDISK_METADATA_BLOCK_SIZE"
    by (simp_all add: dm_block_manager_create_def bm_ok_def SWORNDISK_METADATA_BLOCK_SIZE_def)
  obtain t where "dst_init True True (\<lambda>_. True) ?bm 3 1 = Inr t" using dst_init_ok [OF ok] by blast
  then have "dst_create True True True (\<lambda>_. True) ?bm 3 1 = Some (the (dst_create True True True (\<lambda>_. True) ?bm 3 1))"
    by (simp add: dst_create_def)
  from dst_counts_valid_blocks [OF ok this, of "[TakeSegment 0]"] show ?thesis by simp
qed

end
