(* ===== verification/Crypto.thy ===== *)
theory Crypto
  imports Memtable
begin

text \<open>
  The AEAD cipher of \<open>crypto.c\<close>. AES-GCM itself is the kernel's; it is the parameter
  \<open>aead\<close>, and what the code relies on is the predicate \<open>aead_ok\<close>: sealing keeps the length and
  gives a tag of 16 bytes, and opening succeeds with \<open>d\<close> exactly on the ciphertext and
  tag of \<open>d\<close>. Nothing is assumed of \<open>residue\<close>, what a failed opening leaves in the output
  buffer. The faults of the environment (an interrupted lock, a failed allocation, a rejected
  key) are the record \<open>aead_env\<close>.
\<close>

section \<open>The kernel's cipher\<close>

record aead =
  seal :: "byte list \<Rightarrow> byte list \<Rightarrow> byte list \<Rightarrow> byte list \<Rightarrow> byte list \<times> byte list"
  unseal :: "byte list \<Rightarrow> byte list \<Rightarrow> byte list \<Rightarrow> byte list \<Rightarrow> byte list \<Rightarrow> byte list option"
  residue :: "byte list \<Rightarrow> byte list \<Rightarrow> byte list \<Rightarrow> byte list \<Rightarrow> byte list \<Rightarrow> byte list"

definition aead_ok :: "aead \<Rightarrow> bool" where
  "aead_ok c \<longleftrightarrow>
     (\<forall>k iv ad d. length (fst (seal c k iv ad d)) = length d \<and> length (snd (seal c k iv ad d)) = AES_GCM_AUTH_SIZE) \<and>
     (\<forall>k iv ad ct tag d. unseal c k iv ad ct tag = Some d \<longleftrightarrow> seal c k iv ad d = (ct, tag))"

record aead_env =
  lock_interrupted :: "errno option"
  request_alloc :: bool
  setkey_result :: "errno option"

definition no_faults :: aead_env where
  "no_faults = \<lparr>lock_interrupted = None, request_alloc = True, setkey_result = None\<rparr>"

lemma seal_length:
  assumes "aead_ok c" "seal c k iv ad d = (ct, tag)"
  shows "length ct = length d" "length tag = AES_GCM_AUTH_SIZE"
proof -
  have "length (fst (seal c k iv ad d)) = length d" "length (snd (seal c k iv ad d)) = AES_GCM_AUTH_SIZE"
    using assms(1) unfolding aead_ok_def by blast+
  then show "length ct = length d" "length tag = AES_GCM_AUTH_SIZE" by (simp_all add: assms(2))
qed

lemma unseal_iff: "aead_ok c \<Longrightarrow> unseal c k iv ad ct tag = Some d \<longleftrightarrow> seal c k iv ad d = (ct, tag)"
  by (simp add: aead_ok_def)

section \<open>Operations\<close>

text \<open>The sizes of the transformation, from the kernel: \<open>tfm\<close> is \<open>None\<close> when it cannot be
  allocated, and else the block, tag and nonce sizes.\<close>

record aes_gcm_cipher =
  ac_key_size :: nat
  ac_block_size :: nat
  ac_auth_size :: nat
  ac_iv_size :: nat

definition aes_gcm_cipher_init :: "(nat \<times> nat \<times> nat) option \<Rightarrow> aes_gcm_cipher result" where
  "aes_gcm_cipher_init tfm =
     (case tfm of
        None \<Rightarrow> Inl ENOMEM
      | Some (b, a, i) \<Rightarrow> Inr \<lparr>ac_key_size = AES_GCM_KEY_SIZE, ac_block_size = b, ac_auth_size = a, ac_iv_size = i\<rparr>)"

definition aes_gcm_cipher_create :: "bool \<Rightarrow> (nat \<times> nat \<times> nat) option \<Rightarrow> aes_gcm_cipher option" where
  "aes_gcm_cipher_create ok tfm =
     (if \<not> ok then None else case aes_gcm_cipher_init tfm of Inl _ \<Rightarrow> None | Inr ac \<Rightarrow> Some ac)"

definition get_random_bytes_alloc :: "bool \<Rightarrow> nat \<Rightarrow> rng \<Rightarrow> (byte list) result \<times> rng" where
  "get_random_bytes_alloc ok len r =
     (if \<not> ok then (Inl ENOMEM, r) else case get_random_bytes len r of (bs, r') \<Rightarrow> (Inr bs, r'))"

definition aes_gcm_get_random_key :: "bool \<Rightarrow> nat \<Rightarrow> rng \<Rightarrow> (byte list) result \<times> rng" where
  "aes_gcm_get_random_key ok key_len r = get_random_bytes_alloc ok key_len r"

definition aes_gcm_get_random_iv :: "bool \<Rightarrow> nat \<Rightarrow> rng \<Rightarrow> (byte list) result \<times> rng" where
  "aes_gcm_get_random_iv ok iv_len r = get_random_bytes_alloc ok iv_len r"

text \<open>The associated data are the sequence number, as stored on the target, and the nonce.\<close>

definition aead_ad :: "nat \<Rightarrow> byte list \<Rightarrow> byte list" where
  "aead_ad seq iv = le_bytes 8 seq @ iv"

text \<open>The buffers \<open>mac\<close> and \<open>out\<close> are returned with the result code. An interrupted lock frees a request
  that was never set and unlocks a mutex that is not held: the value \<open>None\<close>. A failed
  allocation of the request leaves the result code of the lock, zero, and both buffers as they
  were.\<close>

definition aes_gcm_cipher_encrypt ::
  "aead \<Rightarrow> aead_env \<Rightarrow> byte list \<Rightarrow> byte list \<Rightarrow> byte list \<Rightarrow> byte list \<Rightarrow> nat \<Rightarrow> byte list
   \<Rightarrow> (unit result \<times> byte list \<times> byte list) option" where
  "aes_gcm_cipher_encrypt c env data key iv mac seq out =
     (if lock_interrupted env \<noteq> None then None
      else if \<not> request_alloc env then Some (Inr (), mac, out)
      else case setkey_result env of
             Some r \<Rightarrow> Some (Inl r, mac, out)
           | None \<Rightarrow> (case seal c key iv (aead_ad seq iv) data of (ct, tag) \<Rightarrow> Some (Inr (), tag, ct)))"

definition aes_gcm_cipher_decrypt ::
  "aead \<Rightarrow> aead_env \<Rightarrow> byte list \<Rightarrow> byte list \<Rightarrow> byte list \<Rightarrow> byte list \<Rightarrow> nat \<Rightarrow> byte list
   \<Rightarrow> (unit result \<times> byte list) option" where
  "aes_gcm_cipher_decrypt c env data key iv mac seq out =
     (if lock_interrupted env \<noteq> None then None
      else if \<not> request_alloc env then Some (Inr (), out)
      else case setkey_result env of
             Some r \<Rightarrow> Some (Inl r, out)
           | None \<Rightarrow> (case unseal c key iv (aead_ad seq iv) data mac of
                       None \<Rightarrow> Some (Inl EBADMSG, residue c key iv (aead_ad seq iv) data mac)
                     | Some d \<Rightarrow> Some (Inr (), d)))"

text \<open>The calls of the other components, in an environment without faults.\<close>

definition encrypt :: "aead \<Rightarrow> byte list \<Rightarrow> byte list \<Rightarrow> nat \<Rightarrow> byte list \<Rightarrow> byte list \<times> byte list" where
  "encrypt c key iv seq data =
     (case aes_gcm_cipher_encrypt c no_faults data key iv [] seq [] of
        Some (_, tag, ct) \<Rightarrow> (ct, tag) | None \<Rightarrow> ([], []))"

definition decrypt :: "aead \<Rightarrow> byte list \<Rightarrow> byte list \<Rightarrow> byte list \<Rightarrow> nat \<Rightarrow> byte list \<Rightarrow> unit result \<times> byte list" where
  "decrypt c key iv mac seq data =
     (case aes_gcm_cipher_decrypt c no_faults data key iv mac seq [] of
        Some (r, d) \<Rightarrow> (r, d) | None \<Rightarrow> (Inr (), []))"

text \<open>Hexadecimal printing of the debug messages: \<open>n\<close> digits.\<close>

definition hex_digit :: "nat \<Rightarrow> char" where
  "hex_digit d = ''0123456789ABCDEF'' ! d"

definition btox :: "byte list \<Rightarrow> nat \<Rightarrow> string" where
  "btox bb n = map (\<lambda>i. hex_digit (unat (take_bit 4 (drop_bit ((1 - i mod 2) * 4) (bb ! (i div 2)))))) [0..<n]"

section \<open>Laws\<close>

lemma encrypt_seal: "encrypt c key iv seq data = seal c key iv (aead_ad seq iv) data"
  by (simp add: encrypt_def aes_gcm_cipher_encrypt_def no_faults_def split_beta)

lemma decrypt_unseal: "decrypt c key iv mac seq data = (r, d) \<Longrightarrow>
   unseal c key iv (aead_ad seq iv) data mac = (if r = Inr () then Some d else None)"
  by (auto simp: decrypt_def aes_gcm_cipher_decrypt_def no_faults_def split: option.splits)

lemma decrypt_iff: "aead_ok c \<Longrightarrow> decrypt c key iv mac seq ct = (Inr (), d) \<longleftrightarrow> encrypt c key iv seq d = (ct, mac)"
  by (auto simp: encrypt_seal decrypt_def aes_gcm_cipher_decrypt_def no_faults_def unseal_iff [symmetric] split: option.splits)

lemma length_encrypt:
  assumes "aead_ok c" "encrypt c key iv seq d = (ct, mac)"
  shows "length ct = length d" "length mac = AES_GCM_AUTH_SIZE"
  using seal_length [OF assms(1) assms(2) [unfolded encrypt_seal]] by auto

lemma decrypt_encrypt: "aead_ok c \<Longrightarrow> decrypt c key iv (snd (encrypt c key iv seq d)) seq (fst (encrypt c key iv seq d)) = (Inr (), d)"
  by (simp add: decrypt_iff)

text \<open>A cipher that satisfies the laws, for witnesses: it does not hide anything, and its tag binds
  nothing.\<close>

definition null_cipher :: aead where
  "null_cipher = \<lparr>seal = (\<lambda>k iv ad d. (d, replicate AES_GCM_AUTH_SIZE 0)),
     unseal = (\<lambda>k iv ad ct tag. if tag = replicate AES_GCM_AUTH_SIZE 0 then Some ct else None),
     residue = (\<lambda>k iv ad ct tag. ct)\<rparr>"

lemma null_cipher_ok: "aead_ok null_cipher"
  by (auto simp: aead_ok_def null_cipher_def)

section \<open>Properties\<close>




end
