(* ===== verification/Bit_Node.thy ===== *)
theory Bit_Node
  imports Crypto
begin

text \<open>
  The nodes of a block index table file (\<open>lsm_tree.h\<close>, first part of \<open>lsm_tree.c\<close>): the
  packed structures as records, their bytes on the index device, the sealed form
  (\<open>bit_node_encode\<close>, \<open>bit_node_decode\<close>), and the sizes computed from the number of records.
\<close>

section \<open>Constants\<close>

definition DEFAULT_LSM_TREE_NR_DISK_LEVEL :: nat where "DEFAULT_LSM_TREE_NR_DISK_LEVEL = 2"
definition DEFAULT_LSM_LEVEL0_NR_FILE :: nat where "DEFAULT_LSM_LEVEL0_NR_FILE = 4"
definition DEFAULT_LSM_FILE_CAPACITY :: nat where "DEFAULT_LSM_FILE_CAPACITY = 1048576"
definition DEFAULT_BIT_DEGREE :: nat where "DEFAULT_BIT_DEGREE = 4"
definition BIT_LEAF_LEN :: nat where "BIT_LEAF_LEN = 8"

text \<open>The sizes of the packed structures, from their members: a \<open>bool : 1\<close> takes a byte.\<close>

definition sizeof_record :: nat where
  "sizeof_record = 8 + AES_GCM_AUTH_SIZE + AES_GCM_KEY_SIZE + AES_GCM_IV_SIZE"
definition sizeof_bit_pointer :: nat where
  "sizeof_bit_pointer = 8 + AES_GCM_KEY_SIZE + AES_GCM_IV_SIZE"
definition sizeof_bit_child :: nat where
  "sizeof_bit_child = 1 + 4 + sizeof_bit_pointer"
definition BIT_LEAF_SIZE :: nat where
  "BIT_LEAF_SIZE = 8 + BIT_LEAF_LEN * 4 + BIT_LEAF_LEN * sizeof_record + sizeof_bit_pointer"
definition BIT_INNER_SIZE :: nat where
  "BIT_INNER_SIZE = 8 + DEFAULT_BIT_DEGREE * sizeof_bit_child"
definition BIT_NODE_UNION_SIZE :: nat where
  "BIT_NODE_UNION_SIZE = max BIT_LEAF_SIZE BIT_INNER_SIZE"
definition BIT_NODE_SIZE :: nat where
  "BIT_NODE_SIZE = 1 + BIT_NODE_UNION_SIZE + AES_GCM_AUTH_SIZE"
definition BIT_LEAF_NODE_SIZE :: nat where
  "BIT_LEAF_NODE_SIZE = BIT_NODE_SIZE - BIT_NODE_UNION_SIZE + BIT_LEAF_SIZE"
definition BIT_INNER_NODE_SIZE :: nat where
  "BIT_INNER_NODE_SIZE = BIT_NODE_SIZE - BIT_NODE_UNION_SIZE + BIT_INNER_SIZE"
definition BIT_BLOOM_FILTER_SIZE :: nat where
  "BIT_BLOOM_FILTER_SIZE = DEFAULT_LSM_FILE_CAPACITY * 2"

lemmas size_defs = AES_GCM_KEY_SIZE_def AES_GCM_IV_SIZE_def AES_GCM_AUTH_SIZE_def
  DEFAULT_BIT_DEGREE_def BIT_LEAF_LEN_def sizeof_record_def sizeof_bit_pointer_def
  sizeof_bit_child_def BIT_LEAF_SIZE_def BIT_INNER_SIZE_def BIT_NODE_UNION_SIZE_def
  BIT_NODE_SIZE_def BIT_LEAF_NODE_SIZE_def BIT_INNER_NODE_SIZE_def

lemma node_sizes: "BIT_NODE_SIZE = 509" "BIT_LEAF_NODE_SIZE = 509" "BIT_INNER_NODE_SIZE = 189"
  by (simp_all add: size_defs)

section \<open>Structures\<close>

record bit_pointer =
  bp_pos :: nat
  bp_key :: "byte list"
  bp_iv :: "byte list"

record bit_child =
  bc_is_leaf :: bool
  bc_key :: u32
  bc_pointer :: bit_pointer

record bit_leaf =
  nr_record :: nat
  lf_keys :: "u32 list"
  lf_records :: "index_record list"
  lf_next :: bit_pointer

record bit_inner =
  nr_child :: nat
  in_children :: "bit_child list"

text \<open>The flag \<open>is_leaf\<close> and the union; the tag is the tail of the sealed bytes.\<close>

datatype bit_node = BitLeaf bit_leaf | BitInner bit_inner

fun bn_is_leaf :: "bit_node \<Rightarrow> bool" where
  "bn_is_leaf (BitLeaf _) = True"
| "bn_is_leaf (BitInner _) = False"

definition zero_pointer :: bit_pointer where
  "zero_pointer = \<lparr>bp_pos = 0, bp_key = replicate AES_GCM_KEY_SIZE 0, bp_iv = replicate AES_GCM_IV_SIZE 0\<rparr>"

definition zero_record :: index_record where
  "zero_record = \<lparr>pba = 0, rmac = replicate AES_GCM_AUTH_SIZE 0, rkey = replicate AES_GCM_KEY_SIZE 0,
     riv = replicate AES_GCM_IV_SIZE 0\<rparr>"

definition zero_child :: bit_child where
  "zero_child = \<lparr>bc_is_leaf = False, bc_key = 0, bc_pointer = zero_pointer\<rparr>"

definition zero_leaf :: bit_leaf where
  "zero_leaf = \<lparr>nr_record = 0, lf_keys = replicate BIT_LEAF_LEN 0,
     lf_records = replicate BIT_LEAF_LEN zero_record, lf_next = zero_pointer\<rparr>"

definition zero_node :: bit_node where
  "zero_node = BitInner \<lparr>nr_child = 0, in_children = replicate DEFAULT_BIT_DEGREE zero_child\<rparr>"

section \<open>Bytes\<close>

definition record_bytes :: "index_record \<Rightarrow> byte list" where
  "record_bytes x = le_bytes 8 (pba x) @ rmac x @ rkey x @ riv x"

definition pointer_bytes :: "bit_pointer \<Rightarrow> byte list" where
  "pointer_bytes p = le_bytes 8 (bp_pos p) @ bp_key p @ bp_iv p"

definition child_bytes :: "bit_child \<Rightarrow> byte list" where
  "child_bytes x = (if bc_is_leaf x then 1 else 0) # le_bytes 4 (unat (bc_key x)) @ pointer_bytes (bc_pointer x)"

definition leaf_bytes :: "bit_leaf \<Rightarrow> byte list" where
  "leaf_bytes l = le_bytes 8 (nr_record l) @ concat (map (\<lambda>k. le_bytes 4 (unat k)) (lf_keys l)) @
     concat (map record_bytes (lf_records l)) @ pointer_bytes (lf_next l)"

definition inner_bytes :: "bit_inner \<Rightarrow> byte list" where
  "inner_bytes i = le_bytes 8 (nr_child i) @ concat (map child_bytes (in_children i))"

fun node_bytes :: "bit_node \<Rightarrow> byte list" where
  "node_bytes (BitLeaf l) = 1 # leaf_bytes l"
| "node_bytes (BitInner i) = 0 # inner_bytes i"

primrec chunks :: "nat \<Rightarrow> nat \<Rightarrow> 'a list \<Rightarrow> 'a list list" where
  "chunks n 0 xs = []"
| "chunks n (Suc k) xs = take n xs # chunks n k (drop n xs)"

definition bytes_u32 :: "byte list \<Rightarrow> u32" where
  "bytes_u32 bs = word_of_nat (le_nat bs)"

definition bytes_record :: "byte list \<Rightarrow> index_record" where
  "bytes_record bs = \<lparr>pba = le_nat (slice 0 8 bs), rmac = slice 8 AES_GCM_AUTH_SIZE bs,
     rkey = slice (8 + AES_GCM_AUTH_SIZE) AES_GCM_KEY_SIZE bs,
     riv = slice (8 + AES_GCM_AUTH_SIZE + AES_GCM_KEY_SIZE) AES_GCM_IV_SIZE bs\<rparr>"

definition bytes_pointer :: "byte list \<Rightarrow> bit_pointer" where
  "bytes_pointer bs = \<lparr>bp_pos = le_nat (slice 0 8 bs), bp_key = slice 8 AES_GCM_KEY_SIZE bs,
     bp_iv = slice (8 + AES_GCM_KEY_SIZE) AES_GCM_IV_SIZE bs\<rparr>"

definition bytes_child :: "byte list \<Rightarrow> bit_child" where
  "bytes_child bs = \<lparr>bc_is_leaf = bit (bs ! 0) 0, bc_key = bytes_u32 (slice 1 4 bs),
     bc_pointer = bytes_pointer (slice 5 sizeof_bit_pointer bs)\<rparr>"

text \<open>The members of the union, read past the byte of the flag.\<close>

definition bytes_leaf :: "byte list \<Rightarrow> bit_leaf" where
  "bytes_leaf bs =
     \<lparr>nr_record = le_nat (slice 1 8 bs),
      lf_keys = map bytes_u32 (chunks 4 BIT_LEAF_LEN (drop 9 bs)),
      lf_records = map bytes_record (chunks sizeof_record BIT_LEAF_LEN (drop (9 + BIT_LEAF_LEN * 4) bs)),
      lf_next = bytes_pointer (slice (9 + BIT_LEAF_LEN * 4 + BIT_LEAF_LEN * sizeof_record) sizeof_bit_pointer bs)\<rparr>"

definition bytes_inner :: "byte list \<Rightarrow> bit_inner" where
  "bytes_inner bs =
     \<lparr>nr_child = le_nat (slice 1 8 bs),
      in_children = map bytes_child (chunks sizeof_bit_child DEFAULT_BIT_DEGREE (drop 9 bs))\<rparr>"

section \<open>Sealing a node\<close>

definition node_data_len :: "bool \<Rightarrow> nat" where
  "node_data_len is_leaf =
     (if is_leaf then BIT_LEAF_NODE_SIZE - AES_GCM_AUTH_SIZE else BIT_INNER_NODE_SIZE - AES_GCM_AUTH_SIZE)"

text \<open>The bytes of the node after \<open>bit_node_encode\<close>: ciphertext, then tag.\<close>

definition bit_node_encode :: "aead \<Rightarrow> bit_node \<Rightarrow> byte list \<Rightarrow> byte list \<Rightarrow> byte list" where
  "bit_node_encode c node key iv =
     (case encrypt c key iv 0 (take (node_data_len (bn_is_leaf node)) (node_bytes node)) of (ct, mac) \<Rightarrow> ct @ mac)"

definition bit_node_decode :: "aead \<Rightarrow> byte list \<Rightarrow> bool \<Rightarrow> byte list \<Rightarrow> byte list \<Rightarrow> unit result \<times> byte list" where
  "bit_node_decode c data is_leaf key iv =
     (let len = node_data_len is_leaf
      in decrypt c key iv (slice len AES_GCM_AUTH_SIZE data) 0 (take len data))"

section \<open>Sizes of a file\<close>

definition nr_leaf :: "nat \<Rightarrow> nat" where
  "nr_leaf nr = (if nr mod BIT_LEAF_LEN \<noteq> 0 then nr div BIT_LEAF_LEN + 1 else nr div BIT_LEAF_LEN)"

text \<open>The two loops multiply \<open>size\<close> by the degree until it reaches the number of leaves; a
  degree below two never reaches it.\<close>

function bit_height_loop :: "nat \<Rightarrow> nat \<Rightarrow> nat \<Rightarrow> nat \<Rightarrow> nat option" where
  "bit_height_loop ht sz leaves degree =
     (if leaves \<le> sz then Some ht
      else if degree < 2 \<or> sz = 0 then None
      else bit_height_loop (ht + 1) (sz * degree) leaves degree)"
  by pat_completeness auto
termination
proof (relation "measure (\<lambda>(ht, sz, leaves, degree). leaves - sz)")
  fix ht sz leaves degree :: nat
  assume "\<not> leaves \<le> sz" "\<not> (degree < 2 \<or> sz = 0)"
  then have "sz < leaves" "sz < sz * degree" by (simp_all add: not_le not_less)
  then have "leaves - sz * degree < leaves - sz" by (rule diff_less_mono2 [rotated])
  then show "((ht + 1, sz * degree, leaves, degree), ht, sz, leaves, degree)
      \<in> measure (\<lambda>(ht, sz, leaves, degree). leaves - sz)" by simp
qed simp

function bit_array_len_loop :: "nat \<Rightarrow> nat \<Rightarrow> nat \<Rightarrow> nat \<Rightarrow> nat option" where
  "bit_array_len_loop len sz leaves degree =
     (if leaves \<le> sz then Some len
      else if degree < 2 \<or> sz = 0 then None
      else bit_array_len_loop (len + sz) (sz * degree) leaves degree)"
  by pat_completeness auto
termination
proof (relation "measure (\<lambda>(len, sz, leaves, degree). leaves - sz)")
  fix len sz leaves degree :: nat
  assume "\<not> leaves \<le> sz" "\<not> (degree < 2 \<or> sz = 0)"
  then have "sz < leaves" "sz < sz * degree" by (simp_all add: not_le not_less)
  then have "leaves - sz * degree < leaves - sz" by (rule diff_less_mono2 [rotated])
  then show "((len + sz, sz * degree, leaves, degree), len, sz, leaves, degree)
      \<in> measure (\<lambda>(len, sz, leaves, degree). leaves - sz)" by simp
qed simp

declare bit_height_loop.simps [simp del] bit_array_len_loop.simps [simp del]

definition bit_height :: "nat \<Rightarrow> nat \<Rightarrow> nat option" where
  "bit_height nr degree = (if nr = 0 then Some 0 else bit_height_loop 1 1 (nr_leaf nr) degree)"

definition bit_array_len :: "nat \<Rightarrow> nat \<Rightarrow> nat option" where
  "bit_array_len nr degree =
     (if nr = 0 then Some 0
      else map_option (\<lambda>len. len + nr_leaf nr) (bit_array_len_loop 0 1 (nr_leaf nr) degree))"

definition calculate_bit_size :: "nat \<Rightarrow> nat \<Rightarrow> nat option" where
  "calculate_bit_size nr degree =
     (if nr = 0 then Some 0
      else map_option (\<lambda>len. (len - nr_leaf nr) * BIT_INNER_NODE_SIZE + nr_leaf nr * BIT_LEAF_NODE_SIZE + BIT_BLOOM_FILTER_SIZE)
             (bit_array_len nr degree))"

section \<open>The layout is faithful\<close>

definition wf_pointer :: "bit_pointer \<Rightarrow> bool" where
  "wf_pointer p \<longleftrightarrow> bp_pos p < 2 ^ 64 \<and> length (bp_key p) = AES_GCM_KEY_SIZE \<and> length (bp_iv p) = AES_GCM_IV_SIZE"

definition wf_record :: "index_record \<Rightarrow> bool" where
  "wf_record x \<longleftrightarrow> pba x < 2 ^ 64 \<and> length (rmac x) = AES_GCM_AUTH_SIZE \<and> length (rkey x) = AES_GCM_KEY_SIZE \<and>
     length (riv x) = AES_GCM_IV_SIZE"

definition wf_leaf :: "bit_leaf \<Rightarrow> bool" where
  "wf_leaf l \<longleftrightarrow> nr_record l \<le> BIT_LEAF_LEN \<and> length (lf_keys l) = BIT_LEAF_LEN \<and>
     length (lf_records l) = BIT_LEAF_LEN \<and> list_all wf_record (lf_records l) \<and> wf_pointer (lf_next l)"

definition wf_inner :: "bit_inner \<Rightarrow> bool" where
  "wf_inner i \<longleftrightarrow> nr_child i \<le> DEFAULT_BIT_DEGREE \<and> length (in_children i) = DEFAULT_BIT_DEGREE \<and>
     list_all (\<lambda>x. wf_pointer (bc_pointer x)) (in_children i)"

fun wf_node :: "bit_node \<Rightarrow> bool" where
  "wf_node (BitLeaf l) = wf_leaf l"
| "wf_node (BitInner i) = wf_inner i"

lemma slice_append: "slice p n (xs @ ys) =
   (if p + n \<le> length xs then slice p n xs
    else if length xs \<le> p then slice (p - length xs) n ys
    else slice p n (xs @ ys))"
  by (simp add: slice_append_left slice_append_right)

lemma chunks_concat:
  "list_all (\<lambda>x. length x = n) xs \<Longrightarrow> chunks n (length xs) (concat xs @ rest) = xs"
  by (induction xs) auto

lemma chunks_map_concat:
  assumes "\<And>x. x \<in> set xs \<Longrightarrow> length (f x) = n \<and> g (f x) = x" "k = length xs"
  shows "map g (chunks n k (concat (map f xs) @ rest)) = xs"
proof -
  have "chunks n (length (map f xs)) (concat (map f xs) @ rest) = map f xs"
    by (rule chunks_concat) (simp add: list_all_iff assms)
  then show ?thesis using assms by (simp add: map_idI)
qed

lemma length_concat_map:
  "(\<And>x. x \<in> set xs \<Longrightarrow> length (f x) = n) \<Longrightarrow> length (concat (map f xs)) = length xs * n"
  by (induction xs) auto

lemma bytes_u32_bytes [simp]: "bytes_u32 (le_bytes 4 (unat k)) = k"
proof -
  have "unat k < 256 ^ 4" using unsigned_less [of k, where 'a = nat] by simp
  then show ?thesis by (simp add: bytes_u32_def)
qed

lemma pos_256: "(256 :: nat) ^ 8 = 2 ^ 64"
  by simp

lemma record_bytes_length: "wf_record x \<Longrightarrow> length (record_bytes x) = sizeof_record"
  by (simp add: wf_record_def record_bytes_def sizeof_record_def)

lemma bytes_record_bytes: "wf_record x \<Longrightarrow> bytes_record (record_bytes x) = x"
  by (simp add: wf_record_def record_bytes_def bytes_record_def slice_def pos_256 [symmetric] del: power_numeral)

lemma pointer_bytes_length: "wf_pointer p \<Longrightarrow> length (pointer_bytes p) = sizeof_bit_pointer"
  by (simp add: wf_pointer_def pointer_bytes_def sizeof_bit_pointer_def)

lemma bytes_pointer_bytes: "wf_pointer p \<Longrightarrow> bytes_pointer (pointer_bytes p) = p"
  by (simp add: wf_pointer_def pointer_bytes_def bytes_pointer_def slice_def pos_256 [symmetric] del: power_numeral)

lemma child_bytes_length: "wf_pointer (bc_pointer x) \<Longrightarrow> length (child_bytes x) = sizeof_bit_child"
  by (simp add: child_bytes_def sizeof_bit_child_def pointer_bytes_length)

lemma bytes_child_bytes: "wf_pointer (bc_pointer x) \<Longrightarrow> bytes_child (child_bytes x) = x"
  by (simp add: child_bytes_def bytes_child_def slice_def pointer_bytes_length bytes_pointer_bytes)

lemma leaf_bytes_length: "wf_leaf l \<Longrightarrow> length (leaf_bytes l) = BIT_LEAF_SIZE"
  by (simp add: wf_leaf_def leaf_bytes_def BIT_LEAF_SIZE_def list_all_iff pointer_bytes_length
      length_concat_map [where n = 4] length_concat_map [where n = sizeof_record] record_bytes_length)

lemma inner_bytes_length: "wf_inner i \<Longrightarrow> length (inner_bytes i) = BIT_INNER_SIZE"
  by (simp add: wf_inner_def inner_bytes_def BIT_INNER_SIZE_def list_all_iff
      length_concat_map [where n = sizeof_bit_child] child_bytes_length)

lemma bytes_inner_bytes:
  assumes "wf_inner i"
  shows "bytes_inner (0 # inner_bytes i) = i"
proof -
  have "map bytes_child (chunks sizeof_bit_child DEFAULT_BIT_DEGREE (concat (map child_bytes (in_children i)) @ [])) = in_children i"
    using assms by (intro chunks_map_concat) (auto simp: wf_inner_def list_all_iff child_bytes_length bytes_child_bytes)
  moreover have "nr_child i < 256 ^ 8" using assms by (simp add: wf_inner_def DEFAULT_BIT_DEGREE_def)
  ultimately show ?thesis
    by (simp add: bytes_inner_def inner_bytes_def slice_def del: power_numeral)
qed

lemma bytes_leaf_bytes:
  assumes "wf_leaf l"
  shows "bytes_leaf (1 # leaf_bytes l) = l"
proof -
  define K where "K = concat (map (\<lambda>k. le_bytes 4 (unat k)) (lf_keys l))"
  define R where "R = concat (map record_bytes (lf_records l))"
  define P where "P = pointer_bytes (lf_next l)"
  have wf: "length (lf_keys l) = BIT_LEAF_LEN" "length (lf_records l) = BIT_LEAF_LEN" "wf_pointer (lf_next l)"
    "\<And>x. x \<in> set (lf_records l) \<Longrightarrow> wf_record x" "nr_record l \<le> BIT_LEAF_LEN"
    using assms by (auto simp: wf_leaf_def list_all_iff)
  have len: "length K = BIT_LEAF_LEN * 4" "length R = BIT_LEAF_LEN * sizeof_record" "length P = sizeof_bit_pointer"
    using wf by (simp_all add: K_def R_def P_def length_concat_map [where n = 4]
        length_concat_map [where n = sizeof_record] record_bytes_length pointer_bytes_length)
  have bs: "1 # leaf_bytes l = (1 # le_bytes 8 (nr_record l)) @ K @ R @ P"
    by (simp add: leaf_bytes_def K_def R_def P_def)
  have d: "drop 9 (1 # leaf_bytes l) = K @ R @ P"
    "drop (9 + BIT_LEAF_LEN * 4) (1 # leaf_bytes l) = R @ P"
    "drop (9 + BIT_LEAF_LEN * 4 + BIT_LEAF_LEN * sizeof_record) (1 # leaf_bytes l) = P"
    unfolding bs by (simp_all add: len size_defs)
  have "map bytes_u32 (chunks 4 BIT_LEAF_LEN (K @ R @ P)) = lf_keys l"
    unfolding K_def by (rule chunks_map_concat) (simp_all add: wf)
  moreover have "map bytes_record (chunks sizeof_record BIT_LEAF_LEN (R @ P)) = lf_records l"
    unfolding R_def by (rule chunks_map_concat) (simp_all add: wf record_bytes_length bytes_record_bytes)
  moreover have "nr_record l < 256 ^ 8" using wf(5) by (simp add: BIT_LEAF_LEN_def)
  moreover have "slice 1 8 (1 # leaf_bytes l) = le_bytes 8 (nr_record l)"
    unfolding bs by (simp add: slice_def)
  moreover have "bytes_pointer (slice (9 + BIT_LEAF_LEN * 4 + BIT_LEAF_LEN * sizeof_record) sizeof_bit_pointer (1 # leaf_bytes l)) =
      lf_next l"
    unfolding slice_def d by (simp add: P_def pointer_bytes_length wf bytes_pointer_bytes)
  moreover have "le_nat (le_bytes 8 (nr_record l)) = nr_record l" using calculation(3) by simp
  ultimately show ?thesis unfolding bytes_leaf_def d by simp
qed

lemma node_bytes_length: "wf_node n \<Longrightarrow> length (node_bytes n) = node_data_len (bn_is_leaf n)"
  by (cases n) (simp_all add: leaf_bytes_length inner_bytes_length node_data_len_def size_defs)

lemma encode_parts:
  assumes "aead_ok c" "wf_node n"
  obtains ct mac where "encrypt c key iv 0 (node_bytes n) = (ct, mac)" "bit_node_encode c n key iv = ct @ mac"
    "length ct = node_data_len (bn_is_leaf n)" "length mac = AES_GCM_AUTH_SIZE"
proof -
  obtain ct mac where e: "encrypt c key iv 0 (node_bytes n) = (ct, mac)" by fastforce
  note len = length_encrypt [OF assms(1) e] node_bytes_length [OF assms(2)]
  show thesis by (rule that [OF e]) (simp_all add: bit_node_encode_def e len)
qed

lemma length_bit_node_encode:
  assumes "aead_ok c" "wf_node n"
  shows "length (bit_node_encode c n key iv) = (if bn_is_leaf n then BIT_LEAF_NODE_SIZE else BIT_INNER_NODE_SIZE)"
  using assms by (rule encode_parts [where key = key and iv = iv]) (simp add: node_data_len_def size_defs)

lemma encode_decode:
  assumes "aead_ok c" "wf_node n" "take (length (bit_node_encode c n key iv)) data = bit_node_encode c n key iv"
  shows "bit_node_decode c data (bn_is_leaf n) key iv = (Inr (), node_bytes n)"
proof (rule encode_parts [OF assms(1,2), of key iv])
  fix ct mac
  assume e: "encrypt c key iv 0 (node_bytes n) = (ct, mac)" and enc: "bit_node_encode c n key iv = ct @ mac"
    and len: "length ct = node_data_len (bn_is_leaf n)" "length mac = AES_GCM_AUTH_SIZE"
  have "take (length ct) data = ct" "slice (length ct) (length mac) data = mac"
    using arg_cong [OF assms(3), of "take (length ct)"] arg_cong [OF assms(3), of "drop (length ct)"]
    by (simp_all add: enc slice_def drop_take)
  then show ?thesis
    using e assms(1) by (simp add: bit_node_decode_def decrypt_iff len [symmetric] Let_def)
qed

end
