(* ===== verification/Superblock.thy ===== *)
theory Superblock
  imports Checkpoint Bit_Node
begin

unbundle bit_operations_syntax

text \<open>
  The superblock and the layout of the metadata device, \<open>metadata.c\<close> lines 9 to 218. The
  structure is packed and the target little-endian, so the bytes of the structure in memory,
  over which the checksum runs, are the bytes on disk.
\<close>

section \<open>The structure\<close>

definition SUPERBLOCK_LOCATION :: nat where "SUPERBLOCK_LOCATION = 0"
definition SUPERBLOCK_MAGIC :: u64 where "SUPERBLOCK_MAGIC = 0x22946"
definition SUPERBLOCK_CSUM_XOR :: u32 where "SUPERBLOCK_CSUM_XOR = 0x3828"

record superblock =
  csum :: u32
  magic :: u64
  blocks_per_seg :: u32
  nr_segment :: u64
  common_ratio :: u32
  nr_disk_level :: u32
  max_disk_level_capacity :: u64
  index_region_start :: u64
  journal_size :: u32
  nr_journal :: u64
  journal_region_start :: u64
  seg_validity_table_start :: u64
  data_seg_table_start :: u64
  reverse_index_table_start :: u64
  block_index_table_catalogue_start :: u64

definition le32 :: "u32 \<Rightarrow> byte list" where "le32 w = le_bytes 4 (unat w)"
definition le64 :: "u64 \<Rightarrow> byte list" where "le64 w = le_bytes 8 (unat w)"
definition get32 :: "nat \<Rightarrow> byte list \<Rightarrow> u32" where "get32 off bs = of_nat (le_nat (slice off 4 bs))"
definition get64 :: "nat \<Rightarrow> byte list \<Rightarrow> u64" where "get64 off bs = of_nat (le_nat (slice off 8 bs))"

text \<open>The bytes from \<open>magic\<close> on: \<open>SUPERBLOCK_ON_DISK_SIZE\<close> of them.\<close>

definition superblock_body :: "superblock \<Rightarrow> byte list" where
  "superblock_body this =
     le64 (magic this) @ le32 (blocks_per_seg this) @ le64 (nr_segment this) @
     le32 (common_ratio this) @ le32 (nr_disk_level this) @ le64 (max_disk_level_capacity this) @
     le64 (index_region_start this) @ le32 (journal_size this) @ le64 (nr_journal this) @
     le64 (journal_region_start this) @ le64 (seg_validity_table_start this) @
     le64 (data_seg_table_start this) @ le64 (reverse_index_table_start this) @
     le64 (block_index_table_catalogue_start this)"

definition SUPERBLOCK_ON_DISK_SIZE :: nat where "SUPERBLOCK_ON_DISK_SIZE = 96"

definition superblock_checksum :: "superblock \<Rightarrow> u32" where
  "superblock_checksum this = dm_bm_checksum (superblock_body this) SUPERBLOCK_CSUM_XOR"

section \<open>Operations\<close>

definition superblock_read :: "superblock \<Rightarrow> block_manager \<Rightarrow> superblock result" where
  "superblock_read this bm =
     (case dm_bm_read_lock bm SUPERBLOCK_LOCATION None of
        (Inl r, bm') \<Rightarrow> Inl ENODATA
      | (Inr _, bm') \<Rightarrow>
          let disk = dm_block_data bm' SUPERBLOCK_LOCATION
          in Inr \<lparr>csum = get32 0 disk, magic = get64 4 disk, blocks_per_seg = get32 12 disk,
                 nr_segment = get64 16 disk, common_ratio = get32 24 disk, nr_disk_level = get32 28 disk,
                 max_disk_level_capacity = get64 32 disk, index_region_start = get64 40 disk,
                 journal_size = get32 48 disk, nr_journal = get64 52 disk,
                 journal_region_start = get64 60 disk, seg_validity_table_start = get64 68 disk,
                 data_seg_table_start = get64 76 disk, reverse_index_table_start = get64 84 disk,
                 block_index_table_catalogue_start = get64 92 disk\<rparr>)"

definition superblock_write :: "superblock \<Rightarrow> block_manager \<Rightarrow> unit result \<times> block_manager" where
  "superblock_write this bm =
     (case dm_bm_write_lock bm SUPERBLOCK_LOCATION None of
        (Inl r, bm') \<Rightarrow> (Inl EAGAIN, bm')
      | (Inr _, bm') \<Rightarrow>
          dm_bm_flush (dm_bm_unlock (dm_block_write bm' SUPERBLOCK_LOCATION 0
            (le32 (superblock_checksum this) @ superblock_body this)) SUPERBLOCK_LOCATION))"

definition superblock_validate :: "superblock \<Rightarrow> bool" where
  "superblock_validate this \<longleftrightarrow> magic this = SUPERBLOCK_MAGIC \<and> superblock_checksum this = csum this"

definition LSM_TREE_DISK_LEVEL_COMMON_RATIO :: nat where "LSM_TREE_DISK_LEVEL_COMMON_RATIO = 10"

definition bytes_to_block :: "nat \<Rightarrow> nat \<Rightarrow> nat" where
  "bytes_to_block bytes block_size = (if bytes = 0 then 0 else (bytes - 1) div block_size + 1)"

fun total_bit_loop :: "nat \<Rightarrow> nat \<Rightarrow> nat \<Rightarrow> nat" where
  "total_bit_loop 0 ratio cap = 0"
| "total_bit_loop (Suc i) ratio cap =
     (if cap \<noteq> 0 then (cap - 1) div DEFAULT_LSM_FILE_CAPACITY + 1 else 0)
     + total_bit_loop i ratio (cap div ratio)"

definition total_bit :: "nat \<Rightarrow> nat \<Rightarrow> nat \<Rightarrow> nat" where
  "total_bit nr_level ratio max_capacity =
     total_bit_loop (nr_level - 1) ratio max_capacity + DEFAULT_LSM_LEVEL0_NR_FILE"

definition extra_bit :: "nat \<Rightarrow> nat" where
  "extra_bit max_capacity = total_bit 2 LSM_TREE_DISK_LEVEL_COMMON_RATIO max_capacity"

text \<open>The size of a file of full cap; the loops of \<open>calculate_bit_size\<close> end for this degree.\<close>

definition lsm_file_size :: nat where
  "lsm_file_size = (case calculate_bit_size DEFAULT_LSM_FILE_CAPACITY DEFAULT_BIT_DEGREE of Some n \<Rightarrow> n | None \<Rightarrow> 0)"

definition index_region_blocks :: "nat \<Rightarrow> nat \<Rightarrow> nat \<Rightarrow> nat" where
  "index_region_blocks nr_level ratio max_capacity =
     bytes_to_block ((total_bit nr_level ratio max_capacity + extra_bit max_capacity) * lsm_file_size)
       SWORNDISK_METADATA_BLOCK_SIZE"

definition journal_region_blocks :: "nat \<Rightarrow> nat \<Rightarrow> nat" where
  "journal_region_blocks nr sz = disk_array_blocks nr sz SWORNDISK_METADATA_BLOCK_SIZE"

definition seg_validity_table_blocks :: "nat \<Rightarrow> nat" where
  "seg_validity_table_blocks nr =
     (if nr = 0 then 0
      else (((nr - 1) div BITS_PER_LONG + 1) * 8 - 1) div SWORNDISK_METADATA_BLOCK_SIZE + 1)"

definition data_seg_table_blocks :: "nat \<Rightarrow> nat" where
  "data_seg_table_blocks nr = disk_array_blocks nr DST_ENTRY_SIZE SWORNDISK_METADATA_BLOCK_SIZE"

definition reverse_index_table_blocks :: "nat \<Rightarrow> nat \<Rightarrow> nat" where
  "reverse_index_table_blocks nr per_seg = disk_array_blocks (nr * per_seg) 8 SWORNDISK_METADATA_BLOCK_SIZE"

text \<open>The structure with its pointers has 140 bytes, so it takes one block.\<close>

definition SUPERBLOCK_BLOCKS :: nat where "SUPERBLOCK_BLOCKS = (140 - 1) div SWORNDISK_METADATA_BLOCK_SIZE + 1"

definition superblock_layout :: "nat \<Rightarrow> superblock \<Rightarrow> superblock" where
  "superblock_layout NR_SEGMENT this =
     (let cap = NR_SEGMENT * BLOCKS_PER_SEGMENT;
          index_start = SUPERBLOCK_LOCATION + SUPERBLOCK_BLOCKS;
          journal_start = index_start + index_region_blocks DEFAULT_LSM_TREE_NR_DISK_LEVEL
                            LSM_TREE_DISK_LEVEL_COMMON_RATIO cap;
          svt_start = journal_start + journal_region_blocks 0 0;
          dst_start = svt_start + seg_validity_table_blocks NR_SEGMENT;
          rit_start = dst_start + data_seg_table_blocks NR_SEGMENT;
          bitc_start = rit_start + reverse_index_table_blocks NR_SEGMENT BLOCKS_PER_SEGMENT
      in \<lparr>csum = csum this, magic = SUPERBLOCK_MAGIC, blocks_per_seg = of_nat BLOCKS_PER_SEGMENT,
          nr_segment = of_nat NR_SEGMENT, common_ratio = of_nat LSM_TREE_DISK_LEVEL_COMMON_RATIO,
          nr_disk_level = of_nat DEFAULT_LSM_TREE_NR_DISK_LEVEL, max_disk_level_capacity = of_nat cap,
          index_region_start = of_nat index_start, journal_size = 0, nr_journal = 0,
          journal_region_start = of_nat journal_start, seg_validity_table_start = of_nat svt_start,
          data_seg_table_start = of_nat dst_start, reverse_index_table_start = of_nat rit_start,
          block_index_table_catalogue_start = of_nat bitc_start\<rparr>)"

text \<open>The result of the final write is ignored. The flag is \<open>should_format\<close>.\<close>

definition superblock_init ::
  "nat \<Rightarrow> superblock \<Rightarrow> block_manager \<Rightarrow> (superblock \<times> bool) result \<times> block_manager" where
  "superblock_init NR_SEGMENT garbage bm =
     (case superblock_read garbage bm of
        Inl r \<Rightarrow> (Inl r, bm)
      | Inr this \<Rightarrow>
          if superblock_validate this then (Inr (this, False), bm)
          else let this' = superblock_layout NR_SEGMENT this
               in (Inr (this', True), snd (superblock_write this' bm)))"

definition superblock_create ::
  "bool \<Rightarrow> nat \<Rightarrow> superblock \<Rightarrow> block_manager \<Rightarrow> (superblock \<times> bool) option \<times> block_manager" where
  "superblock_create ok NR_SEGMENT garbage bm =
     (if \<not> ok then (None, bm)
      else case superblock_init NR_SEGMENT garbage bm of
             (Inl r, bm') \<Rightarrow> (None, bm')
           | (Inr x, bm') \<Rightarrow> (Some x, bm'))"

section \<open>What is written is read\<close>

lemma length_le32 [simp]: "length (le32 w) = 4" by (simp add: le32_def)
lemma length_le64 [simp]: "length (le64 w) = 8" by (simp add: le64_def)

lemma length_superblock_body: "length (superblock_body this) = SUPERBLOCK_ON_DISK_SIZE"
  by (simp add: superblock_body_def SUPERBLOCK_ON_DISK_SIZE_def)

lemma le32_inv [simp]: "word_of_nat (le_nat (le32 w)) = (w :: u32)"
proof -
  have "unat w < 256 ^ 4" using unsigned_less [of w, where 'a = nat] by simp
  then show ?thesis by (simp add: le32_def)
qed

lemma le64_inv [simp]: "word_of_nat (le_nat (le64 w)) = (w :: u64)"
proof -
  have "unat w < 256 ^ 8" using unsigned_less [of w, where 'a = nat] by simp
  then show ?thesis by (simp add: le64_def)
qed

definition decode_superblock :: "byte list \<Rightarrow> superblock" where
  "decode_superblock disk =
     \<lparr>csum = get32 0 disk, magic = get64 4 disk, blocks_per_seg = get32 12 disk,
      nr_segment = get64 16 disk, common_ratio = get32 24 disk, nr_disk_level = get32 28 disk,
      max_disk_level_capacity = get64 32 disk, index_region_start = get64 40 disk,
      journal_size = get32 48 disk, nr_journal = get64 52 disk,
      journal_region_start = get64 60 disk, seg_validity_table_start = get64 68 disk,
      data_seg_table_start = get64 76 disk, reverse_index_table_start = get64 84 disk,
      block_index_table_catalogue_start = get64 92 disk\<rparr>"

lemma decode_superblock_bytes:
  "decode_superblock ((le32 c @ superblock_body this) @ rest) = this\<lparr>csum := c\<rparr>"
  by (simp add: decode_superblock_def superblock_body_def get32_def get64_def slice_def)

lemma superblock_read_ok: "bm_ok bm \<Longrightarrow> superblock_read g bm = Inr (decode_superblock (bm_buf bm SUPERBLOCK_LOCATION))"
  by (simp add: superblock_read_def read_lock_ok dm_block_data_def decode_superblock_def Let_def)

lemma dm_bm_flush_ok:
  assumes "bm_ok bm"
  obtains bm' where "dm_bm_flush bm = (Inr (), bm')" "bm_buf bm' = bm_buf bm" "bm_ok bm'" "bm_block_size bm' = bm_block_size bm"
    "\<forall>b \<in> bm_dirty bm. bm_disk bm' b = bm_buf bm b"
  using assms by (intro that [of "snd (dm_bm_flush bm)"])
    (auto simp: dm_bm_flush_def bm_ok_def dm_bm_is_read_only_def dm_block_manager_write_callback_def Let_def)

lemma superblock_write_ok:
  assumes "bm_ok bm" "bm_block_size bm = SWORNDISK_METADATA_BLOCK_SIZE" "superblock_write this bm = (r, bm')"
  shows "r = Inr ()" "bm_ok bm'" "bm_block_size bm' = bm_block_size bm" "b \<noteq> SUPERBLOCK_LOCATION \<Longrightarrow> bm_buf bm' b = bm_buf bm b"
    "decode_superblock (bm_buf bm' SUPERBLOCK_LOCATION) = this\<lparr>csum := superblock_checksum this\<rparr>"
    "bm_disk bm' SUPERBLOCK_LOCATION = bm_buf bm' SUPERBLOCK_LOCATION"
proof -
  let ?bs = "le32 (superblock_checksum this) @ superblock_body this"
  let ?bm = "bm_store bm SUPERBLOCK_LOCATION 0 ?bs"
  have ok: "bm_ok ?bm" using assms(1,2)
    by (intro bm_store_ok) (simp_all add: length_superblock_body SUPERBLOCK_ON_DISK_SIZE_def SWORNDISK_METADATA_BLOCK_SIZE_def)
  obtain bm2 where F: "dm_bm_flush ?bm = (Inr (), bm2)" "bm_buf bm2 = bm_buf ?bm" "bm_ok bm2" "bm_block_size bm2 = bm_block_size ?bm"
    "\<forall>b \<in> bm_dirty ?bm. bm_disk bm2 b = bm_buf ?bm b" by (rule dm_bm_flush_ok [OF ok]) (rule that)
  have "superblock_write this bm = (Inr (), bm2)"
    using assms(1) F(1) by (simp add: superblock_write_def write_lock_ok write_unlock_store)
  then have e: "r = Inr ()" "bm' = bm2" using assms(3) by simp_all
  show "r = Inr ()" "bm_ok bm'" "bm_block_size bm' = bm_block_size bm" "b \<noteq> SUPERBLOCK_LOCATION \<Longrightarrow> bm_buf bm' b = bm_buf bm b"
    "bm_disk bm' SUPERBLOCK_LOCATION = bm_buf bm' SUPERBLOCK_LOCATION"
    using e F by simp_all
  show "decode_superblock (bm_buf bm' SUPERBLOCK_LOCATION) = this\<lparr>csum := superblock_checksum this\<rparr>"
    unfolding e(2) F(2) bm_store_simps fun_upd_same overwrite_def take_0 append_Nil
    by (rule decode_superblock_bytes)
qed

lemma superblock_checksum_csum [simp]: "superblock_checksum (this\<lparr>csum := c\<rparr>) = superblock_checksum this"
  by (simp add: superblock_checksum_def superblock_body_def)

section \<open>The layout\<close>

text \<open>The regions of the metadata device, each as its first block and its number of blocks.\<close>

definition superblock_regions :: "superblock \<Rightarrow> (nat \<times> nat) list" where
  "superblock_regions this =
     [(SUPERBLOCK_LOCATION, SUPERBLOCK_BLOCKS),
      (unat (index_region_start this), index_region_blocks (unat (nr_disk_level this)) (unat (common_ratio this)) (unat (max_disk_level_capacity this))),
      (unat (seg_validity_table_start this), seg_validity_table_blocks (unat (nr_segment this))),
      (unat (data_seg_table_start this), data_seg_table_blocks (unat (nr_segment this))),
      (unat (reverse_index_table_start this), reverse_index_table_blocks (unat (nr_segment this)) (unat (blocks_per_seg this))),
      (unat (block_index_table_catalogue_start this), 0)]"

lemma lsm_file_size_value: "lsm_file_size = 85327809"
  by (simp add: lsm_file_size_def calculate_bit_size_def bit_array_len_def bit_array_len_loop.simps nr_leaf_def
      DEFAULT_LSM_FILE_CAPACITY_def DEFAULT_BIT_DEGREE_def BIT_LEAF_LEN_def node_sizes BIT_BLOOM_FILTER_SIZE_def)

lemma total_bit_two: "total_bit 2 ratio cap = (if cap \<noteq> 0 then (cap - 1) div DEFAULT_LSM_FILE_CAPACITY + 1 else 0) + DEFAULT_LSM_LEVEL0_NR_FILE"
  by (simp add: total_bit_def numeral_2_eq_2)

lemma layout_bounds:
  assumes "N \<le> 2 ^ 32"
  shows "N * BLOCKS_PER_SEGMENT \<le> 2 ^ 42"
    "index_region_blocks DEFAULT_LSM_TREE_NR_DISK_LEVEL LSM_TREE_DISK_LEVEL_COMMON_RATIO (N * BLOCKS_PER_SEGMENT) \<le> 2 ^ 40"
    "seg_validity_table_blocks N \<le> 2 ^ 40" "data_seg_table_blocks N \<le> 2 ^ 40" "reverse_index_table_blocks N BLOCKS_PER_SEGMENT \<le> 2 ^ 40"
proof -
  show c: "N * BLOCKS_PER_SEGMENT \<le> 2 ^ 42" using assms by (simp add: BLOCKS_PER_SEGMENT_def)
  let ?c = "N * BLOCKS_PER_SEGMENT"
  have "(?c - 1) div 1048576 \<le> 4194304" using c by simp
  then have t: "total_bit 2 LSM_TREE_DISK_LEVEL_COMMON_RATIO ?c \<le> 4194309"
    by (simp add: total_bit_two DEFAULT_LSM_FILE_CAPACITY_def DEFAULT_LSM_LEVEL0_NR_FILE_def)
  have "(total_bit 2 LSM_TREE_DISK_LEVEL_COMMON_RATIO ?c + extra_bit ?c) * lsm_file_size \<le> 8388618 * lsm_file_size"
    using t by (intro mult_le_mono1) (simp add: extra_bit_def)
  moreover have "bytes_to_block n 4096 \<le> 2 ^ 40" if "n \<le> 8388618 * lsm_file_size" for n
  proof -
    have "n - 1 \<le> 8388618 * lsm_file_size" using that by simp
    from div_le_mono [OF this, of 4096] show ?thesis by (simp add: bytes_to_block_def lsm_file_size_value)
  qed
  ultimately show "index_region_blocks DEFAULT_LSM_TREE_NR_DISK_LEVEL LSM_TREE_DISK_LEVEL_COMMON_RATIO ?c \<le> 2 ^ 40"
    unfolding index_region_blocks_def DEFAULT_LSM_TREE_NR_DISK_LEVEL_def SWORNDISK_METADATA_BLOCK_SIZE_def by blast
  have "(7 + (N - 1) div 64 * 8) div 4096 \<le> 7 + (N - 1) div 64 * 8" "(N - 1) div 64 \<le> N - 1" by (rule div_le_dividend)+
  then have "(7 + (N - 1) div 64 * 8) div 4096 < 2 ^ 40" using assms by simp
  then show "seg_validity_table_blocks N \<le> 2 ^ 40"
    by (simp add: seg_validity_table_blocks_def BITS_PER_LONG_def SWORNDISK_METADATA_BLOCK_SIZE_def)
  show "data_seg_table_blocks N \<le> 2 ^ 40" "reverse_index_table_blocks N BLOCKS_PER_SEGMENT \<le> 2 ^ 40"
    using assms c by (simp_all add: data_seg_table_blocks_def reverse_index_table_blocks_def
        disk_array_blocks_def BITS_PER_LONG_def SWORNDISK_METADATA_BLOCK_SIZE_def DST_ENTRY_SIZE_def)
qed

lemma unat_word_of_nat64: "n < 2 ^ 64 \<Longrightarrow> unat (word_of_nat n :: u64) = n"
  by (simp add: unat_of_nat)

lemma layout_regions:
  assumes "N \<le> 2 ^ 32"
  shows "superblock_regions (superblock_layout N this) =
    (let i = SUPERBLOCK_BLOCKS;
         s = i + index_region_blocks DEFAULT_LSM_TREE_NR_DISK_LEVEL LSM_TREE_DISK_LEVEL_COMMON_RATIO (N * BLOCKS_PER_SEGMENT);
         d = s + seg_validity_table_blocks N; r = d + data_seg_table_blocks N;
         b = r + reverse_index_table_blocks N BLOCKS_PER_SEGMENT
     in [(0, SUPERBLOCK_BLOCKS), (i, index_region_blocks DEFAULT_LSM_TREE_NR_DISK_LEVEL LSM_TREE_DISK_LEVEL_COMMON_RATIO (N * BLOCKS_PER_SEGMENT)),
         (s, seg_validity_table_blocks N), (d, data_seg_table_blocks N), (r, reverse_index_table_blocks N BLOCKS_PER_SEGMENT), (b, 0)])"
proof -
  note b = layout_bounds [OF assms]
  have n: "unat (word_of_nat N :: u64) = N" using assms by (intro unat_word_of_nat64) simp
  have c: "unat (word_of_nat (N * BLOCKS_PER_SEGMENT) :: u64) = N * BLOCKS_PER_SEGMENT" using b(1) by (intro unat_word_of_nat64) simp
  have p: "unat (word_of_nat BLOCKS_PER_SEGMENT :: u32) = BLOCKS_PER_SEGMENT"
    "unat (word_of_nat LSM_TREE_DISK_LEVEL_COMMON_RATIO :: u32) = LSM_TREE_DISK_LEVEL_COMMON_RATIO"
    "unat (word_of_nat DEFAULT_LSM_TREE_NR_DISK_LEVEL :: u32) = DEFAULT_LSM_TREE_NR_DISK_LEVEL"
    by (simp_all add: BLOCKS_PER_SEGMENT_def LSM_TREE_DISK_LEVEL_COMMON_RATIO_def DEFAULT_LSM_TREE_NR_DISK_LEVEL_def)
  have j: "journal_region_blocks 0 0 = 0" by (simp add: journal_region_blocks_def disk_array_blocks_def)
  have sb: "SUPERBLOCK_BLOCKS \<le> 2 ^ 40" by (simp add: SUPERBLOCK_BLOCKS_def SWORNDISK_METADATA_BLOCK_SIZE_def)
  show ?thesis using b sb
    by (simp only: superblock_regions_def superblock_layout_def Let_def superblock.select_convs n c p j SUPERBLOCK_LOCATION_def)
      (simp add: unat_word_of_nat64 del: of_nat_add)
qed

section \<open>Properties\<close>

text \<open>C24. The superblock survives: writing it succeeds and is durable, touches no other block, and
  reading gives back the structure with its checksum, which validates exactly when the magic
  number is right.\<close>

theorem superblock_write_read:
  assumes "bm_ok bm" "bm_block_size bm = SWORNDISK_METADATA_BLOCK_SIZE" "superblock_write this bm = (r, bm')"
  shows "r = Inr () \<and> superblock_read g bm' = Inr (this\<lparr>csum := superblock_checksum this\<rparr>) \<and>
    (superblock_validate (this\<lparr>csum := superblock_checksum this\<rparr>) \<longleftrightarrow> magic this = SUPERBLOCK_MAGIC) \<and>
    bm_disk bm' SUPERBLOCK_LOCATION = bm_buf bm' SUPERBLOCK_LOCATION \<and>
    (\<forall>b. b \<noteq> SUPERBLOCK_LOCATION \<longrightarrow> bm_buf bm' b = bm_buf bm b)"
  using superblock_write_ok [OF assms] by (simp add: superblock_read_ok superblock_validate_def)

definition sample_bm :: block_manager where
  "sample_bm = \<lparr>bm_block_size = SWORNDISK_METADATA_BLOCK_SIZE, bm_nr_blocks = 0, bm_read_only = False,
     bm_buf = (\<lambda>_. replicate SWORNDISK_METADATA_BLOCK_SIZE 0), bm_disk = (\<lambda>_. replicate SWORNDISK_METADATA_BLOCK_SIZE 0), bm_dirty = {},
     bm_fault = (\<lambda>_. None), bm_validator = (\<lambda>_. None), bm_write_locked = (\<lambda>_. False)\<rparr>"

lemma sample_bm_ok: "bm_ok sample_bm" "bm_block_size sample_bm = SWORNDISK_METADATA_BLOCK_SIZE"
  by (simp_all add: bm_ok_def sample_bm_def)

definition zero_superblock :: superblock where
  "zero_superblock = \<lparr>csum = 0, magic = 0, blocks_per_seg = 0, nr_segment = 0, common_ratio = 0, nr_disk_level = 0,
     max_disk_level_capacity = 0, index_region_start = 0, journal_size = 0, nr_journal = 0, journal_region_start = 0,
     seg_validity_table_start = 0, data_seg_table_start = 0, reverse_index_table_start = 0, block_index_table_catalogue_start = 0\<rparr>"

theorem superblock_write_read_witness:
  "superblock_read zero_superblock (snd (superblock_write (superblock_layout 100 zero_superblock) sample_bm)) =
     Inr ((superblock_layout 100 zero_superblock)\<lparr>csum := superblock_checksum (superblock_layout 100 zero_superblock)\<rparr>)"
  using superblock_write_read [OF sample_bm_ok surjective_pairing, of "superblock_layout 100 zero_superblock" zero_superblock] by simp





end
