(* ===== verification/Bit_Builder.thy ===== *)
theory Bit_Builder
  imports Bit_Node Bloom_Filter
begin

text \<open>
  The builder of a block index table file (\<open>bit_builder_*\<close> of \<open>lsm_tree.c\<close>). Records are added
  in key order; leaves and inner nodes are sealed into a buffer that is flushed to the index
  device when it is nearly full, so file and buffer together are an append-only log. The context
  holds, per height, the nodes that have no parent yet. An access beyond the context is \<open>None\<close>;
  allocations succeed.
\<close>

definition DEFAULT_LSM_FILE_BUILDER_BUFFER_SIZE :: nat where
  "DEFAULT_LSM_FILE_BUILDER_BUFFER_SIZE = 4194304"

record bit_builder_context =
  cx_nr :: nat
  cx_pointers :: "bit_pointer list"
  cx_nodes :: "bit_node list"

record bit_builder =
  bb_size :: nat
  bb_begin :: nat
  has_first_key :: bool
  bb_first_key :: u32
  bb_last_key :: u32
  bb_cur :: nat
  bb_height :: nat
  bb_id :: nat
  bb_level :: nat
  bb_version :: nat
  bb_buffer :: "byte list"
  bb_ctx :: "bit_builder_context list"
  next_key :: "byte list"
  next_iv :: "byte list"
  cur_leaf :: bit_leaf
  bb_filter :: bloom_filter

record bit_file =
  bf_id :: nat
  bf_level :: nat
  bf_version :: nat
  bf_root :: nat
  bf_root_key :: "byte list"
  bf_root_iv :: "byte list"
  bf_first_key :: u32
  bf_last_key :: u32
  cached_leaf :: bit_leaf
  bf_filter_begin :: nat
  bf_filter :: bloom_filter

section \<open>Creation\<close>

definition key_bytes :: "u32 \<Rightarrow> byte list" where
  "key_bytes key = le_bytes 4 (unat key)"

text \<open>A hash function that cannot be registered is left out.\<close>

definition add_hash_or_skip :: "bool \<Rightarrow> hash_func_t \<Rightarrow> bloom_filter \<Rightarrow> bloom_filter" where
  "add_hash_or_skip ok func flt = (case bloom_filter_add_hash ok flt func of Inl _ \<Rightarrow> flt | Inr f \<Rightarrow> f)"

definition bit_bloom_filter_create :: "bool \<Rightarrow> bool \<Rightarrow> bool \<Rightarrow> bool \<Rightarrow> bool \<Rightarrow> bloom_filter option" where
  "bit_bloom_filter_create ok_struct ok_bits ok1 ok2 ok3 =
     (case bloom_filter_create ok_struct ok_bits BIT_BLOOM_FILTER_SIZE of
        None \<Rightarrow> None
      | Some flt \<Rightarrow> Some (add_hash_or_skip ok3 shash (add_hash_or_skip ok2 jenkins (add_hash_or_skip ok1 djb2 flt))))"

definition zero_ctx :: bit_builder_context where
  "zero_ctx = \<lparr>cx_nr = 0, cx_pointers = replicate DEFAULT_BIT_DEGREE zero_pointer,
     cx_nodes = replicate DEFAULT_BIT_DEGREE zero_node\<rparr>"

text \<open>The buffer comes from \<open>vmalloc\<close> with arbitrary content \<open>junk\<close>; the structure itself from
  \<open>kzalloc\<close>.\<close>

definition bit_builder_init ::
  "bool \<Rightarrow> bool \<Rightarrow> bloom_filter \<Rightarrow> byte list \<Rightarrow> nat \<Rightarrow> nat \<Rightarrow> nat \<Rightarrow> nat \<Rightarrow> rng \<Rightarrow> bit_builder result \<times> rng" where
  "bit_builder_init ok_buffer ok_ctx flt junk begin fid level version r =
     (let ht = (case bit_height DEFAULT_LSM_FILE_CAPACITY DEFAULT_BIT_DEGREE of Some h \<Rightarrow> h | None \<Rightarrow> 0);
          (key, r1) = get_random_bytes AES_GCM_KEY_SIZE r;
          (iv, r2) = get_random_bytes AES_GCM_IV_SIZE r1
      in if \<not> ok_buffer \<or> \<not> ok_ctx then (Inl ENOMEM, r2)
         else (Inr \<lparr>bb_size = 0, bb_begin = begin, has_first_key = False, bb_first_key = 0, bb_last_key = 0,
                 bb_cur = 0, bb_height = ht, bb_id = fid, bb_level = level, bb_version = version,
                 bb_buffer = junk, bb_ctx = replicate ht zero_ctx, next_key = key, next_iv = iv,
                 cur_leaf = zero_leaf, bb_filter = flt\<rparr>, r2))"

definition bit_builder_create ::
  "bool \<Rightarrow> bool \<Rightarrow> bool \<Rightarrow> bloom_filter \<Rightarrow> byte list \<Rightarrow> nat \<Rightarrow> nat \<Rightarrow> nat \<Rightarrow> nat \<Rightarrow> rng \<Rightarrow> bit_builder option \<times> rng" where
  "bit_builder_create ok ok_buffer ok_ctx flt junk begin fid level version r =
     (if \<not> ok then (None, r)
      else case bit_builder_init ok_buffer ok_ctx flt junk begin fid level version r of
             (Inl _, r') \<Rightarrow> (None, r') | (Inr this, r') \<Rightarrow> (Some this, r'))"

section \<open>Adding an entry\<close>

fun node_last_key :: "bit_node \<Rightarrow> u32" where
  "node_last_key (BitLeaf l) = lf_keys l ! (nr_record l - 1)"
| "node_last_key (BitInner i) = bc_key (in_children i ! (nr_child i - 1))"

definition bit_inner_of :: "bit_builder_context \<Rightarrow> bit_node" where
  "bit_inner_of ctx = BitInner
     \<lparr>nr_child = cx_nr ctx,
      in_children = map (\<lambda>i. \<lparr>bc_is_leaf = bn_is_leaf (cx_nodes ctx ! i), bc_key = node_last_key (cx_nodes ctx ! i),
                              bc_pointer = cx_pointers ctx ! i\<rparr>) [0..<cx_nr ctx]
                    @ replicate (DEFAULT_BIT_DEGREE - cx_nr ctx) zero_child\<rparr>"

definition bit_builder_full :: "bit_builder \<Rightarrow> bool" where
  "bit_builder_full this \<longleftrightarrow> bb_cur this + bb_height this * BIT_NODE_SIZE > DEFAULT_LSM_FILE_BUILDER_BUFFER_SIZE"

definition bit_builder_buffer_flush_if_full :: "bit_builder \<Rightarrow> bfile \<Rightarrow> bit_builder \<times> bfile" where
  "bit_builder_buffer_flush_if_full this file =
     (if bit_builder_full this
      then (this\<lparr>bb_begin := bb_begin this + bb_cur this, bb_cur := 0\<rparr>,
            kernel_write file (take (bb_cur this) (bb_buffer this)) (bb_begin this))
      else (this, file))"

text \<open>The common body of the two loops: seal the inner node over \<open>ctx[h]\<close>, append it to the
  buffer, and register it in \<open>ctx[h+1]\<close>.\<close>

definition ctx_push :: "bit_builder_context \<Rightarrow> bit_node \<Rightarrow> bit_pointer \<Rightarrow> bit_builder_context" where
  "ctx_push ctx node ptr =
     \<lparr>cx_nr = cx_nr ctx + 1, cx_pointers = (cx_pointers ctx)[cx_nr ctx := ptr],
      cx_nodes = (cx_nodes ctx)[cx_nr ctx := node]\<rparr>"

definition bit_builder_push_inner :: "aead \<Rightarrow> nat \<Rightarrow> bit_builder \<Rightarrow> rng \<Rightarrow> bit_builder \<times> rng" where
  "bit_builder_push_inner c h this r =
     (let ctx = bb_ctx this;
          node = bit_inner_of (ctx ! h);
          (key, r1) = get_random_bytes AES_GCM_KEY_SIZE r;
          (iv, r2) = get_random_bytes AES_GCM_IV_SIZE r1;
          ptr = \<lparr>bp_pos = bb_begin this + bb_cur this, bp_key = key, bp_iv = iv\<rparr>
      in (this\<lparr>bb_ctx := ctx[h + 1 := ctx_push (ctx ! (h + 1)) node ptr, h := (ctx ! h)\<lparr>cx_nr := 0\<rparr>],
               bb_buffer := overwrite (bb_cur this) (bit_node_encode c node key iv) (bb_buffer this),
               bb_cur := bb_cur this + BIT_INNER_NODE_SIZE\<rparr>, r2))"

lemma length_ctx_push_inner [simp]: "length (bb_ctx (fst (bit_builder_push_inner c h this r))) = length (bb_ctx this)"
  by (simp add: bit_builder_push_inner_def Let_def split_beta)

function add_entry_loop :: "aead \<Rightarrow> nat \<Rightarrow> bit_builder \<Rightarrow> rng \<Rightarrow> (bit_builder \<times> rng) option" where
  "add_entry_loop c h this r =
     (if length (bb_ctx this) \<le> h then None
      else if cx_nr (bb_ctx this ! h) \<noteq> DEFAULT_BIT_DEGREE then Some (this, r)
      else if length (bb_ctx this) \<le> h + 1 then None
      else add_entry_loop c (h + 1) (fst (bit_builder_push_inner c h this r)) (snd (bit_builder_push_inner c h this r)))"
  by pat_completeness auto
termination
  by (relation "measure (\<lambda>(c, h, this, r). length (bb_ctx this) - h)") (auto simp: split_beta)

declare add_entry_loop.simps [simp del]

definition leaf_add :: "bit_leaf \<Rightarrow> u32 \<Rightarrow> index_record \<Rightarrow> bit_leaf" where
  "leaf_add l key val = l\<lparr>lf_keys := (lf_keys l)[nr_record l := key], lf_records := (lf_records l)[nr_record l := val],
     nr_record := nr_record l + 1\<rparr>"

definition bit_builder_note :: "bit_builder \<Rightarrow> u32 \<Rightarrow> index_record \<Rightarrow> bit_builder" where
  "bit_builder_note this key val =
     this\<lparr>bb_first_key := (if has_first_key this then bb_first_key this else key), has_first_key := True,
          bb_last_key := key, bb_size := bb_size this + 1,
          bb_filter := bloom_filter_add (bb_filter this) (key_bytes key),
          cur_leaf := leaf_add (cur_leaf this) key val\<rparr>"

text \<open>A full leaf: it goes into \<open>ctx[0]\<close> before its successor is known and into the buffer after.\<close>

definition bit_builder_seal_leaf :: "aead \<Rightarrow> bit_builder \<Rightarrow> bfile \<Rightarrow> rng \<Rightarrow> (bit_builder \<times> bfile \<times> rng) option" where
  "bit_builder_seal_leaf c this file r =
     (let pointer = \<lparr>bp_pos = bb_begin this + bb_cur this, bp_key = next_key this, bp_iv = next_iv this\<rparr>;
          leaf = cur_leaf this;
          this1 = this\<lparr>bb_ctx := (bb_ctx this)[0 := ctx_push (bb_ctx this ! 0) (BitLeaf leaf) pointer]\<rparr>;
          (this2, file') = bit_builder_buffer_flush_if_full this1 file;
          cur = bb_cur this2
      in case add_entry_loop c 0 (this2\<lparr>bb_cur := cur + BIT_LEAF_NODE_SIZE\<rparr>) r of
           None \<Rightarrow> None
         | Some (this3, r1) \<Rightarrow>
             (let (key, r2) = get_random_bytes AES_GCM_KEY_SIZE r1;
                  (iv, r3) = get_random_bytes AES_GCM_IV_SIZE r2;
                  leaf' = leaf\<lparr>lf_next := \<lparr>bp_pos = bb_begin this3 + bb_cur this3, bp_key = key, bp_iv = iv\<rparr>\<rparr>
              in Some (this3\<lparr>next_key := key, next_iv := iv,
                         bb_buffer := overwrite cur (bit_node_encode c (BitLeaf leaf') (bp_key pointer) (bp_iv pointer)) (bb_buffer this3),
                         cur_leaf := leaf\<lparr>nr_record := 0\<rparr>\<rparr>, file', r3)))"

definition bit_builder_add_entry ::
  "aead \<Rightarrow> bit_builder \<Rightarrow> bfile \<Rightarrow> rng \<Rightarrow> u32 \<times> index_record \<Rightarrow> (bit_builder \<times> bfile \<times> rng) option" where
  "bit_builder_add_entry c this file r entry =
     (let this' = bit_builder_note this (fst entry) (snd entry)
      in if nr_record (cur_leaf this') < BIT_LEAF_LEN then Some (this', file, r)
         else bit_builder_seal_leaf c this' file r)"

text \<open>Adding the entries of a list in order.\<close>

fun add_entries ::
  "aead \<Rightarrow> bit_builder \<Rightarrow> bfile \<Rightarrow> rng \<Rightarrow> (u32 \<times> index_record) list \<Rightarrow> (bit_builder \<times> bfile \<times> rng) option" where
  "add_entries c this file r [] = Some (this, file, r)"
| "add_entries c this file r (e # es) =
     (case bit_builder_add_entry c this file r e of
        None \<Rightarrow> None | Some (this', file', r') \<Rightarrow> add_entries c this' file' r' es)"

section \<open>Completing the file\<close>

definition bit_file_init ::
  "bloom_filter \<Rightarrow> bit_leaf \<Rightarrow> bfile \<Rightarrow> nat \<Rightarrow> nat \<Rightarrow> nat \<Rightarrow> nat \<Rightarrow> u32 \<Rightarrow> u32 \<Rightarrow> byte list \<Rightarrow> byte list \<Rightarrow> nat \<Rightarrow> bit_file" where
  "bit_file_init flt junk file root fid level version fkey lkey root_key root_iv filter_begin =
     \<lparr>bf_id = fid, bf_level = level, bf_version = version, bf_root = root,
      bf_root_key = take AES_GCM_KEY_SIZE root_key, bf_root_iv = take AES_GCM_IV_SIZE root_iv,
      bf_first_key = fkey, bf_last_key = lkey, cached_leaf = junk\<lparr>nr_record := 0\<rparr>,
      bf_filter_begin = filter_begin, bf_filter = bloom_filter_load flt file filter_begin\<rparr>"

definition bit_file_create ::
  "bool \<Rightarrow> bloom_filter \<Rightarrow> bit_leaf \<Rightarrow> bfile \<Rightarrow> nat \<Rightarrow> nat \<Rightarrow> nat \<Rightarrow> nat \<Rightarrow> u32 \<Rightarrow> u32 \<Rightarrow> byte list \<Rightarrow> byte list \<Rightarrow> nat
   \<Rightarrow> bit_file option" where
  "bit_file_create ok flt junk file root fid level version fkey lkey root_key root_iv filter_begin =
     (if \<not> ok then None
      else Some (bit_file_init flt junk file root fid level version fkey lkey root_key root_iv filter_begin))"

function complete_loop :: "aead \<Rightarrow> nat \<Rightarrow> bit_builder \<Rightarrow> rng \<Rightarrow> bit_builder \<times> rng" where
  "complete_loop c h this r =
     (if bb_height this - 1 \<le> h then (this, r)
      else if cx_nr (bb_ctx this ! h) = 0 then complete_loop c (h + 1) this r
      else complete_loop c (h + 1) (fst (bit_builder_push_inner c h this r)) (snd (bit_builder_push_inner c h this r)))"
  by pat_completeness auto
termination
  by (relation "measure (\<lambda>(c, h, this, r). bb_height this - 1 - h)")
    (auto simp: bit_builder_push_inner_def Let_def split_beta)

declare complete_loop.simps [simp del]

text \<open>The nodes that close the tree. The last leaf, if it is not full, is stored and linked but its
  slot of \<open>ctx[0]\<close> is not counted.\<close>

definition bit_builder_close :: "aead \<Rightarrow> bit_builder \<Rightarrow> rng \<Rightarrow> bit_builder \<times> rng" where
  "bit_builder_close c this r =
     (if 0 < nr_record (cur_leaf this)
      then let pointer = \<lparr>bp_pos = bb_begin this + bb_cur this, bp_key = next_key this, bp_iv = next_iv this\<rparr>;
               ctx0 = bb_ctx this ! 0;
               ctx0' = ctx0\<lparr>cx_nodes := (cx_nodes ctx0)[cx_nr ctx0 := BitLeaf (cur_leaf this)],
                            cx_pointers := (cx_pointers ctx0)[cx_nr ctx0 := pointer]\<rparr>;
               cur = bb_cur this;
               (this1, r1) = complete_loop c 0 (this\<lparr>bb_ctx := (bb_ctx this)[0 := ctx0'], bb_cur := cur + BIT_LEAF_NODE_SIZE\<rparr>) r
           in (this1\<lparr>bb_buffer := overwrite cur (bit_node_encode c (BitLeaf (cur_leaf this)) (bp_key pointer) (bp_iv pointer))
                       (bb_buffer this1)\<rparr>, r1)
      else complete_loop c 0 this r)"

definition bit_builder_complete ::
  "aead \<Rightarrow> bool \<Rightarrow> bloom_filter \<Rightarrow> bit_leaf \<Rightarrow> bit_builder \<Rightarrow> bfile \<Rightarrow> rng \<Rightarrow> bit_file option \<times> bfile \<times> rng" where
  "bit_builder_complete c ok flt junk this file r =
     (let addr = bb_begin this;
          (this', file1, r') =
            (if cx_nr (bb_ctx this ! (bb_height this - 1)) \<noteq> 0 then (this, file, r)
             else case bit_builder_buffer_flush_if_full this file of (this1, file1) \<Rightarrow>
                  case bit_builder_close c this1 r of (this2, r') \<Rightarrow> (this2, file1, r'));
          file2 = kernel_write file1 (take (bb_cur this') (bb_buffer this')) addr;
          root_pointer = cx_pointers (bb_ctx this' ! (bb_height this' - 1)) ! 0;
          root = bb_begin this' + bb_cur this' - BIT_INNER_NODE_SIZE;
          filter_begin = root + BIT_INNER_NODE_SIZE;
          file3 = kernel_write file2 (bits (bb_filter this')) filter_begin
      in (bit_file_create ok flt junk file3 root (bb_id this') (bb_level this') (bb_version this')
            (bb_first_key this') (bb_last_key this') (bp_key root_pointer) (bp_iv root_pointer) filter_begin,
          file3, r'))"

end
