(* ===== verification/Bit_File.thy ===== *)
theory Bit_File
  imports Bit_Builder
begin

text \<open>
  Reading a block index table file (\<open>bit_file_*\<close> and \<open>bit_iterator_*\<close> of \<open>lsm_tree.c\<close>): the
  search from the root, the search with the cached leaf and the Bloom filter, and the iterator
  along the chain of leaves. A ghost tree describes what is stored under a pointer; on it the
  search is a lookup and the iterator a traversal.
\<close>

section \<open>Search\<close>

definition bit_leaf_search :: "bit_leaf \<Rightarrow> u32 \<Rightarrow> index_record result" where
  "bit_leaf_search leaf key =
     (case find (\<lambda>i. lf_keys leaf ! i = key) [0..<nr_record leaf] of
        None \<Rightarrow> Inl ENODATA | Some i \<Rightarrow> Inr (lf_records leaf ! i))"

text \<open>The loop \<open>next\<close>: \<open>None\<close> if it does not end.\<close>

partial_function (option) search_leaf_loop ::
  "aead \<Rightarrow> bfile \<Rightarrow> u32 \<Rightarrow> bool \<Rightarrow> bit_pointer \<Rightarrow> bit_leaf result option" where
  "search_leaf_loop c file key is_leaf ptr =
     (case bit_node_decode c (kernel_read file BIT_NODE_SIZE (bp_pos ptr)) is_leaf (bp_key ptr) (bp_iv ptr) of
        (Inl _, _) \<Rightarrow> Some (Inl ENODATA)
      | (Inr _, data) \<Rightarrow>
          if is_leaf then
            (case bit_leaf_search (bytes_leaf data) key of
               Inr _ \<Rightarrow> Some (Inr (bytes_leaf data)) | Inl _ \<Rightarrow> Some (Inl ENODATA))
          else
            (let inner = bytes_inner data
             in case find (\<lambda>i. key \<le> bc_key (in_children inner ! i)) [0..<nr_child inner] of
                  None \<Rightarrow> Some (Inl ENODATA)
                | Some i \<Rightarrow> search_leaf_loop c file key (bc_is_leaf (in_children inner ! i))
                              (bc_pointer (in_children inner ! i))))"

definition root_pointer :: "bit_file \<Rightarrow> bit_pointer" where
  "root_pointer this = \<lparr>bp_pos = bf_root this, bp_key = bf_root_key this, bp_iv = bf_root_iv this\<rparr>"

definition bit_file_search_leaf :: "aead \<Rightarrow> bfile \<Rightarrow> bit_file \<Rightarrow> u32 \<Rightarrow> bit_leaf result option" where
  "bit_file_search_leaf c file this key = search_leaf_loop c file key False (root_pointer this)"

definition bit_file_first_leaf :: "aead \<Rightarrow> bfile \<Rightarrow> bit_file \<Rightarrow> bit_leaf result option" where
  "bit_file_first_leaf c file this = bit_file_search_leaf c file this (bf_first_key this)"

definition bit_file_search :: "aead \<Rightarrow> bfile \<Rightarrow> bit_file \<Rightarrow> u32 \<Rightarrow> (index_record result \<times> bit_file) option" where
  "bit_file_search c file this key =
     (if \<not> bloom_filter_contains (bf_filter this) (key_bytes key) then Some (Inl ENODATA, this)
      else case bit_leaf_search (cached_leaf this) key of
             Inr x \<Rightarrow> Some (Inr x, this)
           | Inl _ \<Rightarrow>
               (case bit_file_search_leaf c file this key of
                  None \<Rightarrow> None
                | Some (Inl e) \<Rightarrow> Some (Inl e, this)
                | Some (Inr leaf) \<Rightarrow> Some (bit_leaf_search leaf key, this\<lparr>cached_leaf := leaf\<rparr>)))"

section \<open>Iteration\<close>

record bit_iterator =
  cur_record :: nat
  it_has_next :: bool
  it_file :: bit_file
  it_leaf :: bit_leaf

definition bit_iterator_has_next :: "bit_iterator \<Rightarrow> bool" where
  "bit_iterator_has_next this = it_has_next this"

text \<open>The result of decoding the next leaf is not checked. An exhausted iterator delivers nothing:
  the first component is \<open>ENODATA\<close>.\<close>

definition bit_iterator_next ::
  "aead \<Rightarrow> bfile \<Rightarrow> bit_iterator \<Rightarrow> (u32 \<times> index_record) result \<times> bit_iterator" where
  "bit_iterator_next c file this =
     (if \<not> bit_iterator_has_next this then (Inl ENODATA, this)
      else let key = lf_keys (it_leaf this) ! cur_record this;
               val = lf_records (it_leaf this) ! cur_record this
           in if bf_last_key (it_file this) \<le> key then (Inr (key, val), this\<lparr>it_has_next := False\<rparr>)
              else if cur_record this + 1 = BIT_LEAF_LEN then
                let ptr = lf_next (it_leaf this);
                    data = snd (bit_node_decode c (kernel_read file BIT_NODE_SIZE (bp_pos ptr)) True (bp_key ptr) (bp_iv ptr))
                in (Inr (key, val), this\<lparr>it_leaf := bytes_leaf data, cur_record := 0\<rparr>)
              else (Inr (key, val), this\<lparr>cur_record := cur_record this + 1\<rparr>))"

definition bit_iterator_init :: "aead \<Rightarrow> bfile \<Rightarrow> bit_file \<Rightarrow> bit_iterator result option" where
  "bit_iterator_init c file bit_file =
     (case bit_file_first_leaf c file bit_file of
        None \<Rightarrow> None
      | Some (Inl e) \<Rightarrow> Some (Inl e)
      | Some (Inr leaf) \<Rightarrow> Some (Inr \<lparr>cur_record = 0, it_has_next = True, it_file = bit_file, it_leaf = leaf\<rparr>))"

text \<open>The outer \<open>None\<close> is a search that does not end, the inner one the null pointer.\<close>

definition bit_iterator_create :: "aead \<Rightarrow> bool \<Rightarrow> bfile \<Rightarrow> bit_file \<Rightarrow> bit_iterator option option" where
  "bit_iterator_create c ok file bit_file =
     (if \<not> ok then Some None
      else case bit_iterator_init c file bit_file of
             None \<Rightarrow> None | Some (Inl _) \<Rightarrow> Some None | Some (Inr this) \<Rightarrow> Some (Some this))"

definition bit_file_iterator :: "aead \<Rightarrow> bool \<Rightarrow> bfile \<Rightarrow> bit_file \<Rightarrow> bit_iterator option option" where
  "bit_file_iterator c ok file this = bit_iterator_create c ok file this"

section \<open>Statistics\<close>

record file_stat =
  fs_root :: nat
  fs_filter_begin :: nat
  fs_root_key :: "byte list"
  fs_root_iv :: "byte list"
  fs_id :: nat
  fs_level :: nat
  fs_version :: nat
  fs_first_key :: u32
  fs_last_key :: u32

definition bit_file_get_stats :: "bit_file \<Rightarrow> file_stat" where
  "bit_file_get_stats this =
     \<lparr>fs_root = bf_root this, fs_filter_begin = bf_filter_begin this,
      fs_root_key = take AES_GCM_KEY_SIZE (bf_root_key this), fs_root_iv = take AES_GCM_IV_SIZE (bf_root_iv this),
      fs_id = bf_id this, fs_level = bf_level this, fs_version = bf_version this,
      fs_first_key = bf_first_key this, fs_last_key = bf_last_key this\<rparr>"

section \<open>What is stored under a pointer\<close>

definition stored :: "aead \<Rightarrow> bfile \<Rightarrow> bit_pointer \<Rightarrow> bit_node \<Rightarrow> bool" where
  "stored c g p n \<longleftrightarrow>
     kernel_read g (if bn_is_leaf n then BIT_LEAF_NODE_SIZE else BIT_INNER_NODE_SIZE) (bp_pos p) =
       bit_node_encode c n (bp_key p) (bp_iv p)"

lemma stored_decode:
  assumes "aead_ok c" "wf_node n" "stored c g p n"
  shows "bit_node_decode c (kernel_read g BIT_NODE_SIZE (bp_pos p)) (bn_is_leaf n) (bp_key p) (bp_iv p) = (Inr (), node_bytes n)"
proof (rule encode_decode [OF assms(1,2)])
  let ?e = "bit_node_encode c n (bp_key p) (bp_iv p)"
  have "length ?e = (if bn_is_leaf n then BIT_LEAF_NODE_SIZE else BIT_INNER_NODE_SIZE)"
    by (rule length_bit_node_encode [OF assms(1,2)])
  then show "take (length ?e) (kernel_read g BIT_NODE_SIZE (bp_pos p)) = ?e"
    using assms(3) by (simp add: stored_def take_kernel_read node_sizes)
qed

lemma stored_leaf:
  assumes "aead_ok c" "wf_leaf l" "stored c g p (BitLeaf l)"
  shows "bit_node_decode c (kernel_read g BIT_NODE_SIZE (bp_pos p)) True (bp_key p) (bp_iv p) = (Inr (), 1 # leaf_bytes l)"
  using stored_decode [of c "BitLeaf l"] assms by simp

lemma stored_inner:
  assumes "aead_ok c" "wf_inner i" "stored c g p (BitInner i)"
  shows "bit_node_decode c (kernel_read g BIT_NODE_SIZE (bp_pos p)) False (bp_key p) (bp_iv p) = (Inr (), 0 # inner_bytes i)"
  using stored_decode [of c "BitInner i"] assms by simp

definition leaf_recs :: "bit_leaf \<Rightarrow> (u32 \<times> index_record) list" where
  "leaf_recs l = zip (take (nr_record l) (lf_keys l)) (take (nr_record l) (lf_records l))"

text \<open>The ghost tree: each node with the pointer it is stored under.\<close>

datatype bit_tree = BLeaf bit_pointer bit_leaf | BNode bit_pointer bit_inner "bit_tree list"

fun bt_ptr :: "bit_tree \<Rightarrow> bit_pointer" where
  "bt_ptr (BLeaf p l) = p"
| "bt_ptr (BNode p i ts) = p"

fun bt_is_leaf :: "bit_tree \<Rightarrow> bool" where
  "bt_is_leaf (BLeaf p l) = True"
| "bt_is_leaf (BNode p i ts) = False"

fun bt_leaves :: "bit_tree \<Rightarrow> (bit_pointer \<times> bit_leaf) list" where
  "bt_leaves (BLeaf p l) = [(p, l)]"
| "bt_leaves (BNode p i ts) = concat (map bt_leaves ts)"

definition bt_recs :: "bit_tree \<Rightarrow> (u32 \<times> index_record) list" where
  "bt_recs t = concat (map (\<lambda>(p, l). leaf_recs l) (bt_leaves t))"

definition bt_child :: "bit_tree \<Rightarrow> bit_child" where
  "bt_child t = \<lparr>bc_is_leaf = bt_is_leaf t, bc_key = fst (last (bt_recs t)), bc_pointer = bt_ptr t\<rparr>"

text \<open>A tree is stored between \<open>lo\<close> and \<open>hi\<close>.\<close>

fun bt_ok :: "aead \<Rightarrow> bfile \<Rightarrow> nat \<Rightarrow> nat \<Rightarrow> bit_tree \<Rightarrow> bool" where
  "bt_ok c g lo hi (BLeaf p l) \<longleftrightarrow>
     stored c g p (BitLeaf l) \<and> wf_leaf l \<and> 0 < nr_record l \<and> lo \<le> bp_pos p \<and> bp_pos p + BIT_LEAF_NODE_SIZE \<le> hi"
| "bt_ok c g lo hi (BNode p i ts) \<longleftrightarrow>
     stored c g p (BitInner i) \<and> wf_inner i \<and> ts \<noteq> [] \<and> nr_child i = length ts \<and>
     take (length ts) (in_children i) = map bt_child ts \<and>
     lo \<le> bp_pos p \<and> bp_pos p + BIT_INNER_NODE_SIZE \<le> hi \<and> (\<forall>t \<in> set ts. bt_ok c g lo hi t)"

lemma bt_recs_simps [simp]:
  "bt_recs (BLeaf p l) = leaf_recs l"
  "bt_recs (BNode p i ts) = concat (map bt_recs ts)"
  by (simp_all add: bt_recs_def map_concat comp_def) (induction ts; simp add: bt_recs_def)

lemma leaf_recs_length: "wf_leaf l \<Longrightarrow> length (leaf_recs l) = nr_record l"
  by (simp add: leaf_recs_def wf_leaf_def)

lemma bt_recs_nonempty: "bt_ok c g lo hi t \<Longrightarrow> bt_recs t \<noteq> []"
proof (induction t)
  case (BLeaf p l)
  then have "length (leaf_recs l) > 0" by (simp add: leaf_recs_length)
  then show ?case by auto
next
  case (BNode p i ts)
  then show ?case by (cases ts) auto
qed

text \<open>Writing elsewhere keeps a tree.\<close>

lemma stored_frame:
  assumes "stored c g p n" "lo \<le> bp_pos p" "bp_pos p + (if bn_is_leaf n then BIT_LEAF_NODE_SIZE else BIT_INNER_NODE_SIZE) \<le> hi"
    and "\<And>a. lo \<le> a \<Longrightarrow> a < hi \<Longrightarrow> g' a = g a"
  shows "stored c g' p n"
proof -
  let ?n = "if bn_is_leaf n then BIT_LEAF_NODE_SIZE else BIT_INNER_NODE_SIZE"
  have "kernel_read g' ?n (bp_pos p) = kernel_read g ?n (bp_pos p)"
    unfolding kernel_read_def by (rule map_cong) (use assms(2-4) in auto)
  then show ?thesis using assms(1) by (simp add: stored_def)
qed

lemma bt_ok_frame:
  assumes "bt_ok c g lo hi t" "\<And>a. lo \<le> a \<Longrightarrow> a < hi \<Longrightarrow> g' a = g a" "lo' \<le> lo" "hi \<le> hi'"
  shows "bt_ok c g' lo' hi' t"
  using assms(1)
proof (induction t)
  case (BLeaf p l)
  then show ?case using stored_frame [where n = "BitLeaf l" and lo = lo and hi = hi and g = g and g' = g'] assms(2) assms(3,4) by auto
next
  case (BNode p i ts)
  then show ?case using stored_frame [where n = "BitInner i" and lo = lo and hi = hi and g = g and g' = g'] assms(2) assms(3,4) by auto
qed

section \<open>Search is lookup\<close>

lemma map_of_find: "map_of (map (\<lambda>i. (f i, g i)) xs) k = map_option g (find (\<lambda>i. f i = k) xs)"
  by (induction xs) auto

lemma zip_take_upt: "n \<le> length xs \<Longrightarrow> n \<le> length ys \<Longrightarrow> zip (take n xs) (take n ys) = map (\<lambda>i. (xs ! i, ys ! i)) [0..<n]"
  by (rule nth_equalityI) auto

lemma bit_leaf_search_lookup:
  assumes "nr_record l \<le> length (lf_keys l)" "nr_record l \<le> length (lf_records l)"
  shows "bit_leaf_search l key = (case map_of (leaf_recs l) key of None \<Rightarrow> Inl ENODATA | Some x \<Rightarrow> Inr x)"
  unfolding leaf_recs_def zip_take_upt [OF assms] map_of_find bit_leaf_search_def
  by (simp split: option.split)

lemma wf_leaf_search:
  "wf_leaf l \<Longrightarrow> bit_leaf_search l key = (case map_of (leaf_recs l) key of None \<Rightarrow> Inl ENODATA | Some x \<Rightarrow> Inr x)"
  by (rule bit_leaf_search_lookup) (simp_all add: wf_leaf_def)

lemma sorted_keys_le_last:
  fixes xs :: "('k::linorder \<times> 'v) list"
  assumes "sorted_wrt (<) (map fst xs)" "x \<in> set xs"
  shows "fst x \<le> fst (last xs)"
proof -
  obtain i where i: "i < length xs" "x = xs ! i" using assms(2) by (metis in_set_conv_nth)
  show ?thesis
  proof (cases "i = length xs - 1")
    case True
    then show ?thesis using i assms(2) by (cases xs) (auto simp: last_conv_nth)
  next
    case False
    then have "i < length xs - 1" using i(1) by simp
    then have "map fst xs ! i < map fst xs ! (length xs - 1)"
      using i(1) by (intro sorted_wrt_nth_less [OF assms(1)]) simp_all
    moreover have "xs \<noteq> []" using i(1) by auto
    ultimately show ?thesis using i by (simp add: last_conv_nth)
  qed
qed

lemma map_of_concat_block:
  fixes xss :: "('k::linorder \<times> 'v) list list"
  assumes s: "sorted_wrt (<) (map fst (concat xss))" and j: "j < length xss" and ne: "xss ! j \<noteq> []"
    and lo: "\<And>i. i < j \<Longrightarrow> fst (last (xss ! i)) < key" and hi: "key \<le> fst (last (xss ! j))"
  shows "map_of (concat xss) key = map_of (xss ! j) key"
proof -
  define A B where "A = concat (take j xss)" and "B = concat (drop (Suc j) xss)"
  have e: "concat xss = A @ xss ! j @ B"
    unfolding A_def B_def using j by (metis append_Cons append_Nil concat.simps(2) concat_append id_take_nth_drop)
  have "fst x < key" if "x \<in> set A" for x
  proof -
    from that obtain xs where xs: "xs \<in> set (take j xss)" "x \<in> set xs" by (auto simp: A_def)
    then obtain i where i: "i < j" "x \<in> set (xss ! i)" using j by (auto simp: in_set_conv_nth [of xs])
    then have "i < length xss" using j by simp
    then have "concat xss = concat (take i xss) @ xss ! i @ concat (drop (Suc i) xss)"
      by (metis append_Cons append_Nil concat.simps(2) concat_append id_take_nth_drop)
    then have "sorted_wrt (<) (map fst (xss ! i))" using s by (simp add: sorted_wrt_append)
    then show ?thesis using sorted_keys_le_last [of "xss ! i" x] i lo [OF i(1)] by simp
  qed
  moreover have "key < fst x" if "x \<in> set B" for x
  proof -
    have "fst (last (xss ! j)) < fst x" using s that ne unfolding e by (auto simp: sorted_wrt_append)
    then show ?thesis using hi by simp
  qed
  ultimately have "map_of A key = None" "map_of B key = None"
    by (auto simp: map_of_eq_None_iff)
  then show ?thesis by (simp add: e map_add_def split: option.split)
qed

lemma find_upt_Some:
  assumes "find P [0..<n] = Some j"
  shows "j < n" "P j" "\<And>i. i < j \<Longrightarrow> \<not> P i"
  using assms by (auto simp: find_Some_iff)

lemma sorted_concat_elem:
  assumes "sorted_wrt R (map f (concat xss))" "xs \<in> set xss"
  shows "sorted_wrt R (map f xs)"
  using assms by (induction xss) (auto simp: sorted_wrt_append)

lemma search_leaf_loop_ok:
  assumes c: "aead_ok c"
  shows "bt_ok c g lo hi t \<Longrightarrow> sorted_wrt (<) (map fst (bt_recs t)) \<Longrightarrow>
    (case map_of (bt_recs t) key of
       None \<Rightarrow> search_leaf_loop c g key (bt_is_leaf t) (bt_ptr t) = Some (Inl ENODATA)
     | Some x \<Rightarrow> \<exists>p l. (p, l) \<in> set (bt_leaves t) \<and> search_leaf_loop c g key (bt_is_leaf t) (bt_ptr t) = Some (Inr l) \<and>
         map_of (leaf_recs l) key = Some x)"
proof (induction t)
  case (BLeaf p l)
  then have ok: "wf_leaf l" "stored c g p (BitLeaf l)" by auto
  show ?case
    by (simp add: search_leaf_loop.simps [of c g key True] stored_leaf [OF c ok] bytes_leaf_bytes [OF ok(1)]
        wf_leaf_search [OF ok(1)] split: option.split)
next
  case (BNode p i ts)
  have ok: "wf_inner i" "stored c g p (BitInner i)" and n: "nr_child i = length ts"
    and ch: "take (length ts) (in_children i) = map bt_child ts" using BNode.prems(1) by auto
  have child: "in_children i ! j = bt_child (ts ! j)" if "j < length ts" for j
    using arg_cong [OF ch, of "\<lambda>xs. xs ! j"] that by simp
  define fnd where "fnd = find (\<lambda>j. key \<le> bc_key (in_children i ! j)) [0..<length ts]"
  have loop: "search_leaf_loop c g key (bt_is_leaf (BNode p i ts)) (bt_ptr (BNode p i ts)) =
      (case fnd of None \<Rightarrow> Some (Inl ENODATA)
       | Some j \<Rightarrow> search_leaf_loop c g key (bc_is_leaf (in_children i ! j)) (bc_pointer (in_children i ! j)))"
    by (simp add: search_leaf_loop.simps [of c g key False p] stored_inner [OF c ok] bytes_inner_bytes [OF ok(1)]
        n fnd_def Let_def cong: option.case_cong)
  show ?case
  proof (cases fnd)
    case None
    have "fst x < key" if x: "x \<in> set (bt_recs t)" and t: "t \<in> set ts" for x t
    proof -
      obtain j where j: "j < length ts" "t = ts ! j" using t by (metis in_set_conv_nth)
      have "\<not> key \<le> bc_key (in_children i ! j)" using None j(1) by (auto simp: fnd_def find_None_iff)
      then have "fst (last (bt_recs t)) < key" by (simp add: child j bt_child_def)
      moreover have "sorted_wrt (<) (map fst (bt_recs t))"
        by (rule sorted_concat_elem [of _ _ "map bt_recs ts"]) (use BNode.prems(2) t in auto)
      ultimately show ?thesis using sorted_keys_le_last [OF _ x] by (meson le_less_trans)
    qed
    then have "map_of (bt_recs (BNode p i ts)) key = None" by (auto simp: map_of_eq_None_iff)
    then show ?thesis using loop None by (simp only: option.case)
  next
    case (Some j)
    note f = find_upt_Some [OF Some [unfolded fnd_def]]
    have t: "ts ! j \<in> set ts" using f(1) by simp
    have okj: "bt_ok c g lo hi (ts ! j)" using BNode.prems(1) t by simp
    have m: "map_of (concat (map bt_recs ts)) key = map_of (map bt_recs ts ! j) key"
    proof (rule map_of_concat_block)
      show "sorted_wrt (<) (map fst (concat (map bt_recs ts)))" using BNode.prems(2) by simp
      show "key \<le> fst (last (map bt_recs ts ! j))" using f(1,2) by (simp add: child bt_child_def)
      show "fst (last (map bt_recs ts ! k)) < key" if "k < j" for k
        using f(1) f(3) [OF that] that by (simp add: child bt_child_def)
    qed (use f(1) bt_recs_nonempty [OF okj] in auto)
    have "sorted_wrt (<) (map fst (bt_recs (ts ! j)))"
      by (rule sorted_concat_elem [of _ _ "map bt_recs ts"]) (use BNode.prems(2) t in auto)
    note IH = BNode.IH [OF t okj this]
    have l: "search_leaf_loop c g key (bt_is_leaf (BNode p i ts)) (bt_ptr (BNode p i ts)) =
        search_leaf_loop c g key (bt_is_leaf (ts ! j)) (bt_ptr (ts ! j))"
      unfolding loop Some using f(1) by (simp add: child bt_child_def)
    show ?thesis unfolding l bt_recs_simps(2) m nth_map [OF f(1)]
      using IH t by (fastforce split: option.splits)
  qed
qed

text \<open>A file whose root stores the tree \<open>t\<close>, with a filter that knows its keys.\<close>

definition bit_file_ok :: "aead \<Rightarrow> bfile \<Rightarrow> nat \<Rightarrow> nat \<Rightarrow> bit_file \<Rightarrow> bit_tree \<Rightarrow> bool" where
  "bit_file_ok c g lo hi this t \<longleftrightarrow>
     bt_ok c g lo hi t \<and> \<not> bt_is_leaf t \<and> bt_ptr t = root_pointer this \<and> sorted_wrt (<) (map fst (bt_recs t)) \<and>
     (\<forall>k \<in> fst ` set (bt_recs t). bloom_filter_contains (bf_filter this) (key_bytes k)) \<and>
     (nr_record (cached_leaf this) = 0 \<or> cached_leaf this \<in> snd ` set (bt_leaves t))"

lemma bt_ok_leaf: "bt_ok c g lo hi t \<Longrightarrow> (p, l) \<in> set (bt_leaves t) \<Longrightarrow>
   stored c g p (BitLeaf l) \<and> wf_leaf l \<and> 0 < nr_record l \<and> lo \<le> bp_pos p \<and> bp_pos p + BIT_LEAF_NODE_SIZE \<le> hi"
  by (induction t) auto

lemma map_of_leaf:
  assumes "(p, l) \<in> set (bt_leaves t)" "sorted_wrt (<) (map fst (bt_recs t))" "map_of (leaf_recs l) key = Some x"
  shows "map_of (bt_recs t) key = Some x"
proof -
  have "(key, x) \<in> set (bt_recs t)" using assms(1) map_of_SomeD [OF assms(3)] by (force simp: bt_recs_def)
  then show ?thesis using assms(2) by (simp add: sorted_wrt_less_distinct)
qed

lemma leaf_recs_empty: "nr_record l = 0 \<Longrightarrow> leaf_recs l = []"
  by (simp add: leaf_recs_def)

lemma bit_file_search_ok:
  assumes c: "aead_ok c" and ok: "bit_file_ok c g lo hi this t"
  shows "\<exists>leaf. bit_file_search c g this key =
      Some (case map_of (bt_recs t) key of None \<Rightarrow> Inl ENODATA | Some x \<Rightarrow> Inr x, this\<lparr>cached_leaf := leaf\<rparr>) \<and>
    bit_file_ok c g lo hi (this\<lparr>cached_leaf := leaf\<rparr>) t"
proof -
  let ?r = "case map_of (bt_recs t) key of None \<Rightarrow> Inl ENODATA | Some x \<Rightarrow> Inr x"
  have t: "bt_ok c g lo hi t" "\<not> bt_is_leaf t" "bt_ptr t = root_pointer this" "sorted_wrt (<) (map fst (bt_recs t))"
    and f: "\<And>k. k \<in> fst ` set (bt_recs t) \<Longrightarrow> bloom_filter_contains (bf_filter this) (key_bytes k)"
    and cl: "nr_record (cached_leaf this) = 0 \<or> (\<exists>p. (p, cached_leaf this) \<in> set (bt_leaves t))"
    using ok by (auto simp: bit_file_ok_def)
  have upd: "bit_file_ok c g lo hi (this\<lparr>cached_leaf := leaf\<rparr>) t" if "(p, leaf) \<in> set (bt_leaves t)" for p leaf
    using ok that by (force simp: bit_file_ok_def root_pointer_def)
  have same: "this\<lparr>cached_leaf := cached_leaf this\<rparr> = this" by simp
  have cs: "bit_leaf_search (cached_leaf this) key = (case map_of (leaf_recs (cached_leaf this)) key of None \<Rightarrow> Inl ENODATA | Some x \<Rightarrow> Inr x)"
    using cl bt_ok_leaf [OF t(1)] by (intro bit_leaf_search_lookup) (auto simp: wf_leaf_def)
  consider (out) "\<not> bloom_filter_contains (bf_filter this) (key_bytes key)"
    | (hit) x where "bloom_filter_contains (bf_filter this) (key_bytes key)" "map_of (leaf_recs (cached_leaf this)) key = Some x"
    | (miss) "bloom_filter_contains (bf_filter this) (key_bytes key)" "map_of (leaf_recs (cached_leaf this)) key = None"
    by (cases "map_of (leaf_recs (cached_leaf this)) key") auto
  then show ?thesis
  proof cases
    case out
    then have "map_of (bt_recs t) key = None" using f by (auto simp: map_of_eq_None_iff)
    then show ?thesis using out ok by (intro exI [of _ "cached_leaf this"]) (simp add: bit_file_search_def)
  next
    case hit
    have "nr_record (cached_leaf this) \<noteq> 0" using hit(2) leaf_recs_empty by fastforce
    then obtain p where "(p, cached_leaf this) \<in> set (bt_leaves t)" using cl by auto
    then have "map_of (bt_recs t) key = Some x" using map_of_leaf [OF _ t(4) hit(2)] by simp
    then show ?thesis using hit ok cs by (intro exI [of _ "cached_leaf this"]) (simp add: bit_file_search_def)
  next
    case miss
    note loop = search_leaf_loop_ok [OF c t(1,4), of key]
    show ?thesis
    proof (cases "map_of (bt_recs t) key")
      case None
      then show ?thesis using miss ok cs loop t(2,3)
        by (intro exI [of _ "cached_leaf this"]) (simp add: bit_file_search_def bit_file_search_leaf_def)
    next
      case (Some x)
      then obtain p l where l: "(p, l) \<in> set (bt_leaves t)" "map_of (leaf_recs l) key = Some x"
        "search_leaf_loop c g key (bt_is_leaf t) (bt_ptr t) = Some (Inr l)" using loop by auto
      have "bit_leaf_search l key = Inr x" using bt_ok_leaf [OF t(1) l(1)] l(2) by (simp add: wf_leaf_search)
      then show ?thesis using miss cs l(3) t(2,3) Some upd [OF l(1)]
        by (intro exI [of _ l]) (simp add: bit_file_search_def bit_file_search_leaf_def)
    qed
  qed
qed

section \<open>The iterator delivers the leaves\<close>

text \<open>Leaves linked from \<open>p\<close> to \<open>q\<close>, and leaves that are full but for the last.\<close>

fun linked :: "bit_pointer \<Rightarrow> (bit_pointer \<times> bit_leaf) list \<Rightarrow> bit_pointer \<Rightarrow> bool" where
  "linked p [] q \<longleftrightarrow> p = q"
| "linked p ((p', l) # ls) q \<longleftrightarrow> p = p' \<and> linked (lf_next l) ls q"

fun packed :: "bit_leaf list \<Rightarrow> bool" where
  "packed (l # l' # ls) \<longleftrightarrow> nr_record l = BIT_LEAF_LEN \<and> packed (l' # ls)"
| "packed _ \<longleftrightarrow> True"

lemma linked_append: "linked p (xs @ ys) q \<longleftrightarrow> (\<exists>m. linked p xs m \<and> linked m ys q)"
proof (induction xs arbitrary: p)
  case (Cons x xs)
  then show ?case by (cases x) simp
qed simp

lemma packed_Cons: "packed (l # ls) \<longleftrightarrow> (ls \<noteq> [] \<longrightarrow> nr_record l = BIT_LEAF_LEN) \<and> packed ls"
  by (cases ls) auto

lemma packed_full: "(\<And>l. l \<in> set ls \<Longrightarrow> nr_record l = BIT_LEAF_LEN) \<Longrightarrow> packed (ls @ ls') \<longleftrightarrow> packed ls'"
  by (induction ls) (simp_all add: packed_Cons)

definition leaf_stored :: "aead \<Rightarrow> bfile \<Rightarrow> bit_pointer \<times> bit_leaf \<Rightarrow> bool" where
  "leaf_stored c g = (\<lambda>(p, l). stored c g p (BitLeaf l) \<and> wf_leaf l \<and> 0 < nr_record l)"

definition leaf_placed :: "aead \<Rightarrow> bfile \<Rightarrow> nat \<Rightarrow> nat \<Rightarrow> bit_pointer \<times> bit_leaf \<Rightarrow> bool" where
  "leaf_placed c g lo hi x \<longleftrightarrow> leaf_stored c g x \<and> lo \<le> bp_pos (fst x) \<and> bp_pos (fst x) + BIT_LEAF_NODE_SIZE \<le> hi"

definition it_rel :: "aead \<Rightarrow> bfile \<Rightarrow> nat \<Rightarrow> nat \<Rightarrow> bit_iterator \<Rightarrow> (u32 \<times> index_record) list \<Rightarrow> bool" where
  "it_rel c g lo hi it es \<longleftrightarrow>
     (if it_has_next it then
        \<exists>ls q. wf_leaf (it_leaf it) \<and> cur_record it < nr_record (it_leaf it) \<and> linked (lf_next (it_leaf it)) ls q \<and>
          packed (it_leaf it # map snd ls) \<and> list_all (leaf_placed c g lo hi) ls \<and>
          es = drop (cur_record it) (leaf_recs (it_leaf it)) @ concat (map (\<lambda>(p, l). leaf_recs l) ls) \<and>
          sorted_wrt (<) (map fst es) \<and> fst (last es) = bf_last_key (it_file it)
      else es = [])"

text \<open>Writing elsewhere keeps what the iterator will deliver.\<close>

lemma it_rel_frame:
  assumes "it_rel c g lo hi it es" "\<And>a. lo \<le> a \<Longrightarrow> a < hi \<Longrightarrow> g' a = g a"
  shows "it_rel c g' lo hi it es"
proof -
  have "leaf_placed c g' lo hi x" if "leaf_placed c g lo hi x" for x
    using that stored_frame [where n = "BitLeaf (snd x)" and g' = g', OF _ _ _ assms(2), of c "fst x"]
    by (auto simp: leaf_placed_def leaf_stored_def split: prod.splits)
  then have "list_all (leaf_placed c g lo hi) ls \<Longrightarrow> list_all (leaf_placed c g' lo hi) ls" for ls by (auto simp: list_all_iff)
  then show ?thesis using assms(1) unfolding it_rel_def by (auto split: if_splits)
qed

lemma leaf_recs_nth: "wf_leaf l \<Longrightarrow> i < nr_record l \<Longrightarrow> leaf_recs l ! i = (lf_keys l ! i, lf_records l ! i)"
  by (simp add: leaf_recs_def wf_leaf_def)

lemma it_rel_has_next: "it_rel c g lo hi it es \<Longrightarrow> bit_iterator_has_next it \<longleftrightarrow> es \<noteq> []"
  by (auto simp: it_rel_def bit_iterator_has_next_def leaf_recs_length split: if_splits)

lemma it_rel_next:
  assumes c: "aead_ok c" and rel: "it_rel c g lo hi it (x # xs)"
  shows "\<exists>it'. bit_iterator_next c g it = (Inr x, it') \<and> it_rel c g lo hi it' xs \<and> it_file it' = it_file it"
proof -
  have hn: "it_has_next it" using it_rel_has_next [OF rel] by (simp add: bit_iterator_has_next_def)
  define l where "l = it_leaf it"
  define i where "i = cur_record it"
  obtain ls q where wf: "wf_leaf l" "i < nr_record l" and lk: "linked (lf_next l) ls q" and pk: "packed (l # map snd ls)"
    and st: "list_all (leaf_placed c g lo hi) ls" and es: "x # xs = drop i (leaf_recs l) @ concat (map (\<lambda>(p, l). leaf_recs l) ls)"
    and srt: "sorted_wrt (<) (map fst (x # xs))" and lst: "fst (last (x # xs)) = bf_last_key (it_file it)"
    using rel hn unfolding it_rel_def l_def i_def by (metis (no_types, lifting))
  have dr: "drop i (leaf_recs l) = leaf_recs l ! i # drop (Suc i) (leaf_recs l)"
    using wf by (simp add: Cons_nth_drop_Suc leaf_recs_length)
  then have x: "x = (lf_keys l ! i, lf_records l ! i)"
    and xs: "xs = drop (Suc i) (leaf_recs l) @ concat (map (\<lambda>(p, l). leaf_recs l) ls)"
    using es wf by (simp_all add: leaf_recs_nth)
  show ?thesis
  proof (cases "bf_last_key (it_file it) \<le> fst x")
    case True
    then have "xs = []" using srt lst by (cases xs rule: rev_cases) auto
    then show ?thesis using hn True x
      by (simp add: bit_iterator_next_def bit_iterator_has_next_def l_def i_def it_rel_def Let_def)
  next
    case False
    then have ne: "xs \<noteq> []" using lst by auto
    then have srt': "sorted_wrt (<) (map fst xs)" and lst': "fst (last xs) = bf_last_key (it_file it)"
      using srt lst by simp_all
    show ?thesis
    proof (cases "Suc i = nr_record l")
      case True
      then have "ls \<noteq> []" using ne xs wf by (auto simp: leaf_recs_length)
      then obtain p l' ls' where ls: "ls = (p, l') # ls'" by (cases ls) auto
      then have full: "Suc i = BIT_LEAF_LEN" using pk True by simp
      have l': "wf_leaf l'" "stored c g (lf_next l) (BitLeaf l')" "0 < nr_record l'" and st': "list_all (leaf_placed c g lo hi) ls'"
        using lk st by (auto simp: ls leaf_placed_def leaf_stored_def)
      have "it_rel c g lo hi (it\<lparr>it_leaf := l', cur_record := 0\<rparr>) xs"
        unfolding it_rel_def using hn l' st' lk pk ls xs True wf srt' lst'
        by (auto simp: leaf_recs_length intro!: exI [of _ ls'])
      then show ?thesis using hn False x full stored_leaf [OF c l'(1,2)] bytes_leaf_bytes [OF l'(1)]
        by (simp add: bit_iterator_next_def bit_iterator_has_next_def l_def i_def Let_def)
    next
      case nf: False
      have "i + 1 \<noteq> BIT_LEAF_LEN" using nf wf by (auto simp: wf_leaf_def)
      moreover have "it_rel c g lo hi (it\<lparr>cur_record := i + 1\<rparr>) xs"
        unfolding it_rel_def using hn wf lk pk st xs nf srt' lst' by (auto simp: l_def intro!: exI [of _ ls])
      ultimately show ?thesis using hn False x
        by (simp add: bit_iterator_next_def bit_iterator_has_next_def l_def i_def Let_def)
    qed
  qed
qed

lemma it_rel_unique: "aead_ok c \<Longrightarrow> it_rel c g lo hi it es \<Longrightarrow> it_rel c g lo' hi' it es' \<Longrightarrow> es = es'"
proof (induction es arbitrary: it es')
  case Nil
  then show ?case using it_rel_has_next by metis
next
  case (Cons x xs)
  then obtain y ys where es': "es' = y # ys" using it_rel_has_next by (metis list.exhaust)
  obtain i1 where i1: "bit_iterator_next c g it = (Inr x, i1)" "it_rel c g lo hi i1 xs"
    using it_rel_next [OF Cons.prems(1,2)] by auto
  obtain i2 where i2: "bit_iterator_next c g it = (Inr y, i2)" "it_rel c g lo' hi' i2 ys"
    using it_rel_next [OF Cons.prems(1) Cons.prems(3) [unfolded es']] by auto
  have "x = y" "i1 = i2" using i1(1) i2(1) by simp_all
  then show ?case using Cons.IH [OF Cons.prems(1) i1(2)] i2(2) by (simp add: es')
qed

definition it_inv :: "aead \<Rightarrow> bfile \<Rightarrow> bit_iterator \<Rightarrow> bool" where
  "it_inv c g it \<longleftrightarrow> aead_ok c \<and> (\<exists>lo hi es. it_rel c g lo hi it es)"

definition it_rest :: "aead \<Rightarrow> bfile \<Rightarrow> bit_iterator \<Rightarrow> (u32 \<times> index_record) list" where
  "it_rest c g it = (THE es. \<exists>lo hi. it_rel c g lo hi it es)"

lemma it_rest_eq: "aead_ok c \<Longrightarrow> it_rel c g lo hi it es \<Longrightarrow> it_rest c g it = es"
  unfolding it_rest_def by (rule the_equality) (auto intro: it_rel_unique)

interpretation bit_iter: iterator bit_iterator_has_next "bit_iterator_next c g" "\<lambda>it. map Inr (it_rest c g it)" "it_inv c g"
  for c g
proof
  fix i assume "it_inv c g i"
  then show "bit_iterator_has_next i \<longleftrightarrow> map Inr (it_rest c g i) \<noteq> []"
    by (auto simp: it_inv_def it_rest_eq it_rel_has_next)
next
  fix i and x :: "(u32 \<times> index_record) result" and xs
  assume inv: "it_inv c g i" and ct: "map Inr (it_rest c g i) = x # xs"
  obtain lo hi es where c: "aead_ok c" and es: "it_rel c g lo hi i es" using inv by (auto simp: it_inv_def)
  obtain y ys where y: "es = y # ys" "x = Inr y" "xs = map Inr ys"
    using ct by (auto simp: it_rest_eq [OF c es])
  obtain i' where "bit_iterator_next c g i = (Inr y, i')" "it_rel c g lo hi i' ys"
    using it_rel_next [OF c] es y(1) by blast
  then show "\<exists>i'. bit_iterator_next c g i = (x, i') \<and> map Inr (it_rest c g i') = xs \<and> it_inv c g i'"
    using c by (auto simp: y it_inv_def it_rest_eq)
qed

end
