(* ===== verification/Catalogue.thy ===== *)
theory Catalogue
  imports Superblock Bit_File
begin

text \<open>
  The catalogue of the index files, \<open>metadata.c\<close> lines 699 to 886: it numbers the files with a
  segment validator and keeps their statistics in a disk array. The specification is the map of the
  files that exist.
\<close>

section \<open>Statistics on disk\<close>

definition sizeof_file_stat :: nat where
  "sizeof_file_stat = 8 + 8 + AES_GCM_KEY_SIZE + AES_GCM_IV_SIZE + 8 + 8 + 8 + 4 + 4 + 16"

text \<open>The list node at the end of the structure is zero whenever it is stored.\<close>

definition fs_enc :: "file_stat \<Rightarrow> byte list" where
  "fs_enc s = le_bytes 8 (fs_root s) @ le_bytes 8 (fs_filter_begin s) @ fs_root_key s @ fs_root_iv s @
     le_bytes 8 (fs_id s) @ le_bytes 8 (fs_level s) @ le_bytes 8 (fs_version s) @
     le32 (fs_first_key s) @ le32 (fs_last_key s) @ replicate 16 0"

definition fs_dec :: "byte list \<Rightarrow> file_stat" where
  "fs_dec bs = \<lparr>fs_root = le_nat (slice 0 8 bs), fs_filter_begin = le_nat (slice 8 8 bs),
     fs_root_key = slice 16 AES_GCM_KEY_SIZE bs, fs_root_iv = slice 32 AES_GCM_IV_SIZE bs,
     fs_id = le_nat (slice 44 8 bs), fs_level = le_nat (slice 52 8 bs), fs_version = le_nat (slice 60 8 bs),
     fs_first_key = get32 68 bs, fs_last_key = get32 72 bs\<rparr>"

definition fs_ok :: "file_stat \<Rightarrow> bool" where
  "fs_ok s \<longleftrightarrow> fs_root s < 2 ^ 64 \<and> fs_filter_begin s < 2 ^ 64 \<and> length (fs_root_key s) = AES_GCM_KEY_SIZE \<and>
     length (fs_root_iv s) = AES_GCM_IV_SIZE \<and> fs_id s < 2 ^ 64 \<and> fs_level s < 2 ^ 64 \<and> fs_version s < 2 ^ 64"

section \<open>The catalogue\<close>

record bit_catalogue =
  bc_start :: nat
  bc_index_region_start :: nat
  bc_nr_bit :: nat
  max_version :: nat
  bit_validity_table :: seg_validator
  file_stats :: disk_array
  cat_start :: nat
  cat_nr_disk_level :: nat
  cat_common_ratio :: nat
  cat_max_level_nr_file :: nat
  cat_total_file :: nat
  cat_file_size :: nat

definition bitc_alloc_file :: "bit_catalogue \<Rightarrow> block_manager \<Rightarrow> nat result \<times> bit_catalogue \<times> block_manager" where
  "bitc_alloc_file this bm =
     (case seg_validator_alloc (bit_validity_table this, bm) of
        (r, vt, bm') \<Rightarrow> (r, this\<lparr>bit_validity_table := vt\<rparr>, bm'))"

definition bitc_release_file :: "bit_catalogue \<Rightarrow> block_manager \<Rightarrow> nat \<Rightarrow> unit result \<times> block_manager" where
  "bitc_release_file this bm fd =
     (case seg_validator_test_and_return (bit_validity_table this) bm fd of
        (Inl r, bm') \<Rightarrow> (Inl r, bm') | (Inr _, bm') \<Rightarrow> (Inr (), bm'))"

definition bitc_set_file_stats :: "bit_catalogue \<Rightarrow> block_manager \<Rightarrow> nat \<Rightarrow> file_stat \<Rightarrow> unit result \<times> block_manager" where
  "bitc_set_file_stats this bm fd stats = disk_array_set (file_stats this) bm fd (fs_enc stats)"

definition bitc_get_file_stats :: "bit_catalogue \<Rightarrow> block_manager \<Rightarrow> nat \<Rightarrow> file_stat result" where
  "bitc_get_file_stats this bm fd =
     (case disk_array_get (file_stats this) bm fd of Inl _ \<Rightarrow> Inl ENODATA | Inr bs \<Rightarrow> Inr (fs_dec bs))"

text \<open>The list of statistics is filled as far as the loop gets; \<open>oks\<close> says which allocations succeed.\<close>

fun bitc_stats_loop :: "(nat \<Rightarrow> bool) \<Rightarrow> bit_catalogue \<Rightarrow> block_manager \<Rightarrow> nat list \<Rightarrow> file_stat list \<Rightarrow> unit result \<times> file_stat list" where
  "bitc_stats_loop oks this bm [] stats = (Inr (), stats)"
| "bitc_stats_loop oks this bm (i # is) stats =
     (case disk_bitset_get (seg_validity_table (bit_validity_table this)) bm i of
        Inl r \<Rightarrow> (Inl r, stats)
      | Inr valid \<Rightarrow>
          if valid then
            if \<not> oks i then (Inl ENOMEM, stats)
            else bitc_stats_loop oks this bm is
                   (case disk_array_get (file_stats this) bm i of Inl _ \<Rightarrow> stats | Inr bs \<Rightarrow> stats @ [fs_dec bs])
          else bitc_stats_loop oks this bm is stats)"

definition bitc_get_all_file_stats :: "(nat \<Rightarrow> bool) \<Rightarrow> bit_catalogue \<Rightarrow> block_manager \<Rightarrow> unit result \<times> file_stat list" where
  "bitc_get_all_file_stats oks this bm =
     bitc_stats_loop oks this bm [0..<sv_nr_segment (bit_validity_table this)] []"

definition bitc_get_next_version :: "bit_catalogue \<Rightarrow> nat \<times> bit_catalogue" where
  "bitc_get_next_version this = (max_version this, this\<lparr>max_version := max_version this + 1\<rparr>)"

definition bit_catalogue_format :: "bit_catalogue \<Rightarrow> block_manager \<Rightarrow> unit result \<times> bit_catalogue \<times> block_manager" where
  "bit_catalogue_format this bm =
     (case seg_validator_format (bit_validity_table this) bm of
        (Inl r, vt, bm') \<Rightarrow> (Inl r, this\<lparr>bit_validity_table := vt\<rparr>, bm')
      | (Inr _, vt, bm') \<Rightarrow>
          (case disk_array_format (file_stats this) False bm' of
             (r, bm'') \<Rightarrow> (r, this\<lparr>bit_validity_table := vt\<rparr>, bm'')))"

definition newer_version :: "nat \<Rightarrow> nat \<Rightarrow> nat" where
  "newer_version m v = (if m < v then v + 1 else m)"

definition bitc_get_current_version :: "(nat \<Rightarrow> bool) \<Rightarrow> bit_catalogue \<Rightarrow> block_manager \<Rightarrow> nat" where
  "bitc_get_current_version oks this bm =
     foldl newer_version 0 (map fs_version (snd (bitc_get_all_file_stats oks this bm)))"

text \<open>\<open>ok_vt\<close>, \<open>ok_set\<close>, \<open>ok_array\<close> and \<open>ok_stats\<close> are the allocations of the two tables.\<close>

definition bit_catalogue_init ::
  "bool \<Rightarrow> bool \<Rightarrow> bool \<Rightarrow> bool \<Rightarrow> (nat \<Rightarrow> bool) \<Rightarrow> block_manager \<Rightarrow> superblock \<Rightarrow> bit_catalogue result" where
  "bit_catalogue_init ok_vt ok_set ok_array ok_stats oks bm sb =
     (let start = unat (block_index_table_catalogue_start sb);
          cap = unat (max_disk_level_capacity sb);
          nr_bit = total_bit (unat (nr_disk_level sb)) (unat (common_ratio sb)) cap;
          max_fd = nr_bit + extra_bit cap
      in case seg_validator_create ok_vt ok_set ok_array start max_fd of
           None \<Rightarrow> Inl ENOMEM
         | Some vt \<Rightarrow>
             (case disk_array_create ok_stats (start + seg_validity_table_blocks max_fd) max_fd sizeof_file_stat of
                None \<Rightarrow> Inl ENOMEM
              | Some fs \<Rightarrow>
                  let this = \<lparr>bc_start = start, bc_index_region_start = unat (index_region_start sb), bc_nr_bit = nr_bit,
                              max_version = 0, bit_validity_table = vt, file_stats = fs,
                              cat_start = unat (index_region_start sb) * SWORNDISK_METADATA_BLOCK_SIZE,
                              cat_nr_disk_level = unat (nr_disk_level sb), cat_common_ratio = unat (common_ratio sb),
                              cat_max_level_nr_file = total_bit 2 (unat (common_ratio sb)) cap,
                              cat_total_file = nr_bit, cat_file_size = lsm_file_size\<rparr>
                  in Inr (this\<lparr>max_version := bitc_get_current_version oks this bm\<rparr>)))"

definition bit_catalogue_create ::
  "bool \<Rightarrow> bool \<Rightarrow> bool \<Rightarrow> bool \<Rightarrow> bool \<Rightarrow> (nat \<Rightarrow> bool) \<Rightarrow> block_manager \<Rightarrow> superblock \<Rightarrow> bit_catalogue option" where
  "bit_catalogue_create ok ok_vt ok_set ok_array ok_stats oks bm sb =
     (if \<not> ok then None
      else case bit_catalogue_init ok_vt ok_set ok_array ok_stats oks bm sb of Inl _ \<Rightarrow> None | Inr this \<Rightarrow> Some this)"

section \<open>The catalogue keeps its contract\<close>

lemma length_fs_enc: "fs_ok s \<Longrightarrow> length (fs_enc s) = sizeof_file_stat"
  by (simp add: fs_enc_def fs_ok_def sizeof_file_stat_def)

lemma fs_dec_enc: "fs_ok s \<Longrightarrow> fs_dec (fs_enc s) = s"
  by (simp add: fs_enc_def fs_dec_def fs_ok_def slice_append_left slice_append_right get32_def
      AES_GCM_KEY_SIZE_def AES_GCM_IV_SIZE_def)

lemma fs_ok_dec:
  assumes "length bs = sizeof_file_stat"
  shows "fs_ok (fs_dec bs)"
proof -
  have "le_nat (slice p 8 bs) < 2 ^ 64" if "p \<le> 84" for p
    using le_nat_less [of "slice p 8 bs"] assms that
    by (simp add: len_simps sizeof_file_stat_def AES_GCM_KEY_SIZE_def AES_GCM_IV_SIZE_def)
  then show ?thesis using assms
    by (simp add: fs_ok_def fs_dec_def len_simps sizeof_file_stat_def AES_GCM_KEY_SIZE_def AES_GCM_IV_SIZE_def)
qed

interpretation fs_table: coded_table "disk_array_get this" "disk_array_set this" "da_nr_entry this"
  "\<lambda>e. length e = sizeof_file_stat" "da_sized sizeof_file_stat this" fs_enc fs_dec fs_ok
  by unfold_locales (simp_all add: length_fs_enc fs_dec_enc fs_ok_dec)

definition cat_bits :: "bit_catalogue \<Rightarrow> disk_array" where
  "cat_bits this = db_array (seg_validity_table (bit_validity_table this))"

definition cat_inv :: "bit_catalogue \<times> block_manager \<Rightarrow> bool" where
  "cat_inv s \<longleftrightarrow> sv_inv (bit_validity_table (fst s), snd s) \<and> da_sized sizeof_file_stat (file_stats (fst s)) (snd s) \<and>
     da_nr_entry (file_stats (fst s)) = sv_nr_segment (bit_validity_table (fst s)) \<and>
     da_span (cat_bits (fst s)) \<inter> da_span (file_stats (fst s)) = {}"

definition cat_used :: "bit_catalogue \<times> block_manager \<Rightarrow> nat set" where
  "cat_used s = sv_used (bit_validity_table (fst s), snd s)"

definition cat_len :: "bit_catalogue \<Rightarrow> nat" where
  "cat_len this = sv_nr_segment (bit_validity_table this)"

definition stat_at :: "bit_catalogue \<times> block_manager \<Rightarrow> nat \<Rightarrow> file_stat" where
  "stat_at s fd = projr (bitc_get_file_stats (fst s) (snd s) fd)"

lemma cat_get:
  assumes "cat_inv (this, bm)" "fd < cat_len this"
  shows "bitc_get_file_stats this bm fd = Inr (stat_at (this, bm) fd)"
    "map_sum id fs_dec (disk_array_get (file_stats this) bm fd) = Inr (stat_at (this, bm) fd)"
proof -
  from assms obtain v where "disk_array_get (file_stats this) bm fd = Inr v"
    using sized.get_cell [of sizeof_file_stat "file_stats this" bm fd] by (auto simp: cat_inv_def cat_len_def)
  then show "bitc_get_file_stats this bm fd = Inr (stat_at (this, bm) fd)"
    "map_sum id fs_dec (disk_array_get (file_stats this) bm fd) = Inr (stat_at (this, bm) fd)"
    by (simp_all add: bitc_get_file_stats_def stat_at_def)
qed

lemma stats_loop_ok:
  assumes "cat_inv (this, bm)" "\<forall>i \<in> set is. i < cat_len this"
  shows "bitc_stats_loop (\<lambda>_. True) this bm is acc =
    (Inr (), acc @ map (stat_at (this, bm)) (filter (\<lambda>i. i \<in> cat_used (this, bm)) is))"
  using assms(2)
proof (induction "is" arbitrary: acc)
  case (Cons i "is")
  then have i: "i < cat_len this" by simp
  have b: "disk_bitset_get (seg_validity_table (bit_validity_table this)) bm i = Inr (i \<in> cat_used (this, bm))"
    using assms(1) i sv_get [of "bit_validity_table this" bm i] by (simp add: cat_inv_def cat_used_def cat_len_def)
  have "\<exists>bs. disk_array_get (file_stats this) bm i = Inr bs \<and> fs_dec bs = stat_at (this, bm) i"
    using cat_get(2) [OF assms(1) i] by (cases "disk_array_get (file_stats this) bm i") auto
  then show ?case using Cons by (auto simp: b)
qed simp

lemma get_all_ok:
  "cat_inv (this, bm) \<Longrightarrow> bitc_get_all_file_stats (\<lambda>_. True) this bm =
    (Inr (), map (stat_at (this, bm)) (filter (\<lambda>i. i \<in> cat_used (this, bm)) [0..<cat_len this]))"
  using stats_loop_ok [of this bm "[0..<cat_len this]" "[]"] by (simp add: bitc_get_all_file_stats_def cat_len_def)

lemma cat_frame:
  assumes "cat_inv (this, bm)" "bm_ok bm'" "bm_block_size bm' = SWORNDISK_METADATA_BLOCK_SIZE" "file_stats this' = file_stats this"
    "\<And>b. b \<in> da_span (file_stats this) \<Longrightarrow> bm_buf bm' b = bm_buf bm b"
  shows "stat_at (this', bm') = stat_at (this, bm)"
  using assms disk_array_get_cong [of "file_stats this" bm bm']
  by (auto simp: fun_eq_iff stat_at_def bitc_get_file_stats_def cat_inv_def da_sized_def da_inv_def)

lemma sv_alloc_frame:
  assumes inv: "sv_inv (this, bm)" and a: "seg_validator_alloc (this, bm) = (r, this', bm')"
  shows "seg_validity_table this' = seg_validity_table this" "sv_nr_segment this' = sv_nr_segment this"
    "b \<notin> da_span (db_array (seg_validity_table this)) \<Longrightarrow> bm_buf bm' b = bm_buf bm b"
    "r = Inl e \<Longrightarrow> bm' = bm"
proof -
  obtain r1 t1 where n: "seg_validator_next this bm = (r1, t1)" by (metis prod.collapse)
  obtain c where t1: "t1 = this\<lparr>sv_cur_segment := c\<rparr>" using sv_next(1) [OF inv n] ..
  have "seg_validity_table this' = seg_validity_table this \<and> sv_nr_segment this' = sv_nr_segment this \<and>
     (b \<notin> da_span (db_array (seg_validity_table this)) \<longrightarrow> bm_buf bm' b = bm_buf bm b) \<and> (r = Inl e \<longrightarrow> bm' = bm)"
  proof (cases r1)
    case (Inr seg)
    then have seg: "seg < sv_nr_segment this" using sv_next(2) [OF inv n] by simp
    obtain bm1 where b: "disk_bitset_operate (seg_validity_table this) bm seg True = (Inr (), bm1)"
      using sv_operate [OF inv seg, of True] by auto
    show ?thesis using a n Inr b disk_bitset_operate_span [OF _ _ b] inv seg
      by (auto simp: t1 seg_validator_alloc_def seg_validator_take_def disk_bitset_set_def sv_inv_def)
  qed (use a n in \<open>auto simp: t1 seg_validator_alloc_def\<close>)
  then show "seg_validity_table this' = seg_validity_table this" "sv_nr_segment this' = sv_nr_segment this"
    "b \<notin> da_span (db_array (seg_validity_table this)) \<Longrightarrow> bm_buf bm' b = bm_buf bm b" "r = Inl e \<Longrightarrow> bm' = bm" by simp_all
qed

lemma sv_inv_bm: "sv_inv (this, bm) \<Longrightarrow> bm_ok bm \<and> bm_block_size bm = SWORNDISK_METADATA_BLOCK_SIZE"
  by (simp add: sv_inv_def db_inv_def da_inv_def)

lemma cat_inv_change:
  assumes "cat_inv (this, bm)" "file_stats this' = file_stats this" "cat_bits this' = cat_bits this" "cat_len this' = cat_len this"
    "sv_inv (bit_validity_table this', bm')"
  shows "cat_inv (this', bm')"
  using assms sv_inv_bm [OF assms(5)] by (simp add: cat_inv_def cat_len_def da_sized_def da_inv_def)

lemma cat_alloc_ok:
  assumes inv: "cat_inv (this, bm)" and a: "bitc_alloc_file this bm = (r, this', bm')"
  shows "cat_inv (this', bm')" "cat_len this' = cat_len this" "stat_at (this', bm') = stat_at (this, bm)"
    "case r of
      Inr fd \<Rightarrow> fd < cat_len this \<and> fd \<notin> cat_used (this, bm) \<and> cat_used (this', bm') = insert fd (cat_used (this, bm))
    | Inl e \<Rightarrow> e = ENODATA \<and> cat_used (this, bm) = {..<cat_len this} \<and> cat_used (this', bm') = cat_used (this, bm)"
proof -
  obtain vt where v: "seg_validator_alloc (bit_validity_table this, bm) = (r, vt, bm')" and t: "this' = this\<lparr>bit_validity_table := vt\<rparr>"
    using a by (auto simp: bitc_alloc_file_def split: prod.splits)
  have sv: "sv_inv (bit_validity_table this, bm)" using inv by (simp add: cat_inv_def)
  note f = sv_alloc_frame [OF sv v] and c = sv_alloc_cases [OF sv v]
  have sv': "sv_inv (vt, bm')" using c f(1,2,4) sv by (cases r) (auto simp: sv_inv_def)
  show i: "cat_inv (this', bm')" and "cat_len this' = cat_len this"
    using f(1,2) sv' by (auto simp: t cat_len_def cat_bits_def intro!: cat_inv_change [OF inv])
  show "stat_at (this', bm') = stat_at (this, bm)"
    by (rule cat_frame [OF inv]) (use sv_inv_bm [OF sv'] f(3) inv in \<open>auto simp: t cat_inv_def cat_bits_def\<close>)
  show "case r of
      Inr fd \<Rightarrow> fd < cat_len this \<and> fd \<notin> cat_used (this, bm) \<and> cat_used (this', bm') = insert fd (cat_used (this, bm))
    | Inl e \<Rightarrow> e = ENODATA \<and> cat_used (this, bm) = {..<cat_len this} \<and> cat_used (this', bm') = cat_used (this, bm)"
    using c f(1,2,4) by (cases r) (auto simp: t cat_used_def cat_len_def sv_used_def)
qed

lemma cat_release_ok:
  assumes inv: "cat_inv (this, bm)" and fd: "fd < cat_len this" and a: "bitc_release_file this bm fd = (r, bm')"
  shows "r = Inr ()" "cat_inv (this, bm')" "stat_at (this, bm') = stat_at (this, bm)" "cat_used (this, bm') = cat_used (this, bm) - {fd}"
proof -
  let ?v = "bit_validity_table this"
  have sv: "sv_inv (?v, bm)" and i: "fd < sv_nr_segment ?v" using inv fd by (simp_all add: cat_inv_def cat_len_def)
  obtain bm1 where b: "disk_bitset_operate (seg_validity_table ?v) bm fd False = (Inr (), bm1)" "sv_inv (?v, bm1)"
    "sv_used (?v, bm1) = sv_used (?v, bm) - {fd}" using sv_operate [OF sv i, of False] by auto
  have e: "r = Inr ()" "bm' = bm1"
    using a b(1) by (simp_all add: bitc_release_file_def seg_validator_test_and_return_def disk_bitset_clear_def sv_get [OF sv i])
  show "r = Inr ()" "cat_inv (this, bm')" "cat_used (this, bm') = cat_used (this, bm) - {fd}"
    using b cat_inv_change [OF inv, of this bm1] by (simp_all add: e cat_used_def)
  have "bm_buf bm1 b' = bm_buf bm b'" if "b' \<in> da_span (file_stats this)" for b'
    using disk_bitset_operate_span [OF _ _ b(1)] sv i inv that by (auto simp: sv_inv_def cat_inv_def cat_bits_def)
  then show "stat_at (this, bm') = stat_at (this, bm)"
    using cat_frame [OF inv] sv_inv_bm [OF b(2)] by (simp add: e)
qed

lemma cat_set_ok:
  assumes inv: "cat_inv (this, bm)" and fd: "fd < cat_len this" and s: "fs_ok s" and a: "bitc_set_file_stats this bm fd s = (r, bm')"
  shows "r = Inr ()" "cat_inv (this, bm')" "\<And>i. i < cat_len this \<Longrightarrow> stat_at (this, bm') i = (if i = fd then s else stat_at (this, bm) i)"
    "cat_used (this, bm') = cat_used (this, bm)"
proof -
  let ?f = "file_stats this" and ?v = "bit_validity_table this"
  have sz: "da_sized sizeof_file_stat ?f bm" and i: "fd < da_nr_entry ?f" using inv fd by (simp_all add: cat_inv_def cat_len_def)
  obtain bm1 where b: "disk_array_set ?f bm fd (fs_enc s) = (Inr (), bm1)" "da_sized sizeof_file_stat ?f bm1"
    "\<forall>j < da_nr_entry ?f. map_sum id fs_dec (disk_array_get ?f bm1 j) = (if j = fd then Inr s else map_sum id fs_dec (disk_array_get ?f bm j))"
    using fs_table.typed.set_cell [OF sz i s] by blast
  have e: "r = Inr ()" "bm' = bm1" using a b(1) by (simp_all add: bitc_set_file_stats_def)
  have da: "da_inv ?f bm" "length (fs_enc s) = da_entry_size ?f" using sz length_fs_enc [OF s] by (simp_all add: da_sized_def)
  have fr: "bm_buf bm1 b' = bm_buf bm b'" if "b' \<in> da_span (cat_bits this)" for b'
    using disk_array_set_span [OF da b(1)] that inv by (auto simp: cat_inv_def)
  have sv: "sv_inv (?v, bm1)" using inv b(2) by (simp add: cat_inv_def sv_inv_def db_inv_def da_inv_def da_sized_def)
  have "disk_bitset_get (seg_validity_table ?v) bm1 j = disk_bitset_get (seg_validity_table ?v) bm j" for j
    by (rule disk_bitset_get_cong) (use inv sv fr in \<open>auto simp: cat_inv_def sv_inv_def cat_bits_def\<close>)
  then show "cat_used (this, bm') = cat_used (this, bm)" by (simp add: e cat_used_def sv_used_def)
  show "r = Inr ()" and inv': "cat_inv (this, bm')" using cat_inv_change [OF inv _ _ _ sv] by (simp_all add: e)
  show "stat_at (this, bm') j = (if j = fd then s else stat_at (this, bm) j)" if "j < cat_len this" for j
    using cat_get(2) [OF inv that] cat_get(2) [OF inv' that] b(3) that inv by (auto simp: e cat_inv_def cat_len_def)
qed

section \<open>Files in the catalogue\<close>

text \<open>What the tree does with the catalogue: it adds a file, taking a number and then recording its
  statistics, and drops one. The last component is the specification, the files that exist.\<close>

datatype cat_op = AddFile file_stat | DropFile nat

type_synonym cat_state = "(bit_catalogue \<times> block_manager) \<times> (nat \<rightharpoonup> file_stat)"

fun cat_step :: "cat_op \<Rightarrow> cat_state \<Rightarrow> cat_state" where
  "cat_step (AddFile st) ((this, bm), live) =
     (case bitc_alloc_file this bm of
        (Inl _, this', bm') \<Rightarrow> ((this', bm'), live)
      | (Inr fd, this', bm') \<Rightarrow> ((this', snd (bitc_set_file_stats this' bm' fd st)), live(fd \<mapsto> st)))"
| "cat_step (DropFile fd) ((this, bm), live) = ((this, snd (bitc_release_file this bm fd)), live(fd := None))"

fun cat_legal :: "nat \<Rightarrow> cat_op \<Rightarrow> bool" where
  "cat_legal n (AddFile st) = fs_ok st"
| "cat_legal n (DropFile fd) = (fd < n)"

definition cat_rel :: "nat \<Rightarrow> cat_state \<Rightarrow> bool" where
  "cat_rel n s \<longleftrightarrow> (case s of (c, live) \<Rightarrow> cat_inv c \<and> cat_len (fst c) = n \<and> cat_used c = dom live \<and>
     (\<forall>fd st. live fd = Some st \<longrightarrow> stat_at c fd = st))"

lemma cat_used_less: "fd \<in> cat_used (this, bm) \<Longrightarrow> fd < cat_len this"
  by (simp add: cat_used_def cat_len_def sv_used_def)

lemma cat_step_rel:
  assumes "cat_rel n s" "cat_legal n op"
  shows "cat_rel n (cat_step op s)"
proof -
  obtain this bm live where s: "s = ((this, bm), live)" by (metis prod.collapse)
  have r: "cat_inv (this, bm)" "cat_len this = n" "cat_used (this, bm) = dom live" "\<forall>fd st. live fd = Some st \<longrightarrow> stat_at (this, bm) fd = st"
    using assms(1) by (simp_all add: s cat_rel_def)
  show ?thesis
  proof (cases op)
    case (AddFile st)
    obtain r0 this' bm' where a: "bitc_alloc_file this bm = (r0, this', bm')" by (metis prod.collapse)
    note A = cat_alloc_ok [OF r(1) a]
    show ?thesis
    proof (cases r0)
      case (Inr fd)
      obtain r1 bm1 where b: "bitc_set_file_stats this' bm' fd st = (r1, bm1)" by (metis prod.collapse)
      have fd: "fd < cat_len this'" "fd \<notin> dom live" using A Inr r by auto
      have ok: "fs_ok st" using assms(2) AddFile by simp
      note S = cat_set_ok [OF A(1) fd(1) ok b]
      have "stat_at (this', bm1) i = x" if "(live(fd \<mapsto> st)) i = Some x" for i x
        using that S(3) [of i] A(2,3) r(3,4) fd cat_used_less [of i this bm] by (auto split: if_splits)
      then show ?thesis using A S Inr r by (simp add: s AddFile a b cat_rel_def)
    qed (use A r in \<open>simp add: s AddFile a cat_rel_def\<close>)
  next
    case (DropFile fd)
    obtain r1 bm1 where b: "bitc_release_file this bm fd = (r1, bm1)" by (metis prod.collapse)
    have "fd < cat_len this" using assms(2) DropFile r by simp
    note S = cat_release_ok [OF r(1) this b]
    show ?thesis using S r by (simp add: s DropFile b cat_rel_def)
  qed
qed

lemma cat_run_rel:
  "cat_rel n s \<Longrightarrow> \<forall>op \<in> set ops. cat_legal n op \<Longrightarrow> cat_rel n (fold cat_step ops s)"
  by (induction ops arbitrary: s) (simp_all add: cat_step_rel)

section \<open>Creating and formatting the catalogue\<close>

definition cat_max_fd :: "superblock \<Rightarrow> nat" where
  "cat_max_fd sb = total_bit (unat (nr_disk_level sb)) (unat (common_ratio sb)) (unat (max_disk_level_capacity sb)) +
     extra_bit (unat (max_disk_level_capacity sb))"

lemma validity_blocks_span:
  assumes "disk_bitset_create True True start n = Some t"
  shows "da_span (db_array t) \<subseteq> {start ..< start + seg_validity_table_blocks n}" "db_nr_bit t = n"
    "da_region (db_array t) \<subseteq> {start ..< Suc (start + seg_validity_table_blocks n)}"
proof -
  have "(k * 8 + 7) div 4096 = k div 512" for k :: nat
  proof -
    have "(k * 8 + 7) div 4096 = ((k * 8 + 7) div 8) div 512" by (simp only: div_mult2_eq [symmetric]) simp
    then show ?thesis by simp
  qed
  then have k: "(7 + k * 8) div 4096 = k div 512" for k :: nat by (simp add: add.commute)
  have l: "Suc k div 512 \<le> Suc (k div 512)" for k :: nat using div_add1_eq [of k 1 512] by auto
  show "da_span (db_array t) \<subseteq> {start ..< start + seg_validity_table_blocks n}" "db_nr_bit t = n"
    "da_region (db_array t) \<subseteq> {start ..< Suc (start + seg_validity_table_blocks n)}"
    using assms l [of "(n - Suc 0) div 64"]
    by (auto simp: disk_bitset_create_def disk_bitset_init_def disk_array_create_def disk_array_init_def da_span_def da_region_def
        seg_validity_table_blocks_def disk_bitset_nr_group_def BITS_PER_LONG_def SWORNDISK_METADATA_BLOCK_SIZE_def k
        disk_array_blocks_def split: if_splits)
qed

lemma sv_create_ok:
  assumes "bm_ok bm" "bm_block_size bm = SWORNDISK_METADATA_BLOCK_SIZE"
  obtains this where "seg_validator_create True True True start n = Some this" "sv_inv (this, bm)" "sv_nr_segment this = n"
    "da_span (db_array (seg_validity_table this)) \<subseteq> {start ..< start + seg_validity_table_blocks n}"
    "da_region (db_array (seg_validity_table this)) \<subseteq> {start ..< Suc (start + seg_validity_table_blocks n)}"
proof -
  obtain t where t: "disk_bitset_create True True start n = Some t"
    by (simp add: disk_bitset_create_def disk_bitset_init_def disk_array_create_def)
  show ?thesis
    by (rule that [of "\<lparr>sv_nr_segment = n, sv_cur_segment = 0, seg_validity_table = t\<rparr>"])
      (use bitset_create_ok [OF t assms] validity_blocks_span [OF t] t in
        \<open>simp_all add: seg_validator_create_def seg_validator_init_def sv_inv_def\<close>)
qed

lemma sv_format_ok:
  assumes "sv_inv (this, bm)"
  obtains this' bm' where "seg_validator_format this bm = (Inr (), this', bm')" "sv_inv (this', bm')" "sv_used (this', bm') = {}"
    "sv_nr_segment this' = sv_nr_segment this" "seg_validity_table this' = seg_validity_table this"
    "\<And>b. b \<notin> da_region (db_array (seg_validity_table this)) \<Longrightarrow> bm_buf bm' b = bm_buf bm b"
proof -
  have db: "db_inv (seg_validity_table this) bm" using assms by (simp add: sv_inv_def)
  obtain r bm1 where f: "disk_bitset_format (seg_validity_table this) False bm = (r, bm1)" by (metis prod.collapse)
  note F = bitset_format_ok [OF db f]
  show ?thesis
    by (rule that [of "this\<lparr>sv_cur_segment := 0\<rparr>" bm1])
      (use F f assms in \<open>auto simp: seg_validator_format_def sv_inv_def sv_used_def\<close>)
qed

lemma sv_used_frame:
  assumes "sv_inv (this, bm)" "bm_ok bm'" "bm_block_size bm' = SWORNDISK_METADATA_BLOCK_SIZE"
    "\<And>b. b \<in> da_span (db_array (seg_validity_table this)) \<Longrightarrow> bm_buf bm' b = bm_buf bm b"
  shows "sv_inv (this, bm')" "sv_used (this, bm') = sv_used (this, bm)"
proof -
  show i: "sv_inv (this, bm')" using assms(1-3) by (simp add: sv_inv_def db_inv_def da_inv_def)
  then show "sv_used (this, bm') = sv_used (this, bm)"
    using disk_bitset_get_cong [OF _ _ assms(4)] assms(1) by (simp add: sv_inv_def sv_used_def)
qed

lemma cat_create_ok:
  fixes sb :: superblock
  assumes bm: "bm_ok bm" "bm_block_size bm = SWORNDISK_METADATA_BLOCK_SIZE"
  defines "start \<equiv> unat (block_index_table_catalogue_start sb)"
  obtains this where "bit_catalogue_create True True True True True oks bm sb = Some this" "cat_inv (this, bm)"
    "cat_len this = cat_max_fd sb" "da_region (cat_bits this) \<subseteq> {start..}" "da_region (file_stats this) \<subseteq> {start..}"
    "da_span (cat_bits this) \<inter> da_region (file_stats this) = {}"
proof -
  let ?n = "cat_max_fd sb"
  let ?s = "start + seg_validity_table_blocks ?n"
  obtain vt where v: "seg_validator_create True True True start ?n = Some vt" "sv_inv (vt, bm)" "sv_nr_segment vt = ?n"
    "da_span (db_array (seg_validity_table vt)) \<subseteq> {start ..< ?s}"
    "da_region (db_array (seg_validity_table vt)) \<subseteq> {start ..< Suc ?s}" by (rule sv_create_ok [OF bm]) (rule that)
  obtain fs where f: "disk_array_create True ?s ?n sizeof_file_stat = Some fs" by (simp add: disk_array_create_def)
  note F = array_create_ok [OF f bm, unfolded sizeof_file_stat_def AES_GCM_KEY_SIZE_def AES_GCM_IV_SIZE_def SWORNDISK_METADATA_BLOCK_SIZE_def, simplified]
  have r: "da_region fs \<subseteq> {?s..}" using F by (auto simp: da_region_def)
  have d: "da_span (db_array (seg_validity_table vt)) \<inter> da_region fs = {}" using v(4) r by fastforce
  have sz: "da_sized sizeof_file_stat fs bm" using F by (simp add: da_sized_def sizeof_file_stat_def AES_GCM_KEY_SIZE_def AES_GCM_IV_SIZE_def)
  then have sp: "da_span fs \<subseteq> da_region fs" by (intro da_span_region) (simp add: da_sized_def da_inv_def)
  obtain this where t: "bit_catalogue_create True True True True True oks bm sb = Some this" "bit_validity_table this = vt" "file_stats this = fs"
    using v(1) f by (simp add: bit_catalogue_create_def bit_catalogue_init_def Let_def cat_max_fd_def start_def)
  show ?thesis
  proof (rule that [OF t(1)])
    show "cat_inv (this, bm)" using t v d sp sz F(2) by (auto simp: cat_inv_def cat_bits_def)
  qed (use t v r d in \<open>auto simp: cat_bits_def cat_len_def\<close>)
qed

lemma cat_format_ok:
  assumes inv: "cat_inv (this, bm)" and d: "da_span (cat_bits this) \<inter> da_region (file_stats this) = {}"
  obtains this' bm' where "bit_catalogue_format this bm = (Inr (), this', bm')" "cat_inv (this', bm')" "cat_used (this', bm') = {}"
    "cat_len this' = cat_len this" "\<And>b. b \<notin> da_region (cat_bits this) \<union> da_region (file_stats this) \<Longrightarrow> bm_buf bm' b = bm_buf bm b"
    "this' = this\<lparr>bit_validity_table := bit_validity_table this'\<rparr>" "cat_bits this' = cat_bits this"
proof -
  have sv: "sv_inv (bit_validity_table this, bm)" using inv by (simp add: cat_inv_def)
  obtain vt bm1 where v: "seg_validator_format (bit_validity_table this) bm = (Inr (), vt, bm1)" "sv_inv (vt, bm1)" "sv_used (vt, bm1) = {}"
    "sv_nr_segment vt = sv_nr_segment (bit_validity_table this)" "seg_validity_table vt = seg_validity_table (bit_validity_table this)"
    "\<And>b. b \<notin> da_region (cat_bits this) \<Longrightarrow> bm_buf bm1 b = bm_buf bm b"
    by (rule sv_format_ok [OF sv, folded cat_bits_def]) (rule that)
  have da: "da_inv (file_stats this) bm1" using inv sv_inv_bm [OF v(2)] by (simp add: cat_inv_def da_sized_def da_inv_def)
  obtain bm2 where f: "disk_array_format (file_stats this) False bm1 = (Inr (), bm2)" "da_inv (file_stats this) bm2"
    "\<And>b. b \<notin> da_region (file_stats this) \<Longrightarrow> bm_buf bm2 b = bm_buf bm1 b" by (rule disk_array_format_ok [OF da, of False]) (rule that)
  have fr: "bm_buf bm2 b = bm_buf bm1 b" if "b \<in> da_span (db_array (seg_validity_table vt))" for b
    using f(3) d that by (auto simp: v(5) cat_bits_def)
  have b2: "bm_ok bm2" "bm_block_size bm2 = SWORNDISK_METADATA_BLOCK_SIZE" using f(2) by (simp_all add: da_inv_def)
  note u = sv_used_frame [OF v(2) b2 fr]
  let ?t = "this\<lparr>bit_validity_table := vt\<rparr>"
  show ?thesis
  proof (rule that [of ?t bm2])
    show "cat_inv (?t, bm2)" using u(1) v(4,5) by (intro cat_inv_change [OF inv]) (simp_all add: cat_bits_def cat_len_def)
  qed (use u v f in \<open>auto simp: bit_catalogue_format_def cat_used_def cat_len_def cat_bits_def\<close>)
qed

lemma cat_fresh_rel:
  assumes "bm_ok bm" "bm_block_size bm = SWORNDISK_METADATA_BLOCK_SIZE"
    and "bit_catalogue_create True True True True True oks bm sb = Some this" "bit_catalogue_format this bm = (r, s0)"
  shows "r = Inr ()" "cat_rel (cat_max_fd sb) (s0, Map.empty)"
proof -
  obtain t where t: "bit_catalogue_create True True True True True oks bm sb = Some t" "cat_inv (t, bm)" "cat_len t = cat_max_fd sb"
    "da_span (cat_bits t) \<inter> da_region (file_stats t) = {}" by (rule cat_create_ok [OF assms(1,2)]) (rule that)
  obtain t' bm' where f: "bit_catalogue_format t bm = (Inr (), t', bm')" "cat_inv (t', bm')" "cat_used (t', bm') = {}"
    "cat_len t' = cat_len t" by (rule cat_format_ok [OF t(2,4)]) (rule that)
  show "r = Inr ()" "cat_rel (cat_max_fd sb) (s0, Map.empty)" using assms(3,4) t f by (auto simp: cat_rel_def)
qed

lemma cat_rel_all:
  assumes "cat_rel n ((this, bm), live)"
  shows "bitc_get_all_file_stats (\<lambda>_. True) this bm = (Inr (), map (the \<circ> live) (filter (\<lambda>fd. live fd \<noteq> None) [0..<n]))"
proof -
  have r: "cat_inv (this, bm)" "cat_len this = n" "cat_used (this, bm) = dom live" "\<forall>fd st. live fd = Some st \<longrightarrow> stat_at (this, bm) fd = st"
    using assms by (simp_all add: cat_rel_def)
  show ?thesis using r by (auto simp: get_all_ok dom_def)
qed

section \<open>Properties of the catalogue\<close>

text \<open>C5. The catalogue tracks the files of the tree. In a formatted catalogue, whatever files are
  added and dropped, listing returns the statistics of exactly the files that exist, in the order
  of their numbers, looking up one of them returns what was recorded, and a number that is
  allocated next belongs to no existing file, allocation failing only when all are in use.\<close>

theorem catalogue_tracks_files:
  assumes "bm_ok bm" "bm_block_size bm = SWORNDISK_METADATA_BLOCK_SIZE"
    and "bit_catalogue_create True True True True True (\<lambda>_. True) bm sb = Some this" "bit_catalogue_format this bm = (r, s0)"
    and "\<forall>op \<in> set ops. cat_legal (cat_max_fd sb) op" "fold cat_step ops (s0, Map.empty) = ((c, bm'), live)"
  shows "r = Inr () \<and>
    bitc_get_all_file_stats (\<lambda>_. True) c bm' =
      (Inr (), map (the \<circ> live) (filter (\<lambda>fd. live fd \<noteq> None) [0..<cat_max_fd sb])) \<and>
    (\<forall>fd st. live fd = Some st \<longrightarrow> fd < cat_max_fd sb \<and> bitc_get_file_stats c bm' fd = Inr st) \<and>
    (case fst (bitc_alloc_file c bm') of
       Inr fd \<Rightarrow> fd < cat_max_fd sb \<and> live fd = None
     | Inl e \<Rightarrow> e = ENODATA \<and> dom live = {..<cat_max_fd sb})"
proof -
  note f = cat_fresh_rel [OF assms(1-4)]
  have rel: "cat_rel (cat_max_fd sb) ((c, bm'), live)" using cat_run_rel [OF f(2) assms(5)] assms(6) by simp
  then have c: "cat_inv (c, bm')" "cat_len c = cat_max_fd sb" "cat_used (c, bm') = dom live"
    "\<forall>fd st. live fd = Some st \<longrightarrow> stat_at (c, bm') fd = st" by (simp_all add: cat_rel_def)
  have "fd < cat_max_fd sb \<and> bitc_get_file_stats c bm' fd = Inr st" if "live fd = Some st" for fd st
    using that c cat_get(1) [OF c(1), of fd] cat_used_less [of fd c bm'] by (auto simp: dom_def)
  moreover have "case fst (bitc_alloc_file c bm') of Inr fd \<Rightarrow> fd < cat_max_fd sb \<and> live fd = None
     | Inl e \<Rightarrow> e = ENODATA \<and> dom live = {..<cat_max_fd sb}"
    using cat_alloc_ok(4) [OF c(1), of "fst (bitc_alloc_file c bm')" "fst (snd (bitc_alloc_file c bm'))"
        "snd (snd (bitc_alloc_file c bm'))"] c by (auto split: sum.splits)
  ultimately show ?thesis using f(1) cat_rel_all [OF rel] by simp
qed

definition sample_stat :: "nat \<Rightarrow> file_stat" where
  "sample_stat v = \<lparr>fs_root = 0, fs_filter_begin = 0, fs_root_key = replicate AES_GCM_KEY_SIZE 0,
     fs_root_iv = replicate AES_GCM_IV_SIZE 0, fs_id = 0, fs_level = 0, fs_version = v, fs_first_key = 0, fs_last_key = 0\<rparr>"

definition sample_sb :: superblock where
  "sample_sb = superblock_layout 100 zero_superblock"

lemma sample_cat:
  obtains this s0 where "bit_catalogue_create True True True True True (\<lambda>_. True) sample_bm sample_sb = Some this"
    "bit_catalogue_format this sample_bm = (Inr (), s0)" "cat_rel (cat_max_fd sample_sb) (s0, Map.empty)" "0 < cat_max_fd sample_sb"
proof -
  obtain t where t: "bit_catalogue_create True True True True True (\<lambda>_. True) sample_bm sample_sb = Some t"
    by (rule cat_create_ok [OF sample_bm_ok]) (rule that)
  obtain r s0 where f: "bit_catalogue_format t sample_bm = (r, s0)" by (metis prod.collapse)
  show ?thesis by (rule that [of t s0])
    (use t f cat_fresh_rel [OF sample_bm_ok t f] in \<open>simp_all add: cat_max_fd_def total_bit_def DEFAULT_LSM_LEVEL0_NR_FILE_def\<close>)
qed

theorem catalogue_tracks_files_witness:
  "\<exists>this s0 c bm live. bit_catalogue_create True True True True True (\<lambda>_. True) sample_bm sample_sb = Some this \<and>
     bit_catalogue_format this sample_bm = (Inr (), s0) \<and>
     fold cat_step [AddFile (sample_stat 0), AddFile (sample_stat 1), DropFile 0] (s0, Map.empty) = ((c, bm), live) \<and>
     bitc_get_all_file_stats (\<lambda>_. True) c bm =
       (Inr (), map (the \<circ> live) (filter (\<lambda>fd. live fd \<noteq> None) [0..<cat_max_fd sample_sb]))"
proof (rule sample_cat)
  fix this s0
  assume c: "bit_catalogue_create True True True True True (\<lambda>_. True) sample_bm sample_sb = Some this"
    "bit_catalogue_format this sample_bm = (Inr (), s0)" "0 < cat_max_fd sample_sb"
  let ?ops = "[AddFile (sample_stat 0), AddFile (sample_stat 1), DropFile 0]"
  obtain c' bm live where f: "fold cat_step ?ops (s0, Map.empty) = ((c', bm), live)" by (metis prod.collapse)
  have "\<forall>op \<in> set ?ops. cat_legal (cat_max_fd sample_sb) op" using c(3) by (simp add: fs_ok_def sample_stat_def)
  from catalogue_tracks_files [OF sample_bm_ok c(1,2) this f] c f show ?thesis by blast
qed

lemma newer_version_fold: "foldl newer_version 0 [0..<2 * m + 1] = 2 * m"
  by (induction m) (simp_all add: newer_version_def)

lemma newer_version_bound: "\<forall>v \<in> set (m # vs). v \<le> foldl newer_version m vs"
proof (induction vs arbitrary: m)
  case (Cons v vs)
  have "m \<le> newer_version m v" "v \<le> newer_version m v" by (simp_all add: newer_version_def)
  then show ?case using Cons [of "newer_version m v"] by force
qed simp



end
