(* ===== verification/Metadata.thy ===== *)
theory Metadata
  imports Catalogue
begin

text \<open>
  The metadata of a volume as a whole, \<open>metadata.c\<close> lines 888 to 990: the superblock and the four
  tables behind it, created and, on an unformatted device, formatted when the volume is mounted.
\<close>

section \<open>Metadata\<close>

record metadata =
  md_superblock :: superblock
  md_seg_validator :: seg_validator
  md_rit :: reverse_index_table
  md_dst :: dst
  md_bit_catalogue :: bit_catalogue

text \<open>Formatting the four tables in order. The allocations of the data segment table, which is
  initialised again, are parameters; \<open>None\<close> is a loop that does not end.\<close>

definition metadata_format ::
  "bool \<Rightarrow> bool \<Rightarrow> (nat \<Rightarrow> bool) \<Rightarrow> metadata \<Rightarrow> block_manager \<Rightarrow> (unit result \<times> metadata \<times> block_manager) option" where
  "metadata_format ok_array ok_list oks this bm =
     (case seg_validator_format (md_seg_validator this) bm of
        (Inl r, sv, bm1) \<Rightarrow> Some (Inl r, this\<lparr>md_seg_validator := sv\<rparr>, bm1)
      | (Inr _, sv, bm1) \<Rightarrow>
          let this1 = this\<lparr>md_seg_validator := sv\<rparr> in
          (case reverse_index_table_format (md_rit this1) bm1 of
             (Inl r, bm2) \<Rightarrow> Some (Inl r, this1, bm2)
           | (Inr _, bm2) \<Rightarrow>
               (case dst_format ok_array ok_list oks (md_dst this1) bm2 of
                  None \<Rightarrow> None
                | Some (Inl r, d, bm3) \<Rightarrow> Some (Inl r, this1\<lparr>md_dst := d\<rparr>, bm3)
                | Some (Inr _, d, bm3) \<Rightarrow>
                    (case bit_catalogue_format (md_bit_catalogue this1) bm3 of
                       (r, cat, bm4) \<Rightarrow> Some (r, this1\<lparr>md_dst := d, md_bit_catalogue := cat\<rparr>, bm4)))))"

text \<open>The outcomes of the allocations: of the block manager and the five structures with their
  tables, and of the list nodes that the data segment table and the catalogue allocate.\<close>

record metadata_allocs =
  al_bm :: bool
  al_superblock :: bool
  al_sv :: "bool \<times> bool \<times> bool"
  al_rit :: "bool \<times> bool"
  al_dst :: "bool \<times> bool \<times> bool"
  al_victims :: "nat \<Rightarrow> bool"
  al_cat :: "bool \<times> bool \<times> bool \<times> bool \<times> bool"
  al_stats :: "nat \<Rightarrow> bool"
  al_format :: "bool \<times> bool"
  al_format_victims :: "nat \<Rightarrow> bool"

text \<open>The tables behind the superblock; none of these creations writes to the device.\<close>

definition metadata_tables :: "metadata_allocs \<Rightarrow> superblock \<Rightarrow> block_manager \<Rightarrow> metadata option" where
  "metadata_tables al sb bm =
     (case (al_sv al, al_rit al, al_dst al, al_cat al) of ((s1, s2, s3), (r1, r2), (d1, d2, d3), (c1, c2, c3, c4, c5)) \<Rightarrow>
        case seg_validator_create s1 s2 s3 (unat (seg_validity_table_start sb)) (unat (nr_segment sb)) of
          None \<Rightarrow> None
        | Some sv \<Rightarrow>
        case reverse_index_table_create r1 r2 (unat (reverse_index_table_start sb))
               (unat (nr_segment sb) * unat (blocks_per_seg sb)) of
          None \<Rightarrow> None
        | Some rit \<Rightarrow>
        case dst_create d1 d2 d3 (al_victims al) bm (unat (data_seg_table_start sb)) (unat (nr_segment sb)) of
          None \<Rightarrow> None
        | Some d \<Rightarrow>
        case bit_catalogue_create c1 c2 c3 c4 c5 (al_stats al) bm sb of
          None \<Rightarrow> None
        | Some cat \<Rightarrow> Some \<lparr>md_superblock = sb, md_seg_validator = sv, md_rit = rit, md_dst = d, md_bit_catalogue = cat\<rparr>)"

text \<open>Any failure is \<open>EAGAIN\<close>. \<open>bdev\<close> and \<open>fault\<close> are the device and its read errors; the manager is
  returned once it exists.\<close>

definition metadata_init ::
  "metadata_allocs \<Rightarrow> nat \<Rightarrow> superblock \<Rightarrow> nat \<Rightarrow> (nat \<Rightarrow> byte list) \<Rightarrow> (nat \<Rightarrow> errno option) \<Rightarrow>
   (metadata result \<times> block_manager option) option" where
  "metadata_init al NR_SEGMENT garbage nr_blocks bdev fault =
     (case dm_block_manager_create (al_bm al) SWORNDISK_METADATA_BLOCK_SIZE nr_blocks bdev fault of
        Inl _ \<Rightarrow> Some (Inl EAGAIN, None)
      | Inr bm \<Rightarrow>
          (case superblock_create (al_superblock al) NR_SEGMENT garbage bm of
             (None, bm1) \<Rightarrow> Some (Inl EAGAIN, Some bm1)
           | (Some (sb, should_format), bm1) \<Rightarrow>
               (case metadata_tables al sb bm1 of
                  None \<Rightarrow> Some (Inl EAGAIN, Some bm1)
                | Some this \<Rightarrow>
                    if should_format then
                      (case metadata_format (fst (al_format al)) (snd (al_format al)) (al_format_victims al) this bm1 of
                         None \<Rightarrow> None
                       | Some (Inl _, _, bm2) \<Rightarrow> Some (Inl EAGAIN, Some bm2)
                       | Some (Inr _, this', bm2) \<Rightarrow> Some (Inr this', Some bm2))
                    else Some (Inr this, Some bm1))))"

definition metadata_create ::
  "bool \<Rightarrow> metadata_allocs \<Rightarrow> nat \<Rightarrow> superblock \<Rightarrow> nat \<Rightarrow> (nat \<Rightarrow> byte list) \<Rightarrow> (nat \<Rightarrow> errno option) \<Rightarrow>
   (metadata option \<times> block_manager option) option" where
  "metadata_create ok al NR_SEGMENT garbage nr_blocks bdev fault =
     (if \<not> ok then Some (None, None)
      else map_option (\<lambda>(r, bm). (case r of Inl _ \<Rightarrow> None | Inr this \<Rightarrow> Some this, bm))
             (metadata_init al NR_SEGMENT garbage nr_blocks bdev fault))"

text \<open>Closing writes everything back; its result is ignored.\<close>

definition metadata_destroy :: "block_manager \<Rightarrow> block_manager" where
  "metadata_destroy bm = snd (dm_bm_flush bm)"

section \<open>Mounting\<close>

text \<open>All allocations succeed.\<close>

definition allocs_ok :: metadata_allocs where
  "allocs_ok = \<lparr>al_bm = True, al_superblock = True, al_sv = (True, True, True), al_rit = (True, True),
     al_dst = (True, True, True), al_victims = (\<lambda>_. True), al_cat = (True, True, True, True, True),
     al_stats = (\<lambda>_. True), al_format = (True, True), al_format_victims = (\<lambda>_. True)\<rparr>"

definition md_inv :: "metadata \<Rightarrow> block_manager \<Rightarrow> bool" where
  "md_inv md bm \<longleftrightarrow> sv_inv (md_seg_validator md, bm) \<and> da_sized 8 (rit_array (md_rit md)) bm \<and> dst_inv (md_dst md) bm \<and>
     cat_inv (md_bit_catalogue md, bm)"

lemma rit_create_ok:
  assumes "bm_ok bm" "bm_block_size bm = SWORNDISK_METADATA_BLOCK_SIZE"
  obtains this where "reverse_index_table_create True True start n = Some this" "da_sized 8 (rit_array this) bm"
    "da_nr_entry (rit_array this) = n" "da_region (rit_array this) = {start ..< start + disk_array_blocks n 8 SWORNDISK_METADATA_BLOCK_SIZE}"
proof -
  obtain a where a: "disk_array_create True start n 8 = Some a" by (simp add: disk_array_create_def)
  note A = array_create_ok [OF a assms, unfolded SWORNDISK_METADATA_BLOCK_SIZE_def, simplified]
  show ?thesis
    by (rule that [of "\<lparr>rit_nr_block = n, rit_array = a\<rparr>"])
      (use a A in \<open>simp_all add: reverse_index_table_create_def reverse_index_table_init_def da_sized_def da_region_def
         SWORNDISK_METADATA_BLOCK_SIZE_def\<close>)
qed

text \<open>The tables of a mount, with where they are.\<close>

definition md_placed :: "superblock \<Rightarrow> metadata \<Rightarrow> bool" where
  "md_placed sb md \<longleftrightarrow>
     da_span (db_array (seg_validity_table (md_seg_validator md))) \<subseteq>
       {unat (seg_validity_table_start sb) ..< unat (seg_validity_table_start sb) + seg_validity_table_blocks (unat (nr_segment sb))} \<and>
     da_region (db_array (seg_validity_table (md_seg_validator md))) \<subseteq>
       {unat (seg_validity_table_start sb) ..< Suc (unat (seg_validity_table_start sb) + seg_validity_table_blocks (unat (nr_segment sb)))} \<and>
     da_region (dst_array (md_dst md)) =
       {unat (data_seg_table_start sb) ..< unat (data_seg_table_start sb) + data_seg_table_blocks (unat (nr_segment sb))} \<and>
     da_region (rit_array (md_rit md)) =
       {unat (reverse_index_table_start sb) ..< unat (reverse_index_table_start sb) +
          reverse_index_table_blocks (unat (nr_segment sb)) (unat (blocks_per_seg sb))} \<and>
     da_region (cat_bits (md_bit_catalogue md)) \<subseteq> {unat (block_index_table_catalogue_start sb)..} \<and>
     da_region (file_stats (md_bit_catalogue md)) \<subseteq> {unat (block_index_table_catalogue_start sb)..}"

lemma metadata_tables_ok:
  assumes bm: "bm_ok bm" "bm_block_size bm = SWORNDISK_METADATA_BLOCK_SIZE"
  obtains md where "metadata_tables allocs_ok sb bm = Some md" "md_inv md bm" "md_placed sb md" "md_superblock md = sb"
    "sv_nr_segment (md_seg_validator md) = unat (nr_segment sb)" "dst_nr_segment (md_dst md) = unat (nr_segment sb)"
    "da_nr_entry (rit_array (md_rit md)) = unat (nr_segment sb) * unat (blocks_per_seg sb)"
    "cat_len (md_bit_catalogue md) = cat_max_fd sb"
    "dst_array (md_dst md) = disk_array_init (dst_start (md_dst md)) (dst_nr_segment (md_dst md)) DST_ENTRY_SIZE"
    "da_span (cat_bits (md_bit_catalogue md)) \<inter> da_region (file_stats (md_bit_catalogue md)) = {}"
    "bit_catalogue_create True True True True True (\<lambda>_. True) bm sb = Some (md_bit_catalogue md)"
proof -
  let ?n = "unat (nr_segment sb)"
  obtain sv where sv: "seg_validator_create True True True (unat (seg_validity_table_start sb)) ?n = Some sv" "sv_inv (sv, bm)"
    "sv_nr_segment sv = ?n"
    "da_span (db_array (seg_validity_table sv)) \<subseteq> {unat (seg_validity_table_start sb) ..< unat (seg_validity_table_start sb) + seg_validity_table_blocks ?n}"
    "da_region (db_array (seg_validity_table sv)) \<subseteq> {unat (seg_validity_table_start sb) ..< Suc (unat (seg_validity_table_start sb) + seg_validity_table_blocks ?n)}"
    by (rule sv_create_ok [OF bm]) (rule that)
  obtain rit where rit: "reverse_index_table_create True True (unat (reverse_index_table_start sb)) (?n * unat (blocks_per_seg sb)) = Some rit"
    "da_sized 8 (rit_array rit) bm" "da_nr_entry (rit_array rit) = ?n * unat (blocks_per_seg sb)"
    "da_region (rit_array rit) = {unat (reverse_index_table_start sb) ..< unat (reverse_index_table_start sb) +
       disk_array_blocks (?n * unat (blocks_per_seg sb)) 8 SWORNDISK_METADATA_BLOCK_SIZE}"
    by (rule rit_create_ok [OF bm]) (rule that)
  obtain d where d: "dst_init True True (\<lambda>_. True) bm (unat (data_seg_table_start sb)) ?n = Inr d" "dst_inv d bm" "dst_nr_segment d = ?n"
    "dst_start d = unat (data_seg_table_start sb)" "dst_array d = disk_array_init (unat (data_seg_table_start sb)) ?n DST_ENTRY_SIZE"
    by (rule dst_init_ok [OF bm]) (rule that)
  obtain cat where c: "bit_catalogue_create True True True True True (\<lambda>_. True) bm sb = Some cat" "cat_inv (cat, bm)"
    "cat_len cat = cat_max_fd sb" "da_region (cat_bits cat) \<subseteq> {unat (block_index_table_catalogue_start sb)..}"
    "da_region (file_stats cat) \<subseteq> {unat (block_index_table_catalogue_start sb)..}"
    "da_span (cat_bits cat) \<inter> da_region (file_stats cat) = {}"
    by (rule cat_create_ok [OF bm]) (rule that)
  let ?md = "\<lparr>md_superblock = sb, md_seg_validator = sv, md_rit = rit, md_dst = d, md_bit_catalogue = cat\<rparr>"
  show ?thesis
  proof (rule that [of ?md])
    show "metadata_tables allocs_ok sb bm = Some ?md"
      using sv(1) rit(1) d(1) c(1) by (simp add: metadata_tables_def allocs_ok_def dst_create_def)
    show "md_inv ?md bm" using sv rit d c by (simp add: md_inv_def)
    have "da_region (dst_array d) = {unat (data_seg_table_start sb) ..< unat (data_seg_table_start sb) + data_seg_table_blocks ?n}"
      by (simp add: d(5) da_region_def disk_array_init_def data_seg_table_blocks_def)
    then show "md_placed sb ?md" using sv rit c by (simp add: md_placed_def reverse_index_table_blocks_def)
  qed (use sv rit d c in simp_all)
qed

text \<open>The layout puts the tables one behind the other.\<close>

definition md_ordered :: "superblock \<Rightarrow> bool" where
  "md_ordered sb \<longleftrightarrow> 0 < unat (seg_validity_table_start sb) \<and>
     unat (data_seg_table_start sb) = unat (seg_validity_table_start sb) + seg_validity_table_blocks (unat (nr_segment sb)) \<and>
     unat (reverse_index_table_start sb) = unat (data_seg_table_start sb) + data_seg_table_blocks (unat (nr_segment sb)) \<and>
     unat (block_index_table_catalogue_start sb) = unat (reverse_index_table_start sb) +
       reverse_index_table_blocks (unat (nr_segment sb)) (unat (blocks_per_seg sb))"

lemma layout_ordered: "N \<le> 2 ^ 32 \<Longrightarrow> md_ordered (superblock_layout N this)"
  using layout_regions [of N this]
  by (simp add: md_ordered_def superblock_regions_def Let_def SUPERBLOCK_BLOCKS_def)

lemma md_intervals:
  assumes "md_placed sb md" "md_ordered sb"
  obtains s d r b where "0 < s" "s \<le> d" "d \<le> r" "r \<le> b"
    "da_span (db_array (seg_validity_table (md_seg_validator md))) \<subseteq> {s..<d}"
    "da_region (db_array (seg_validity_table (md_seg_validator md))) \<subseteq> {s..<Suc d}"
    "da_region (dst_array (md_dst md)) = {d..<r}" "da_region (rit_array (md_rit md)) = {r..<b}"
    "da_region (cat_bits (md_bit_catalogue md)) \<subseteq> {b..}" "da_region (file_stats (md_bit_catalogue md)) \<subseteq> {b..}"
  by (rule that [of "unat (seg_validity_table_start sb)" "unat (data_seg_table_start sb)" "unat (reverse_index_table_start sb)"
        "unat (block_index_table_catalogue_start sb)"])
    (use assms in \<open>simp_all only: md_placed_def md_ordered_def le_add1\<close>)

text \<open>Formatting one table after the other: what each step leaves alone.\<close>

lemma format_frames:
  assumes ord: "0 < (s :: nat)" "s \<le> d" "d \<le> r" "r \<le> b"
    and bits: "span \<subseteq> {s..<d}" "B \<subseteq> {s..<Suc d}" and cat: "C \<subseteq> {b..}"
    and f1: "\<And>x. x \<notin> B \<Longrightarrow> m1 x = m0 x" and f2: "\<And>x. x \<notin> {r..<b} \<Longrightarrow> m2 x = m1 x"
    and f3: "\<And>x. x \<notin> {d..<r} \<Longrightarrow> m3 x = m2 x" and f4: "\<And>x. x \<notin> C \<Longrightarrow> m4 x = m3 x"
  shows "x \<in> span \<Longrightarrow> m4 x = m1 x" "x \<in> {d..<r} \<Longrightarrow> m4 x = m3 x" "x \<in> {r..<b} \<Longrightarrow> m4 x = m2 x" "m4 0 = m0 0"
proof -
  have c: "m4 x = m3 x" if "x < b" for x using f4 cat that by fastforce
  show "m4 x = m1 x" if "x \<in> span"
  proof -
    have "x < d" using that bits(1) by auto
    then show ?thesis using c [of x] f3 [of x] f2 [of x] ord by simp
  qed
  show "x \<in> {d..<r} \<Longrightarrow> m4 x = m3 x" using c ord by simp
  show "x \<in> {r..<b} \<Longrightarrow> m4 x = m2 x" using c [of x] f3 [of x] by simp
  have "0 \<notin> B" using bits(2) ord(1) by auto
  then show "m4 0 = m0 0" using c [of 0] f3 [of 0] f2 [of 0] f1 [of 0] ord by simp
qed

text \<open>Where the tables are does not change.\<close>

definition md_formatted :: "metadata \<Rightarrow> metadata \<Rightarrow> bool" where
  "md_formatted md md' \<longleftrightarrow> md_rit md' = md_rit md \<and> dst_array (md_dst md') = dst_array (md_dst md) \<and>
     dst_nr_segment (md_dst md') = dst_nr_segment (md_dst md) \<and>
     seg_validity_table (md_seg_validator md') = seg_validity_table (md_seg_validator md) \<and>
     sv_nr_segment (md_seg_validator md') = sv_nr_segment (md_seg_validator md) \<and>
     (let c = md_bit_catalogue md; c' = md_bit_catalogue md'
      in c' = c\<lparr>bit_validity_table := bit_validity_table c'\<rparr> \<and> cat_bits c' = cat_bits c \<and> cat_len c' = cat_len c)"

lemma md_formatted_placed: "md_formatted md md' \<Longrightarrow> md_placed sb md \<Longrightarrow> md_placed sb md'"
  unfolding md_formatted_def md_placed_def Let_def by (metis bit_catalogue.select_convs(6) bit_catalogue.surjective bit_catalogue.update_convs(5))

lemma metadata_format_ok:
  assumes md: "md_inv md bm" "md_placed sb md" and sb: "md_ordered sb"
    and arr: "dst_array (md_dst md) = disk_array_init (dst_start (md_dst md)) (dst_nr_segment (md_dst md)) DST_ENTRY_SIZE"
    and dis: "da_span (cat_bits (md_bit_catalogue md)) \<inter> da_region (file_stats (md_bit_catalogue md)) = {}"
  obtains md' bm' where "metadata_format True True (\<lambda>_. True) md bm = Some (Inr (), md', bm')" "md_inv md' bm'"
    "md_superblock md' = md_superblock md" "sv_used (md_seg_validator md', bm') = {}"
    "dst_entries (md_dst md', bm') = replicate (dst_nr_segment (md_dst md)) \<lparr>nr_valid_block = 0, block_validity_table = 0\<rparr>"
    "\<And>i. i < da_nr_entry (rit_array (md_rit md)) \<Longrightarrow> reverse_index_table_get (md_rit md') bm' i = Inr 0"
    "cat_used (md_bit_catalogue md', bm') = {}" "bm_buf bm' 0 = bm_buf bm 0" "md_formatted md md'"
proof -
  obtain s0 d0 r0 b0 where I: "0 < s0" "s0 \<le> d0" "d0 \<le> r0" "r0 \<le> b0"
    "da_span (db_array (seg_validity_table (md_seg_validator md))) \<subseteq> {s0..<d0}"
    "da_region (db_array (seg_validity_table (md_seg_validator md))) \<subseteq> {s0..<Suc d0}"
    "da_region (dst_array (md_dst md)) = {d0..<r0}" "da_region (rit_array (md_rit md)) = {r0..<b0}"
    "da_region (cat_bits (md_bit_catalogue md)) \<subseteq> {b0..}" "da_region (file_stats (md_bit_catalogue md)) \<subseteq> {b0..}"
    by (rule md_intervals [OF md(2) sb]) (rule that)
  let ?bits = "db_array (seg_validity_table (md_seg_validator md))" and ?rit = "rit_array (md_rit md)"
  obtain sv bm1 where v: "seg_validator_format (md_seg_validator md) bm = (Inr (), sv, bm1)" "sv_inv (sv, bm1)" "sv_used (sv, bm1) = {}"
    "seg_validity_table sv = seg_validity_table (md_seg_validator md)"
    "\<And>b. b \<notin> da_region ?bits \<Longrightarrow> bm_buf bm1 b = bm_buf bm b" "sv_nr_segment sv = sv_nr_segment (md_seg_validator md)"
    using md(1) by (auto simp: md_inv_def elim: sv_format_ok)
  note ok1 = sv_inv_bm [OF v(2)]
  have da: "da_inv ?rit bm1" "da_entry_size ?rit = 8" using md(1) ok1 by (simp_all add: md_inv_def da_sized_def da_inv_def)
  obtain bm2 where r: "disk_array_format ?rit False bm1 = (Inr (), bm2)" "da_inv ?rit bm2"
    "\<And>i. i < da_nr_entry ?rit \<Longrightarrow> disk_array_get ?rit bm2 i = Inr (replicate 8 0)"
    "\<And>b. b \<notin> da_region ?rit \<Longrightarrow> bm_buf bm2 b = bm_buf bm1 b"
    by (rule disk_array_format_ok [OF da(1), of False, unfolded da(2) format_byte_def, simplified]) (rule that)
  have d2: "da_inv (dst_array (md_dst md)) bm2" "vt_ok (md_dst md)"
    using md(1) r(2) dst_inv_parts [of "md_dst md" bm] by (simp_all add: md_inv_def da_inv_def)
  obtain d bm3 where d: "dst_format True True (\<lambda>_. True) (md_dst md) bm2 = Some (Inr (), d, bm3)" "dst_inv d bm3"
    "dst_entries (d, bm3) = replicate (dst_nr_segment (md_dst md)) \<lparr>nr_valid_block = 0, block_validity_table = 0\<rparr>"
    "dst_array d = dst_array (md_dst md)"
    "\<And>b. b \<notin> da_region (dst_array (md_dst md)) \<Longrightarrow> bm_buf bm3 b = bm_buf bm2 b" "dst_nr_segment d = dst_nr_segment (md_dst md)"
    by (rule dst_format_ok [OF d2 arr]) (rule that)
  have ok3: "bm_ok bm3" "bm_block_size bm3 = SWORNDISK_METADATA_BLOCK_SIZE"
    using dst_inv_parts(1) [OF d(2)] by (simp_all add: da_inv_def)
  have c3: "cat_inv (md_bit_catalogue md, bm3)"
    using md(1) ok3 by (simp add: md_inv_def cat_inv_def sv_inv_def db_inv_def da_inv_def da_sized_def)
  obtain cat bm4 where c: "bit_catalogue_format (md_bit_catalogue md) bm3 = (Inr (), cat, bm4)" "cat_inv (cat, bm4)" "cat_used (cat, bm4) = {}"
    "\<And>b. b \<notin> da_region (cat_bits (md_bit_catalogue md)) \<union> da_region (file_stats (md_bit_catalogue md)) \<Longrightarrow> bm_buf bm4 b = bm_buf bm3 b"
    "cat_len cat = cat_len (md_bit_catalogue md)" "cat = (md_bit_catalogue md)\<lparr>bit_validity_table := bit_validity_table cat\<rparr>"
    "cat_bits cat = cat_bits (md_bit_catalogue md)"
    by (rule cat_format_ok [OF c3 dis]) (rule that)
  have ok4: "bm_ok bm4" "bm_block_size bm4 = SWORNDISK_METADATA_BLOCK_SIZE" using sv_inv_bm c(2) by (auto simp: cat_inv_def)
  have "da_region (cat_bits (md_bit_catalogue md)) \<union> da_region (file_stats (md_bit_catalogue md)) \<subseteq> {b0..}" using I(9,10) by simp
  note F = format_frames [where ?m0.0 = "bm_buf bm" and ?m1.0 = "bm_buf bm1" and ?m2.0 = "bm_buf bm2" and ?m3.0 = "bm_buf bm3" and ?m4.0 = "bm_buf bm4",
      OF I(1-6) this v(5) r(4) [unfolded I(8)] d(5) [unfolded I(7)] c(4)]
  have "da_span ?rit \<subseteq> {r0..<b0}" "da_span (dst_array d) \<subseteq> {d0..<r0}"
    using da_span_region [of ?rit] da_span_region [of "dst_array d"] da(1) d2(1) by (simp_all add: da_inv_def d(4) I(7,8))
  then have r4: "\<And>x. x \<in> da_span ?rit \<Longrightarrow> bm_buf bm4 x = bm_buf bm2 x"
    and d4: "\<And>x. x \<in> da_span (dst_array d) \<Longrightarrow> bm_buf bm4 x = bm_buf bm3 x" using F(2,3) by blast+
  let ?md = "md\<lparr>md_seg_validator := sv, md_dst := d, md_bit_catalogue := cat\<rparr>"
  note S = sv_used_frame [OF v(2) ok4, unfolded v(4), OF F(1)] and D = dst_inv_frame [OF d(2) ok4 d4]
  have da4: "da_inv ?rit bm4" using da ok4 by (simp add: da_inv_def)
  have R: "reverse_index_table_get (md_rit md) bm4 i = Inr 0" if "i < da_nr_entry ?rit" for i
    using disk_array_get_cong [OF r(2) da4 r4, of i] r(3) [OF that]
    by (simp add: reverse_index_table_get_def reverse_index_table_get_entry_def rit_dec_def numeral_eq_Suc)
  have f: "metadata_format True True (\<lambda>_. True) md bm = Some (Inr (), ?md, bm4)"
    using v(1) r(1) d(1) c(1) by (simp add: metadata_format_def reverse_index_table_format_def)
  have i: "md_inv ?md bm4" using S D c da4 da(2) by (simp add: md_inv_def da_sized_def)
  have "md_formatted md ?md" using v(4,6) d(4,6) c(5-7) by (simp add: md_formatted_def)
  then show ?thesis by (intro that [OF f i]) (use S D c(3) R F(4) v(3) d(3) in simp_all)
qed

definition fresh_bm :: "nat \<Rightarrow> (nat \<Rightarrow> byte list) \<Rightarrow> block_manager" where
  "fresh_bm nr_blocks bdev = projr (dm_block_manager_create True SWORNDISK_METADATA_BLOCK_SIZE nr_blocks bdev (\<lambda>_. None))"

lemma fresh_bm_ok:
  assumes "\<forall>b. length (bdev b) = SWORNDISK_METADATA_BLOCK_SIZE"
  shows "dm_block_manager_create True SWORNDISK_METADATA_BLOCK_SIZE nr_blocks bdev (\<lambda>_. None) = Inr (fresh_bm nr_blocks bdev)"
    "bm_ok (fresh_bm nr_blocks bdev)" "bm_block_size (fresh_bm nr_blocks bdev) = SWORNDISK_METADATA_BLOCK_SIZE"
    "bm_buf (fresh_bm nr_blocks bdev) = bdev" "bm_dirty (fresh_bm nr_blocks bdev) = {}"
  using assms by (simp_all add: fresh_bm_def dm_block_manager_create_def bm_ok_def)

text \<open>What a mount makes of a device without a superblock.\<close>

lemma mount_formats:
  fixes nr_blocks :: nat
  assumes dev: "\<forall>b. length (bdev b) = SWORNDISK_METADATA_BLOCK_SIZE" and N: "N \<le> 2 ^ 32"
    and inv: "\<not> superblock_validate (decode_superblock (bdev SUPERBLOCK_LOCATION))"
  defines "sb \<equiv> superblock_layout N (decode_superblock (bdev SUPERBLOCK_LOCATION))"
    and "bm1 \<equiv> snd (superblock_write (superblock_layout N (decode_superblock (bdev SUPERBLOCK_LOCATION))) (fresh_bm nr_blocks bdev))"
  obtains md md' bm' where "metadata_init allocs_ok N g nr_blocks bdev (\<lambda>_. None) = Some (Inr md', Some bm')"
    "metadata_tables allocs_ok sb bm1 = Some md" "md_formatted md md'" "md_inv md' bm'" "md_placed sb md'" "md_superblock md' = sb"
    "sv_nr_segment (md_seg_validator md') = N" "dst_nr_segment (md_dst md') = N" "da_nr_entry (rit_array (md_rit md')) = N * BLOCKS_PER_SEGMENT"
    "cat_len (md_bit_catalogue md') = cat_max_fd sb" "bit_catalogue_create True True True True True (\<lambda>_. True) bm1 sb = Some (md_bit_catalogue md)"
    "sv_used (md_seg_validator md', bm') = {}" "dst_entries (md_dst md', bm') = replicate N \<lparr>nr_valid_block = 0, block_validity_table = 0\<rparr>"
    "\<And>i. i < N * BLOCKS_PER_SEGMENT \<Longrightarrow> reverse_index_table_get (md_rit md') bm' i = Inr 0"
    "cat_used (md_bit_catalogue md', bm') = {}" "bm_buf bm' 0 = bm_buf bm1 0" "bm_ok bm1" "bm_block_size bm1 = SWORNDISK_METADATA_BLOCK_SIZE"
    "superblock_read g bm1 = Inr (sb\<lparr>csum := superblock_checksum sb\<rparr>)" "superblock_validate (sb\<lparr>csum := superblock_checksum sb\<rparr>)"
proof -
  let ?b0 = "fresh_bm nr_blocks bdev"
  note B = fresh_bm_ok [OF dev, of nr_blocks]
  obtain r1 where w: "superblock_write sb ?b0 = (r1, bm1)" unfolding sb_def bm1_def by (metis prod.collapse)
  note W = superblock_write_ok [OF B(2,3) w]
  have c: "superblock_create True N g ?b0 = (Some (sb, True), bm1)"
    using inv w by (simp add: superblock_create_def superblock_init_def superblock_read_ok [OF B(2)] B(4) Let_def sb_def)
  have bm1: "bm_ok bm1" "bm_block_size bm1 = SWORNDISK_METADATA_BLOCK_SIZE" using W(2,3) B(3) by simp_all
  obtain md where md: "metadata_tables allocs_ok sb bm1 = Some md" "md_inv md bm1" "md_placed sb md" "md_superblock md = sb"
    "sv_nr_segment (md_seg_validator md) = unat (nr_segment sb)" "dst_nr_segment (md_dst md) = unat (nr_segment sb)"
    "da_nr_entry (rit_array (md_rit md)) = unat (nr_segment sb) * unat (blocks_per_seg sb)"
    "cat_len (md_bit_catalogue md) = cat_max_fd sb"
    "dst_array (md_dst md) = disk_array_init (dst_start (md_dst md)) (dst_nr_segment (md_dst md)) DST_ENTRY_SIZE"
    "da_span (cat_bits (md_bit_catalogue md)) \<inter> da_region (file_stats (md_bit_catalogue md)) = {}"
    "bit_catalogue_create True True True True True (\<lambda>_. True) bm1 sb = Some (md_bit_catalogue md)"
    by (rule metadata_tables_ok [OF bm1]) (rule that)
  have ord: "md_ordered sb" unfolding sb_def by (rule layout_ordered [OF N])
  obtain md' bm' where f: "metadata_format True True (\<lambda>_. True) md bm1 = Some (Inr (), md', bm')" "md_inv md' bm'"
    "md_superblock md' = md_superblock md" "sv_used (md_seg_validator md', bm') = {}"
    "dst_entries (md_dst md', bm') = replicate (dst_nr_segment (md_dst md)) \<lparr>nr_valid_block = 0, block_validity_table = 0\<rparr>"
    "\<And>i. i < da_nr_entry (rit_array (md_rit md)) \<Longrightarrow> reverse_index_table_get (md_rit md') bm' i = Inr 0"
    "cat_used (md_bit_catalogue md', bm') = {}" "bm_buf bm' 0 = bm_buf bm1 0" "md_formatted md md'"
    by (rule metadata_format_ok [OF md(2,3) ord md(9,10)]) (rule that)
  have n: "unat (nr_segment sb) = N" "unat (blocks_per_seg sb) = BLOCKS_PER_SEGMENT"
    using N by (simp_all add: sb_def superblock_layout_def Let_def unat_word_of_nat64 BLOCKS_PER_SEGMENT_def)
  have i: "metadata_init allocs_ok N g nr_blocks bdev (\<lambda>_. None) = Some (Inr md', Some bm')"
    using c md(1) f(1) B(1) by (simp add: metadata_init_def allocs_ok_def)
  have "magic sb = SUPERBLOCK_MAGIC" by (simp add: sb_def superblock_layout_def Let_def)
  then show thesis
    by (intro that [OF i md(1) f(9,2) md_formatted_placed [OF f(9) md(3)] _ _ _ _ _ md(11) f(4) _ _ f(7,8) bm1])
      (use f(3,5,6,9) md(4-8) n W bm1 in \<open>simp_all add: md_formatted_def Let_def superblock_read_ok superblock_validate_def\<close>)
qed

text \<open>C4. Mounting an empty device: when the device holds no valid superblock, mounting formats it and
  leaves a consistent, empty volume. No segment is in use, no block is valid, no block has an
  owner, no index file exists, and the superblock on the device validates; formatting a table
  damages neither the superblock nor the tables formatted before, although the bitmap of segments
  is formatted one block too far.\<close>

theorem metadata_mount_formats_empty:
  assumes "\<forall>b. length (bdev b) = SWORNDISK_METADATA_BLOCK_SIZE" "N \<le> 2 ^ 32"
    and "\<not> superblock_validate (decode_superblock (bdev SUPERBLOCK_LOCATION))"
  shows "\<exists>md bm. metadata_init allocs_ok N g nr_blocks bdev (\<lambda>_. None) = Some (Inr md, Some bm) \<and>
    seg_validator_valid_segment_count (md_seg_validator md) bm = Inr 0 \<and>
    dst_entries (md_dst md, bm) = replicate N \<lparr>nr_valid_block = 0, block_validity_table = 0\<rparr> \<and>
    (\<forall>pba < N * BLOCKS_PER_SEGMENT. reverse_index_table_get (md_rit md) bm pba = Inr 0) \<and>
    bitc_get_all_file_stats (\<lambda>_. True) (md_bit_catalogue md) bm = (Inr (), []) \<and>
    superblock_read g bm = Inr ((md_superblock md)\<lparr>csum := superblock_checksum (md_superblock md)\<rparr>) \<and>
    superblock_validate ((md_superblock md)\<lparr>csum := superblock_checksum (md_superblock md)\<rparr>)"
proof -
  let ?sb = "superblock_layout N (decode_superblock (bdev SUPERBLOCK_LOCATION))"
  obtain md md' bm' bm1 where f: "metadata_init allocs_ok N g nr_blocks bdev (\<lambda>_. None) = Some (Inr md', Some bm')"
    "md_inv md' bm'" "md_superblock md' = ?sb" "sv_used (md_seg_validator md', bm') = {}"
    "dst_entries (md_dst md', bm') = replicate N \<lparr>nr_valid_block = 0, block_validity_table = 0\<rparr>"
    "\<And>i. i < N * BLOCKS_PER_SEGMENT \<Longrightarrow> reverse_index_table_get (md_rit md') bm' i = Inr 0"
    "cat_used (md_bit_catalogue md', bm') = {}" "bm_buf bm' 0 = bm_buf bm1 0" "bm_ok bm1"
    "superblock_read g bm1 = Inr (?sb\<lparr>csum := superblock_checksum ?sb\<rparr>)" "superblock_validate (?sb\<lparr>csum := superblock_checksum ?sb\<rparr>)"
    by (rule mount_formats [OF assms]) (rule that)
  have bm': "bm_ok bm'" "sv_inv (md_seg_validator md', bm')" "cat_inv (md_bit_catalogue md', bm')"
    using f(2) sv_inv_bm by (auto simp: md_inv_def)
  have "superblock_read g bm' = superblock_read g bm1"
    using f(8,9) bm' by (simp add: superblock_read_ok SUPERBLOCK_LOCATION_def)
  then have "superblock_read g bm' = Inr (?sb\<lparr>csum := superblock_checksum ?sb\<rparr>)" using f(10) by simp
  then show ?thesis using f bm' by (intro exI [of _ md'] exI [of _ bm'])
    (simp add: sv_count get_all_ok)
qed

theorem metadata_mount_formats_empty_witness:
  "\<exists>md bm. metadata_init allocs_ok 32768 zero_superblock 0 (\<lambda>_. replicate SWORNDISK_METADATA_BLOCK_SIZE 0) (\<lambda>_. None) = Some (Inr md, Some bm) \<and>
     bitc_get_all_file_stats (\<lambda>_. True) (md_bit_catalogue md) bm = (Inr (), [])"
proof -
  let ?dev = "\<lambda>_ :: nat. replicate SWORNDISK_METADATA_BLOCK_SIZE (0 :: byte)"
  have "magic (decode_superblock (?dev SUPERBLOCK_LOCATION)) = 0"
    by (simp add: decode_superblock_def get64_def slice_def SWORNDISK_METADATA_BLOCK_SIZE_def) (simp add: eval_nat_numeral)
  then have "\<not> superblock_validate (decode_superblock (?dev SUPERBLOCK_LOCATION))" by (simp add: superblock_validate_def SUPERBLOCK_MAGIC_def)
  from metadata_mount_formats_empty [OF _ _ this, of 32768 zero_superblock 0] show ?thesis by auto
qed

text \<open>C32. Mounting a formatted device only reads: when the device holds a valid superblock, mounting
  succeeds with that superblock, whatever segment count it is called with, changes no block, leaves
  nothing to write back and starts in a state in which the four tables are well formed and the victims
  of the segment cleaner mirror the data segment table.\<close>

theorem metadata_mount_keeps_device:
  assumes "\<forall>b. length (bdev b) = SWORNDISK_METADATA_BLOCK_SIZE"
    and "superblock_validate (decode_superblock (bdev SUPERBLOCK_LOCATION))"
  shows "\<exists>md bm. metadata_init allocs_ok N g nr_blocks bdev (\<lambda>_. None) = Some (Inr md, Some bm) \<and>
    md_superblock md = decode_superblock (bdev SUPERBLOCK_LOCATION) \<and> bm_buf bm = bdev \<and> bm_dirty bm = {} \<and> md_inv md bm \<and>
    node_list (md_dst md) = map (\<lambda>i. victim_of i (dst_entry_at (md_dst md) bm i)) [0..<unat (nr_segment (md_superblock md))]"
proof -
  let ?b0 = "fresh_bm nr_blocks bdev" and ?sb = "decode_superblock (bdev SUPERBLOCK_LOCATION)"
  note B = fresh_bm_ok [OF assms(1), of nr_blocks]
  have c: "superblock_create True N g ?b0 = (Some (?sb, False), ?b0)"
    using assms(2) by (simp add: superblock_create_def superblock_init_def superblock_read_ok [OF B(2)] B(4))
  obtain md where md: "metadata_tables allocs_ok ?sb ?b0 = Some md" "md_inv md ?b0" "md_superblock md = ?sb"
    "dst_nr_segment (md_dst md) = unat (nr_segment ?sb)" by (rule metadata_tables_ok [OF B(2,3)]) (rule that)
  have "metadata_init allocs_ok N g nr_blocks bdev (\<lambda>_. None) = Some (Inr md, Some ?b0)"
    using c md(1) B(1) by (simp add: metadata_init_def allocs_ok_def)
  then show ?thesis using md B by (intro exI [of _ md] exI [of _ ?b0]) (simp add: md_inv_def dst_inv_def)
qed

definition sample_device :: "nat \<Rightarrow> byte list" where
  "sample_device = bm_buf (snd (superblock_write sample_sb sample_bm))"

theorem metadata_mount_keeps_device_witness:
  "\<exists>md bm. metadata_init allocs_ok 7 zero_superblock 0 sample_device (\<lambda>_. None) = Some (Inr md, Some bm) \<and>
     md_superblock md = sample_sb\<lparr>csum := superblock_checksum sample_sb\<rparr> \<and> bm_buf bm = sample_device"
proof -
  note W = superblock_write_ok [OF sample_bm_ok, of sample_sb, OF surjective_pairing]
  have l: "\<forall>b. length (sample_device b) = SWORNDISK_METADATA_BLOCK_SIZE"
    using W(2,3) sample_bm_ok(2) by (simp add: sample_device_def)
  have d: "decode_superblock (sample_device SUPERBLOCK_LOCATION) = sample_sb\<lparr>csum := superblock_checksum sample_sb\<rparr>"
    using W by (simp add: sample_device_def)
  have "magic sample_sb = SUPERBLOCK_MAGIC" by (simp add: sample_sb_def superblock_layout_def Let_def)
  then have "superblock_validate (decode_superblock (sample_device SUPERBLOCK_LOCATION))" by (simp add: d superblock_validate_def)
  from metadata_mount_keeps_device [OF l this, of 7 zero_superblock 0] show ?thesis by (auto simp: d)
qed

end
