(* ===== verification/Bit_Table.thy ===== *)
theory Bit_Table
  imports Bit_File
begin

text \<open>
  The builder writes what search and iterator read. File and buffer are an append-only log
  (\<open>bvf\<close>); the context holds the ghost trees that have no parent yet (\<open>ctx_rel\<close>), and as a number in
  base four it counts the leaves (\<open>wsum\<close>).
\<close>

section \<open>Appending to the buffer\<close>

lemma overwrite_append:
  "pos + length a + length b \<le> length xs \<Longrightarrow> overwrite (pos + length a) b (overwrite pos a xs) = overwrite pos (a @ b) xs"
  by (rule nth_equalityI) (auto simp: length_overwrite nth_overwrite nth_append)

lemma overwrite_append_rev:
  "pos + length a + length b \<le> length xs \<Longrightarrow> overwrite pos a (overwrite (pos + length a) b xs) = overwrite pos (a @ b) xs"
  by (rule nth_equalityI) (auto simp: length_overwrite nth_overwrite nth_append)

lemma overwrite_Nil: "overwrite pos [] xs = xs"
  by (simp add: overwrite_def)

lemma take_overwrite:
  "pos + length a \<le> length xs \<Longrightarrow> take (pos + length a) (overwrite pos a xs) = take pos xs @ a"
  by (rule nth_equalityI) (auto simp: length_overwrite nth_overwrite nth_append)

lemma kernel_write_append: "kernel_write f (a @ b) p = kernel_write (kernel_write f a p) b (p + length a)"
  by (rule ext) (auto simp: kernel_write_def nth_append)

lemma kernel_write_Nil [simp]: "kernel_write f [] p = f"
  by (rule ext) (auto simp: kernel_write_def)

text \<open>The file with the buffer written to it, and the builder after appending \<open>B\<close>.\<close>

definition bvf :: "bfile \<Rightarrow> bit_builder \<Rightarrow> bfile" where
  "bvf f this = kernel_write f (take (bb_cur this) (bb_buffer this)) (bb_begin this)"

definition appended :: "bit_builder \<Rightarrow> byte list \<Rightarrow> bit_builder \<Rightarrow> bool" where
  "appended this B this' \<longleftrightarrow>
     this' = this\<lparr>bb_ctx := bb_ctx this', bb_buffer := overwrite (bb_cur this) B (bb_buffer this), bb_cur := bb_cur this + length B\<rparr>"

lemma appended_refl [simp]: "appended this [] this"
  by (simp add: appended_def overwrite_def)

lemma appended_trans:
  assumes "appended a X b" "appended b Y d" "bb_cur a + length X + length Y \<le> length (bb_buffer a)"
  shows "appended a (X @ Y) d"
proof -
  define cb cd where "cb = bb_ctx b" and "cd = bb_ctx d"
  have b: "b = a\<lparr>bb_ctx := cb, bb_buffer := overwrite (bb_cur a) X (bb_buffer a), bb_cur := bb_cur a + length X\<rparr>"
    using assms(1) unfolding appended_def cb_def .
  have d: "d = b\<lparr>bb_ctx := cd, bb_buffer := overwrite (bb_cur b) Y (bb_buffer b), bb_cur := bb_cur b + length Y\<rparr>"
    using assms(2) unfolding appended_def cd_def .
  show ?thesis unfolding appended_def using assms(3) unfolding cd_def [symmetric] by (subst d) (simp add: b overwrite_append add.assoc)
qed

lemma appended_fields:
  assumes "appended this B this'"
  shows "bb_begin this' = bb_begin this" "bb_cur this' = bb_cur this + length B" "bb_height this' = bb_height this"
    "bb_buffer this' = overwrite (bb_cur this) B (bb_buffer this)" "cur_leaf this' = cur_leaf this"
    "next_key this' = next_key this" "next_iv this' = next_iv this" "bb_filter this' = bb_filter this"
    "has_first_key this' = has_first_key this" "bb_first_key this' = bb_first_key this" "bb_last_key this' = bb_last_key this"
    "bb_size this' = bb_size this" "bb_id this' = bb_id this" "bb_level this' = bb_level this" "bb_version this' = bb_version this"
  by (subst assms [unfolded appended_def]; simp)+

section \<open>The context as a number\<close>

primrec wsum :: "bit_builder_context list \<Rightarrow> nat" where
  "wsum [] = 0"
| "wsum (x # xs) = cx_nr x + 4 * wsum xs"

definition nsum :: "bit_builder_context list \<Rightarrow> nat" where
  "nsum ctx = sum_list (map cx_nr ctx)"

lemma wsum_update: "h < length ctx \<Longrightarrow> wsum (ctx[h := y]) + cx_nr (ctx ! h) * 4 ^ h = wsum ctx + cx_nr y * 4 ^ h"
proof (induction ctx arbitrary: h)
  case (Cons x ctx)
  show ?case
  proof (cases h)
    case (Suc k)
    then show ?thesis using Cons.IH [of k] Cons.prems by (simp add: algebra_simps)
  qed simp
qed simp

lemma nsum_update: "h < length ctx \<Longrightarrow> nsum (ctx[h := y]) + cx_nr (ctx ! h) = nsum ctx + cx_nr y"
proof (induction ctx arbitrary: h)
  case (Cons x ctx)
  then show ?case by (cases h) (auto simp: nsum_def)
qed simp

lemma wsum_digit: "h < length ctx \<Longrightarrow> cx_nr (ctx ! h) * 4 ^ h \<le> wsum ctx"
proof (induction ctx arbitrary: h)
  case (Cons x ctx)
  show ?case
  proof (cases h)
    case (Suc k)
    have "cx_nr (ctx ! k) * 4 ^ k * 4 \<le> wsum ctx * 4" using Cons.IH [of k] Cons.prems Suc by simp
    then show ?thesis using Suc by (simp add: algebra_simps)
  qed simp
qed simp

lemma nsum_le_wsum: "nsum ctx \<le> wsum ctx"
  by (induction ctx) (auto simp: nsum_def)

lemma wsum_zero: "wsum ctx = 0 \<longleftrightarrow> (\<forall>x \<in> set ctx. cx_nr x = 0)"
  by (induction ctx) auto

section \<open>The context as trees\<close>

lemma list_all_update: "list_all P xs \<Longrightarrow> P y \<Longrightarrow> list_all P (xs[h := y])"
  by (auto simp: list_all_iff dest!: set_update_subset_insert [THEN subsetD])

definition slot_wf :: "bit_builder_context \<Rightarrow> bool" where
  "slot_wf x \<longleftrightarrow> cx_nr x \<le> DEFAULT_BIT_DEGREE \<and> length (cx_pointers x) = DEFAULT_BIT_DEGREE \<and>
     length (cx_nodes x) = DEFAULT_BIT_DEGREE \<and> list_all wf_pointer (cx_pointers x)"

definition slot_rel :: "(bit_tree \<Rightarrow> bool) \<Rightarrow> bit_builder_context \<Rightarrow> bit_tree list \<Rightarrow> bool" where
  "slot_rel P x ts \<longleftrightarrow> cx_nr x = length ts \<and>
     (\<forall>i < length ts. P (ts ! i) \<and> cx_pointers x ! i = bt_ptr (ts ! i) \<and>
        bn_is_leaf (cx_nodes x ! i) = bt_is_leaf (ts ! i) \<and> node_last_key (cx_nodes x ! i) = fst (last (bt_recs (ts ! i))))"

definition ctx_rel :: "(bit_tree \<Rightarrow> bool) \<Rightarrow> bit_builder_context list \<Rightarrow> bit_tree list list \<Rightarrow> bool" where
  "ctx_rel P ctx T \<longleftrightarrow> list_all2 (slot_rel P) ctx T"

definition forest_leaves :: "bit_tree list list \<Rightarrow> (bit_pointer \<times> bit_leaf) list" where
  "forest_leaves T = concat (map (\<lambda>ts. concat (map bt_leaves ts)) (rev T))"

lemma slot_rel_mono: "slot_rel P x ts \<Longrightarrow> (\<And>t. P t \<Longrightarrow> Q t) \<Longrightarrow> slot_rel Q x ts"
  by (auto simp: slot_rel_def)

lemma ctx_rel_mono: "ctx_rel P ctx T \<Longrightarrow> (\<And>t. P t \<Longrightarrow> Q t) \<Longrightarrow> ctx_rel Q ctx T"
  unfolding ctx_rel_def by (erule list_all2_mono) (rule slot_rel_mono)

lemma ctx_rel_update: "ctx_rel P ctx T \<Longrightarrow> slot_rel P x ts \<Longrightarrow> ctx_rel P (ctx[h := x]) (T[h := ts])"
  unfolding ctx_rel_def by (rule list_all2_update_cong)

lemma ctx_rel_nth: "ctx_rel P ctx T \<Longrightarrow> h < length ctx \<Longrightarrow> slot_rel P (ctx ! h) (T ! h)"
  unfolding ctx_rel_def by (rule list_all2_nthD)

lemma ctx_rel_length: "ctx_rel P ctx T \<Longrightarrow> length T = length ctx"
  by (simp add: ctx_rel_def list_all2_lengthD)

lemma slot_rel_clear [simp]: "slot_rel P (x\<lparr>cx_nr := 0\<rparr>) []"
  by (simp add: slot_rel_def)

lemma slot_rel_push:
  assumes "slot_rel P x ts" "slot_wf x" "cx_nr x < DEFAULT_BIT_DEGREE" "P t"
    and "bn_is_leaf node = bt_is_leaf t" "node_last_key node = fst (last (bt_recs t))"
  shows "slot_rel P (ctx_push x node (bt_ptr t)) (ts @ [t])"
  using assms by (auto simp: slot_rel_def slot_wf_def ctx_push_def nth_append nth_list_update less_Suc_eq)

lemma slot_wf_push: "slot_wf x \<Longrightarrow> cx_nr x < DEFAULT_BIT_DEGREE \<Longrightarrow> wf_pointer p \<Longrightarrow> slot_wf (ctx_push x node p)"
  by (auto simp: slot_wf_def ctx_push_def list_all_iff dest!: set_update_subset_insert [THEN subsetD])

lemma slot_wf_clear: "slot_wf x \<Longrightarrow> slot_wf (x\<lparr>cx_nr := 0\<rparr>)"
  by (simp add: slot_wf_def)

lemma wf_zero_pointer: "wf_pointer zero_pointer"
  by (simp add: wf_pointer_def zero_pointer_def)

lemma wf_bit_inner: "slot_wf x \<Longrightarrow> wf_node (bit_inner_of x)"
  by (auto simp: slot_wf_def bit_inner_of_def wf_inner_def list_all_iff zero_child_def wf_zero_pointer)

lemma bit_inner_forest:
  assumes "slot_rel P x ts"
  shows "bit_inner_of x = BitInner \<lparr>nr_child = length ts, in_children = map bt_child ts @ replicate (DEFAULT_BIT_DEGREE - length ts) zero_child\<rparr>"
  using assms by (auto simp: bit_inner_of_def slot_rel_def bt_child_def intro!: nth_equalityI)

lemma forest_leaves_lift:
  assumes "Suc h < length T" "bt_leaves t = concat (map bt_leaves (T ! h))"
  shows "forest_leaves (T[h + 1 := T ! (h + 1) @ [t], h := []]) = forest_leaves T"
proof -
  define A x y B where "A = take h T" "x = T ! h" "y = T ! Suc h" "B = drop (Suc (Suc h)) T"
  have T: "T = A @ x # y # B" and A: "length A = h"
    using assms(1) unfolding A_x_y_B_def by (simp_all add: Cons_nth_drop_Suc)
  have "T[h + 1 := T ! (h + 1) @ [t], h := []] = A @ [] # (y @ [t]) # B"
    using A by (simp add: T list_update_append nth_append)
  moreover have "T ! h = x" using A by (simp add: T nth_append)
  ultimately show ?thesis using assms(2) by (simp add: forest_leaves_def T)
qed

lemma forest_leaves_push: "T \<noteq> [] \<Longrightarrow> forest_leaves (T[0 := T ! 0 @ [t]]) = forest_leaves T @ bt_leaves t"
  by (cases T) (auto simp: forest_leaves_def)

section \<open>Sealing inner nodes\<close>

lemma push_inner_ok:
  assumes c: "aead_ok c" and wf: "list_all slot_wf (bb_ctx this)" and h: "Suc h < length (bb_ctx this)"
    and nr: "cx_nr (bb_ctx this ! Suc h) < DEFAULT_BIT_DEGREE" and pos: "bb_begin this + bb_cur this < 2 ^ 64"
    and push: "bit_builder_push_inner c h this r = (this', r')"
  shows "\<exists>b node ptr. length b = BIT_INNER_NODE_SIZE \<and> appended this b this' \<and> list_all slot_wf (bb_ctx this') \<and>
    bb_ctx this' = (bb_ctx this)[h + 1 := ctx_push (bb_ctx this ! (h + 1)) node ptr, h := (bb_ctx this ! h)\<lparr>cx_nr := 0\<rparr>] \<and>
    bp_pos ptr = bb_begin this + bb_cur this \<and> \<not> bn_is_leaf node \<and>
    (\<forall>g lo hi T. ctx_rel (bt_ok c g lo hi) (bb_ctx this) T \<longrightarrow> T ! h \<noteq> [] \<longrightarrow> lo \<le> bb_begin this + bb_cur this \<longrightarrow>
       bb_begin this + bb_cur this + BIT_INNER_NODE_SIZE \<le> hi \<longrightarrow> kernel_read g BIT_INNER_NODE_SIZE (bb_begin this + bb_cur this) = b \<longrightarrow>
       (\<exists>t. ctx_rel (bt_ok c g lo hi) (bb_ctx this') (T[h + 1 := T ! (h + 1) @ [t], h := []]) \<and>
         bt_leaves t = concat (map bt_leaves (T ! h))))"
proof -
  define key iv where "key = fst (get_random_bytes AES_GCM_KEY_SIZE r)"
    and "iv = fst (get_random_bytes AES_GCM_IV_SIZE (snd (get_random_bytes AES_GCM_KEY_SIZE r)))"
  define x where "x = bb_ctx this ! h"
  define node where "node = bit_inner_of x"
  define ptr where "ptr = \<lparr>bp_pos = bb_begin this + bb_cur this, bp_key = key, bp_iv = iv\<rparr>"
  define b where "b = bit_node_encode c node key iv"
  have slots: "slot_wf x" "slot_wf (bb_ctx this ! Suc h)"
    using wf h by (simp_all add: x_def list_all_length)
  have wfp: "wf_pointer ptr" using pos by (simp add: wf_pointer_def ptr_def key_def iv_def)
  have wfn: "wf_node node" unfolding node_def by (rule wf_bit_inner [OF slots(1)])
  have nl: "\<not> bn_is_leaf node" by (simp add: node_def bit_inner_of_def)
  have lb: "length b = BIT_INNER_NODE_SIZE" using length_bit_node_encode [OF c wfn, of key iv] nl by (simp add: b_def)
  have t': "this' = this\<lparr>bb_ctx := (bb_ctx this)[h + 1 := ctx_push (bb_ctx this ! (h + 1)) node ptr, h := x\<lparr>cx_nr := 0\<rparr>],
      bb_buffer := overwrite (bb_cur this) b (bb_buffer this), bb_cur := bb_cur this + BIT_INNER_NODE_SIZE\<rparr>"
    using push by (simp add: bit_builder_push_inner_def Let_def split_beta key_def iv_def ptr_def node_def b_def x_def)
  have ap: "appended this b this'" by (simp add: appended_def t' lb)
  have ctx': "bb_ctx this' = (bb_ctx this)[h + 1 := ctx_push (bb_ctx this ! (h + 1)) node ptr, h := x\<lparr>cx_nr := 0\<rparr>]"
    by (simp add: t')
  have wf': "list_all slot_wf (bb_ctx this')"
    unfolding ctx' using wf slot_wf_push [OF slots(2) nr wfp, of node] slot_wf_clear [OF slots(1)]
    by (simp add: list_all_update)
  have tree: "\<exists>t. ctx_rel (bt_ok c g lo hi) (bb_ctx this') (T[h + 1 := T ! (h + 1) @ [t], h := []]) \<and>
      bt_leaves t = concat (map bt_leaves (T ! h))"
    if rel: "ctx_rel (bt_ok c g lo hi) (bb_ctx this) T" and ne: "T ! h \<noteq> []"
      and lo: "lo \<le> bb_begin this + bb_cur this" and hi: "bb_begin this + bb_cur this + BIT_INNER_NODE_SIZE \<le> hi"
      and rd: "kernel_read g BIT_INNER_NODE_SIZE (bb_begin this + bb_cur this) = b" for g lo hi T
  proof -
    define ts where "ts = T ! h"
    have sr: "slot_rel (bt_ok c g lo hi) x ts" "slot_rel (bt_ok c g lo hi) (bb_ctx this ! Suc h) (T ! Suc h)"
      using ctx_rel_nth [OF rel] h by (simp_all add: x_def ts_def)
    define i where "i = \<lparr>nr_child = length ts, in_children = map bt_child ts @ replicate (DEFAULT_BIT_DEGREE - length ts) zero_child\<rparr>"
    have node: "node = BitInner i" unfolding node_def i_def by (rule bit_inner_forest [OF sr(1)])
    define t where "t = BNode ptr i ts"
    have "\<forall>t \<in> set ts. bt_ok c g lo hi t" using sr(1) by (auto simp: slot_rel_def in_set_conv_nth)
    moreover have "stored c g ptr (BitInner i)"
      using rd by (simp add: stored_def ptr_def b_def node)
    ultimately have ok: "bt_ok c g lo hi t"
      using ne wfn lo hi by (simp add: t_def ts_def [symmetric] node ptr_def) (simp add: i_def)
    have "node_last_key node = bc_key (bt_child (ts ! (length ts - 1)))"
      using ne by (simp add: node i_def nth_append ts_def)
    also have "\<dots> = fst (last (bt_recs (last ts)))" using ne by (simp add: bt_child_def last_conv_nth ts_def)
    also have "bt_recs (last ts) \<noteq> []"
      by (rule bt_recs_nonempty [of c g lo hi]) (use \<open>\<forall>t \<in> set ts. _\<close> ne in \<open>simp add: ts_def\<close>)
    then have "last (bt_recs (last ts)) = last (bt_recs t)"
      using ne by (cases ts rule: rev_cases) (simp_all add: t_def ts_def [symmetric])
    finally have "node_last_key node = fst (last (bt_recs t))" .
    then have "slot_rel (bt_ok c g lo hi) (ctx_push (bb_ctx this ! Suc h) node (bt_ptr t)) (T ! Suc h @ [t])"
      using slot_rel_push [OF sr(2) slots(2) nr ok] nl by (simp add: t_def)
    then have "ctx_rel (bt_ok c g lo hi) (bb_ctx this') (T[h + 1 := T ! (h + 1) @ [t], h := []])"
      unfolding ctx' using rel by (intro ctx_rel_update) (simp_all add: t_def)
    then show ?thesis by (intro exI [of _ t]) (simp add: t_def ts_def)
  qed
  show ?thesis
    using lb ap wf' ctx' tree nl by (intro exI [of _ b] exI [of _ node] exI [of _ ptr]) (simp add: ptr_def x_def)
qed

lemma kernel_read_append: "kernel_read g (m + n) p = kernel_read g m p @ kernel_read g n (p + m)"
  by (rule nth_equalityI) (auto simp: kernel_read_def nth_append)

lemma kernel_read_split:
  assumes "kernel_read g (length (a @ b)) p = a @ b"
  shows "kernel_read g (length a) p = a" "kernel_read g (length b) (p + length a) = b"
  using assms by (simp_all add: kernel_read_append)

lemma ctx_carry:
  assumes "Suc h < length ctx" "cx_nr (ctx ! h) = 4" "cx_nr y = cx_nr (ctx ! Suc h) + 1" "cx_nr z = 0"
  shows "wsum (ctx[Suc h := y, h := z]) = wsum ctx" "nsum (ctx[Suc h := y, h := z]) + 3 = nsum ctx"
  using wsum_update [of "Suc h" ctx y] wsum_update [of h "ctx[Suc h := y]" z]
    nsum_update [of "Suc h" ctx y] nsum_update [of h "ctx[Suc h := y]" z] assms
  by (simp_all add: algebra_simps)

definition ctx_step :: "aead \<Rightarrow> bit_builder \<Rightarrow> byte list \<Rightarrow> bit_builder \<Rightarrow> bool" where
  "ctx_step c this B this' \<longleftrightarrow>
     (\<forall>g lo hi T. ctx_rel (bt_ok c g lo hi) (bb_ctx this) T \<longrightarrow> lo \<le> bb_begin this + bb_cur this \<longrightarrow>
        bb_begin this + bb_cur this + length B \<le> hi \<longrightarrow> kernel_read g (length B) (bb_begin this + bb_cur this) = B \<longrightarrow>
        (\<exists>T'. ctx_rel (bt_ok c g lo hi) (bb_ctx this') T' \<and> forest_leaves T' = forest_leaves T))"

lemma ctx_step_refl: "ctx_step c this [] this"
  by (auto simp: ctx_step_def)

lemma ctx_step_trans:
  assumes "ctx_step c this b this1" "ctx_step c this1 B this2" "appended this b this1"
  shows "ctx_step c this (b @ B) this2"
  unfolding ctx_step_def
proof (intro allI impI)
  fix g lo hi T
  assume rel: "ctx_rel (bt_ok c g lo hi) (bb_ctx this) T" and lo: "lo \<le> bb_begin this + bb_cur this"
    and hi: "bb_begin this + bb_cur this + length (b @ B) \<le> hi"
    and rd: "kernel_read g (length (b @ B)) (bb_begin this + bb_cur this) = b @ B"
  note rd = kernel_read_split [OF rd]
  note f = appended_fields(1,2) [OF assms(3)]
  obtain T1 where T1: "ctx_rel (bt_ok c g lo hi) (bb_ctx this1) T1" "forest_leaves T1 = forest_leaves T"
    using assms(1) rel lo hi rd(1) unfolding ctx_step_def by fastforce
  have "\<exists>T'. ctx_rel (bt_ok c g lo hi) (bb_ctx this2) T' \<and> forest_leaves T' = forest_leaves T1"
    using assms(2) [unfolded ctx_step_def, rule_format, OF T1(1)] lo hi rd(2) by (simp add: f add.assoc)
  then show "\<exists>T'. ctx_rel (bt_ok c g lo hi) (bb_ctx this2) T' \<and> forest_leaves T' = forest_leaves T"
    using T1(2) by simp
qed

lemma push_inner_step:
  assumes c: "aead_ok c" and wf: "list_all slot_wf (bb_ctx this)" and h: "Suc h < length (bb_ctx this)"
    and nz: "cx_nr (bb_ctx this ! h) \<noteq> 0"
    and nr: "cx_nr (bb_ctx this ! Suc h) < DEFAULT_BIT_DEGREE" and pos: "bb_begin this + bb_cur this < 2 ^ 64"
    and push: "bit_builder_push_inner c h this r = (this', r')"
  obtains b y where "length b = BIT_INNER_NODE_SIZE" "appended this b this'" "list_all slot_wf (bb_ctx this')"
    "bb_ctx this' = (bb_ctx this)[Suc h := y, h := (bb_ctx this ! h)\<lparr>cx_nr := 0\<rparr>]"
    "cx_nr y = cx_nr (bb_ctx this ! Suc h) + 1"
    "bp_pos (cx_pointers y ! cx_nr (bb_ctx this ! Suc h)) = bb_begin this + bb_cur this"
    "\<not> bn_is_leaf (cx_nodes y ! cx_nr (bb_ctx this ! Suc h))" "ctx_step c this b this'"
proof -
  obtain b node ptr where b: "length b = BIT_INNER_NODE_SIZE" "appended this b this'" "list_all slot_wf (bb_ctx this')"
    and ctx: "bb_ctx this' = (bb_ctx this)[h + 1 := ctx_push (bb_ctx this ! (h + 1)) node ptr, h := (bb_ctx this ! h)\<lparr>cx_nr := 0\<rparr>]"
    and ptr: "bp_pos ptr = bb_begin this + bb_cur this" "\<not> bn_is_leaf node"
    and tr: "\<forall>g lo hi T. ctx_rel (bt_ok c g lo hi) (bb_ctx this) T \<longrightarrow> T ! h \<noteq> [] \<longrightarrow> lo \<le> bb_begin this + bb_cur this \<longrightarrow>
       bb_begin this + bb_cur this + BIT_INNER_NODE_SIZE \<le> hi \<longrightarrow> kernel_read g BIT_INNER_NODE_SIZE (bb_begin this + bb_cur this) = b \<longrightarrow>
       (\<exists>t. ctx_rel (bt_ok c g lo hi) (bb_ctx this') (T[h + 1 := T ! (h + 1) @ [t], h := []]) \<and>
         bt_leaves t = concat (map bt_leaves (T ! h)))"
    using push_inner_ok [OF c wf h nr pos push] by (elim exE conjE) (rule that)
  have "length (cx_pointers (bb_ctx this ! Suc h)) = DEFAULT_BIT_DEGREE" "length (cx_nodes (bb_ctx this ! Suc h)) = DEFAULT_BIT_DEGREE"
    using wf h by (simp_all add: list_all_length slot_wf_def)
  then have y: "bp_pos (cx_pointers (ctx_push (bb_ctx this ! (h + 1)) node ptr) ! cx_nr (bb_ctx this ! Suc h)) = bb_begin this + bb_cur this"
    "\<not> bn_is_leaf (cx_nodes (ctx_push (bb_ctx this ! (h + 1)) node ptr) ! cx_nr (bb_ctx this ! Suc h))"
    using nr ptr by (simp_all add: ctx_push_def)
  have "ctx_step c this b this'"
    unfolding ctx_step_def b(1)
  proof (intro allI impI)
    fix g lo hi T
    assume a: "ctx_rel (bt_ok c g lo hi) (bb_ctx this) T" "lo \<le> bb_begin this + bb_cur this"
      "bb_begin this + bb_cur this + BIT_INNER_NODE_SIZE \<le> hi" "kernel_read g BIT_INNER_NODE_SIZE (bb_begin this + bb_cur this) = b"
    have "T ! h \<noteq> []" using ctx_rel_nth [OF a(1), of h] h nz by (auto simp: slot_rel_def)
    then obtain t where t: "ctx_rel (bt_ok c g lo hi) (bb_ctx this') (T[h + 1 := T ! (h + 1) @ [t], h := []])"
      "bt_leaves t = concat (map bt_leaves (T ! h))" using tr a by blast
    have "Suc h < length T" using h ctx_rel_length [OF a(1)] by simp
    then show "\<exists>T'. ctx_rel (bt_ok c g lo hi) (bb_ctx this') T' \<and> forest_leaves T' = forest_leaves T"
      using t forest_leaves_lift by blast
  qed
  moreover have "cx_nr (ctx_push (bb_ctx this ! (h + 1)) node ptr) = cx_nr (bb_ctx this ! Suc h) + 1"
    by (simp add: ctx_push_def)
  ultimately show thesis by (intro that [OF b ctx [folded Suc_eq_plus1] _ y [folded Suc_eq_plus1]]) (simp_all only: Suc_eq_plus1)
qed

lemma add_entry_loop_ok:
  assumes "aead_ok c"
  shows "list_all slot_wf (bb_ctx this) \<Longrightarrow> h < length (bb_ctx this) \<Longrightarrow>
    (\<forall>k < length (bb_ctx this). k \<noteq> h \<longrightarrow> cx_nr (bb_ctx this ! k) < 4) \<Longrightarrow> wsum (bb_ctx this) < 4 ^ length (bb_ctx this) \<Longrightarrow>
    bb_begin this + bb_cur this + BIT_INNER_NODE_SIZE * (length (bb_ctx this) - 1 - h) < 2 ^ 64 \<Longrightarrow>
    bb_cur this + BIT_INNER_NODE_SIZE * (length (bb_ctx this) - 1 - h) \<le> length (bb_buffer this) \<Longrightarrow>
    \<exists>this' r' B n. add_entry_loop c h this r = Some (this', r') \<and> length B = n * BIT_INNER_NODE_SIZE \<and>
      n \<le> length (bb_ctx this) - 1 - h \<and> appended this B this' \<and> list_all slot_wf (bb_ctx this') \<and>
      length (bb_ctx this') = length (bb_ctx this) \<and> (\<forall>k < length (bb_ctx this). cx_nr (bb_ctx this' ! k) < 4) \<and>
      wsum (bb_ctx this') = wsum (bb_ctx this) \<and> nsum (bb_ctx this') + 3 * n = nsum (bb_ctx this) \<and> ctx_step c this B this'"
  using assms
proof (induction c h this r rule: add_entry_loop.induct)
  case (1 c h this r)
  show ?case
  proof (cases "cx_nr (bb_ctx this ! h) = DEFAULT_BIT_DEGREE")
    case False
    have "cx_nr (bb_ctx this ! h) < 4"
      using False "1.prems"(1,2) by (fastforce simp: list_all_length slot_wf_def DEFAULT_BIT_DEGREE_def)
    then show ?thesis using False "1.prems"
      by (intro exI [of _ this] exI [of _ r] exI [of _ "[]"] exI [of _ 0])
        (auto simp: add_entry_loop.simps [of c h this] ctx_step_refl)
  next
    case True
    have four: "cx_nr (bb_ctx this ! h) = 4" using True by (simp add: DEFAULT_BIT_DEGREE_def)
    have "4 * 4 ^ h < (4 :: nat) ^ length (bb_ctx this)"
      using wsum_digit [OF "1.prems"(2)] "1.prems"(4) four by simp
    then have "(4 :: nat) ^ Suc h < 4 ^ length (bb_ctx this)" by simp
    then have h: "Suc h < length (bb_ctx this)" by (rule power_less_imp_less_exp [rotated]) simp
    obtain m where m: "length (bb_ctx this) - 1 - h = Suc m" using h by (metis Suc_diff_Suc Suc_lessE diff_Suc_1)
    have m1: "length (bb_ctx this) - 1 - (h + 1) = m" using m by simp
    obtain this1 r1 where push: "bit_builder_push_inner c h this r = (this1, r1)" by fastforce
    have nr: "cx_nr (bb_ctx this ! Suc h) < DEFAULT_BIT_DEGREE"
      using "1.prems"(3) h by (simp add: DEFAULT_BIT_DEGREE_def)
    have pos: "bb_begin this + bb_cur this < 2 ^ 64" using "1.prems"(5) by linarith
    obtain b y where b: "length b = BIT_INNER_NODE_SIZE" "appended this b this1" "list_all slot_wf (bb_ctx this1)"
      "bb_ctx this1 = (bb_ctx this)[Suc h := y, h := (bb_ctx this ! h)\<lparr>cx_nr := 0\<rparr>]"
      "cx_nr y = cx_nr (bb_ctx this ! Suc h) + 1" "ctx_step c this b this1"
      by (rule push_inner_step [OF "1.prems"(7,1) h _ nr pos push]) (use four in simp_all)
    note f = appended_fields [OF b(2)]
    have len1: "length (bb_ctx this1) = length (bb_ctx this)" by (simp add: b(4))
    have sums: "wsum (bb_ctx this1) = wsum (bb_ctx this)" "nsum (bb_ctx this1) + 3 = nsum (bb_ctx this)"
      unfolding b(4) by (rule ctx_carry [OF h four b(5)], simp)+
    have lenb: "length (bb_buffer this1) = length (bb_buffer this)"
      using "1.prems"(6) b(1) m by (simp add: f length_overwrite)
    have ctx1: "\<forall>k < length (bb_ctx this1). k \<noteq> h + 1 \<longrightarrow> cx_nr (bb_ctx this1 ! k) < 4"
      using "1.prems"(3) h by (auto simp: b(4) nth_list_update)
    have pos1: "bb_begin this1 + bb_cur this1 + BIT_INNER_NODE_SIZE * (length (bb_ctx this1) - 1 - (h + 1)) < 2 ^ 64"
      "bb_cur this1 + BIT_INNER_NODE_SIZE * (length (bb_ctx this1) - 1 - (h + 1)) \<le> length (bb_buffer this1)"
      using "1.prems"(5,6) b(1) unfolding f(1,2) lenb len1 m m1 by simp_all
    obtain this' r' B n where IH: "add_entry_loop c (h + 1) this1 r1 = Some (this', r')" "length B = n * BIT_INNER_NODE_SIZE"
      "n \<le> length (bb_ctx this1) - 1 - (h + 1)" "appended this1 B this'" "list_all slot_wf (bb_ctx this')"
      "length (bb_ctx this') = length (bb_ctx this1)" "\<forall>k < length (bb_ctx this1). cx_nr (bb_ctx this' ! k) < 4"
      "wsum (bb_ctx this') = wsum (bb_ctx this1)" "nsum (bb_ctx this') + 3 * n = nsum (bb_ctx this1)" "ctx_step c this1 B this'"
      using "1.IH" [unfolded push fst_conv snd_conv, OF _ _ _ b(3) _ ctx1 _ pos1 "1.prems"(7)] h True sums(1) len1 "1.prems"(4)
      by auto
    have n: "Suc n \<le> length (bb_ctx this) - 1 - h" using IH(3) m len1 by simp
    then have "bb_cur this + length b + length B \<le> length (bb_buffer this)"
      using "1.prems"(6) IH(2) b(1) mult_le_mono2 [OF n, of BIT_INNER_NODE_SIZE] by (simp add: algebra_simps)
    then have "appended this (b @ B) this'" by (rule appended_trans [OF b(2) IH(4)])
    moreover have "ctx_step c this (b @ B) this'" by (rule ctx_step_trans [OF b(6) IH(10) b(2)])
    moreover have "add_entry_loop c h this r = Some (this', r')"
      using h True IH(1) by (simp add: add_entry_loop.simps [of c h this] push)
    ultimately show ?thesis using IH n sums len1 b(1)
      by (intro exI [of _ this'] exI [of _ r'] exI [of _ "b @ B"] exI [of _ "Suc n"]) simp
  qed
qed

section \<open>The builder's invariant\<close>

definition BUF :: nat where "BUF = DEFAULT_LSM_FILE_BUILDER_BUFFER_SIZE"

definition next_pointer :: "bit_builder \<Rightarrow> bit_pointer" where
  "next_pointer this = \<lparr>bp_pos = bb_begin this + bb_cur this, bp_key = next_key this, bp_iv = next_iv this\<rparr>"

text \<open>The members that describe the file.\<close>

definition bb_meta :: "bit_builder \<Rightarrow> nat \<times> bool \<times> u32 \<times> u32 \<times> bloom_filter \<times> nat \<times> nat \<times> nat" where
  "bb_meta this = (bb_size this, has_first_key this, bb_first_key this, bb_last_key this, bb_filter this,
     bb_id this, bb_level this, bb_version this)"

text \<open>The log that starts at \<open>lo\<close>: it holds the forest \<open>T\<close>, whose leaves are full and linked from
  \<open>p0\<close> to the place of the next leaf. Each leaf takes 509 bytes and a third of an
  inner node of 189 bytes, but for the nodes still without a parent.\<close>

definition log_inv :: "aead \<Rightarrow> bfile \<Rightarrow> nat \<Rightarrow> bfile \<Rightarrow> bit_builder \<Rightarrow> bit_tree list list \<Rightarrow> bit_pointer \<Rightarrow> bool" where
  "log_inv c f0 lo f this T p0 \<longleftrightarrow>
     bb_height this = 10 \<and> length (bb_ctx this) = 10 \<and> list_all slot_wf (bb_ctx this) \<and>
     (\<forall>k < 10. cx_nr (bb_ctx this ! k) < 4) \<and> length (bb_buffer this) = BUF \<and> bb_cur this \<le> BUF \<and>
     length (next_key this) = AES_GCM_KEY_SIZE \<and> length (next_iv this) = AES_GCM_IV_SIZE \<and>
     ctx_rel (bt_ok c (bvf f this) lo (bb_begin this + bb_cur this)) (bb_ctx this) T \<and>
     (\<forall>(p, l) \<in> set (forest_leaves T). nr_record l = BIT_LEAF_LEN) \<and> linked p0 (forest_leaves T) (next_pointer this) \<and>
     wsum (bb_ctx this) = length (forest_leaves T) \<and>
     bb_begin this + bb_cur this + 63 * nsum (bb_ctx this) = lo + 572 * wsum (bb_ctx this) \<and>
     lo \<le> bb_begin this \<and> (\<forall>a. a < lo \<or> bb_begin this \<le> a \<longrightarrow> f a = f0 a)"

lemma flush_ok:
  assumes inv: "bb_height this = 10" "length (bb_buffer this) = BUF" "bb_cur this \<le> BUF" "lo \<le> bb_begin this"
      "\<forall>a. a < lo \<or> bb_begin this \<le> a \<longrightarrow> f a = f0 a"
    and fl: "bit_builder_buffer_flush_if_full this f = (this', f')"
  shows "bvf f' this' = bvf f this" "bb_begin this' + bb_cur this' = bb_begin this + bb_cur this"
    "bb_cur this' + 10 * BIT_NODE_SIZE \<le> BUF" "lo \<le> bb_begin this'" "\<forall>a. a < lo \<or> bb_begin this' \<le> a \<longrightarrow> f' a = f0 a"
    "this' = this\<lparr>bb_begin := bb_begin this', bb_cur := bb_cur this'\<rparr>"
    "\<not> bit_builder_full this \<Longrightarrow> this' = this \<and> f' = f"
proof -
  note fl = fl [unfolded bit_builder_buffer_flush_if_full_def]
  show "bvf f' this' = bvf f this" "bb_begin this' + bb_cur this' = bb_begin this + bb_cur this"
    "lo \<le> bb_begin this'" "this' = this\<lparr>bb_begin := bb_begin this', bb_cur := bb_cur this'\<rparr>"
    using fl inv(4) by (auto simp: bvf_def split: if_splits)
  show "bb_cur this' + 10 * BIT_NODE_SIZE \<le> BUF"
    using fl inv(1) by (auto simp: bit_builder_full_def BUF_def node_sizes DEFAULT_LSM_FILE_BUILDER_BUFFER_SIZE_def split: if_splits)
  show "\<forall>a. a < lo \<or> bb_begin this' \<le> a \<longrightarrow> f' a = f0 a"
    using fl inv by (auto simp: kernel_write_def split: if_splits)
  show "\<not> bit_builder_full this \<Longrightarrow> this' = this \<and> f' = f" using fl by simp
qed

text \<open>What a leaf and the inner nodes over it add to the log.\<close>

lemma bvf_append:
  assumes buf: "bb_buffer this' = overwrite (bb_cur this) L (overwrite (bb_cur this + length L) B (bb_buffer this))"
    and cur: "bb_cur this' = bb_cur this + length L + length B" and len: "bb_cur this' \<le> length (bb_buffer this)"
    and bg: "bb_begin this' = bb_begin this"
  shows "bvf f this' = kernel_write (bvf f this) (L @ B) (bb_begin this + bb_cur this)"
proof -
  have "bb_buffer this' = overwrite (bb_cur this) (L @ B) (bb_buffer this)"
    unfolding buf by (rule overwrite_append_rev) (use cur len in simp)
  then have "take (bb_cur this') (bb_buffer this') = take (bb_cur this) (bb_buffer this) @ L @ B"
    using take_overwrite [of "bb_cur this" "L @ B" "bb_buffer this"] cur len by (simp add: add.assoc)
  moreover have "length (take (bb_cur this) (bb_buffer this)) = bb_cur this" using cur len by simp
  ultimately show ?thesis by (simp add: bvf_def bg kernel_write_append del: length_take append_assoc)
qed

lemma ctx_rel_frame:
  assumes rel: "ctx_rel (bt_ok c g lo hi) ctx T" and hi: "hi \<le> hi'" and w: "hi \<le> p"
  shows "ctx_rel (bt_ok c (kernel_write g X p) lo hi') ctx T"
  using rel by (rule ctx_rel_mono) (erule bt_ok_frame; use hi w in \<open>auto simp: kernel_write_def\<close>)

lemma leaf_pointer_step:
  assumes rel: "ctx_rel (bt_ok c g lo hi) ctx T" and wf: "list_all slot_wf ctx" and ne: "ctx \<noteq> []"
    and nr: "cx_nr (ctx ! 0) < DEFAULT_BIT_DEGREE"
    and l: "wf_leaf l" "0 < nr_record l" "stored c g p (BitLeaf (l\<lparr>lf_next := q\<rparr>))" "wf_pointer q"
    and pos: "lo \<le> bp_pos p" "bp_pos p + BIT_LEAF_NODE_SIZE \<le> hi"
  shows "ctx_rel (bt_ok c g lo hi) (ctx[0 := ctx_push (ctx ! 0) (BitLeaf l) p]) (T[0 := T ! 0 @ [BLeaf p (l\<lparr>lf_next := q\<rparr>)]])"
proof (rule ctx_rel_update [OF rel])
  let ?l = "l\<lparr>lf_next := q\<rparr>"
  let ?t = "BLeaf p ?l"
  have wl: "wf_leaf ?l" using l by (simp add: wf_leaf_def)
  have "leaf_recs l \<noteq> []" using leaf_recs_length [OF l(1)] l(2) by auto
  then have "fst (last (leaf_recs l)) = lf_keys l ! (nr_record l - 1)"
    using l(1,2) by (simp add: last_conv_nth leaf_recs_length leaf_recs_nth)
  moreover have "leaf_recs ?l = leaf_recs l" by (simp add: leaf_recs_def)
  ultimately show "slot_rel (bt_ok c g lo hi) (ctx_push (ctx ! 0) (BitLeaf l) p) (T ! 0 @ [?t])"
    using slot_rel_push [of "bt_ok c g lo hi" "ctx ! 0" "T ! 0" ?t "BitLeaf l"] ctx_rel_nth [OF rel, of 0] wf ne nr wl l pos
    by (simp add: list_all_length)
qed

definition NLEAF :: nat where "NLEAF = 131072"

lemma log_inv_pos: "log_inv c f0 lo f this T p0 \<Longrightarrow> wsum (bb_ctx this) \<le> NLEAF \<Longrightarrow> bb_begin this + bb_cur this \<le> lo + 74973184"
  by (auto simp: log_inv_def NLEAF_def)

lemma log_inv_flush:
  assumes "log_inv c f0 lo f this T p0" "bit_builder_buffer_flush_if_full this f = (this', f')"
  shows "log_inv c f0 lo f' this' T p0" "bb_cur this' + 10 * BIT_NODE_SIZE \<le> BUF"
    "bb_begin this' + bb_cur this' = bb_begin this + bb_cur this" "bb_ctx this' = bb_ctx this"
    "next_key this' = next_key this" "next_iv this' = next_iv this" "cur_leaf this' = cur_leaf this" "bb_meta this' = bb_meta this"
proof -
  have i: "bb_height this = 10" "length (bb_buffer this) = BUF" "bb_cur this \<le> BUF" "lo \<le> bb_begin this"
    "\<forall>a. a < lo \<or> bb_begin this \<le> a \<longrightarrow> f a = f0 a" using assms(1) by (simp_all add: log_inv_def)
  note fl = flush_ok [OF i assms(2)]
  obtain b u where t': "this' = this\<lparr>bb_begin := b, bb_cur := u\<rparr>" using fl(6) by blast
  show cs: "bb_ctx this' = bb_ctx this" "next_key this' = next_key this" "next_iv this' = next_iv this" "cur_leaf this' = cur_leaf this" "bb_meta this' = bb_meta this"
    by (simp_all add: t' bb_meta_def)
  have "next_pointer this' = next_pointer this" using fl(2) cs(2,3) by (simp add: next_pointer_def)
  then show "log_inv c f0 lo f' this' T p0"
    using assms(1) fl(1-5) by (auto simp: log_inv_def t')
  show "bb_cur this' + 10 * BIT_NODE_SIZE \<le> BUF" "bb_begin this' + bb_cur this' = bb_begin this + bb_cur this" by (fact fl)+
qed

lemma seal_leaf_ok:
  assumes c: "aead_ok c" and inv: "log_inv c f0 lo f this T p0" and leaf: "wf_leaf (cur_leaf this)" "nr_record (cur_leaf this) = BIT_LEAF_LEN"
    and cap: "wsum (bb_ctx this) < NLEAF" and lo: "lo + 2 ^ 40 \<le> 2 ^ 64"
  shows "\<exists>this' f' r' T' q. bit_builder_seal_leaf c this f r = Some (this', f', r') \<and> log_inv c f0 lo f' this' T' p0 \<and>
    forest_leaves T' = forest_leaves T @ [(next_pointer this, (cur_leaf this)\<lparr>lf_next := q\<rparr>)] \<and>
    cur_leaf this' = (cur_leaf this)\<lparr>nr_record := 0\<rparr> \<and> bb_meta this' = bb_meta this"
proof -
  define leaf where "leaf = cur_leaf this"
  define ptr where "ptr = next_pointer this"
  define ctx1 where "ctx1 = (bb_ctx this)[0 := ctx_push (bb_ctx this ! 0) (BitLeaf leaf) ptr]"
  obtain th2 f' where fl: "bit_builder_buffer_flush_if_full this f = (th2, f')" by fastforce
  note F = log_inv_flush [OF inv fl]
  have fl1: "bit_builder_buffer_flush_if_full (this\<lparr>bb_ctx := ctx1\<rparr>) f = (th2\<lparr>bb_ctx := ctx1\<rparr>, f')"
    using fl by (auto simp: bit_builder_buffer_flush_if_full_def bit_builder_full_def split: if_splits)
  define hb where "hb = bb_begin this + bb_cur this"
  define th where "th = th2\<lparr>bb_ctx := ctx1, bb_cur := bb_cur th2 + BIT_LEAF_NODE_SIZE\<rparr>"
  have I: "length (bb_ctx this) = 10" "list_all slot_wf (bb_ctx this)" "\<forall>k < 10. cx_nr (bb_ctx this ! k) < 4"
    "length (bb_buffer th2) = BUF" "ctx_rel (bt_ok c (bvf f' th2) lo hb) (bb_ctx this) T"
    "linked p0 (forest_leaves T) ptr" "\<forall>(p, l) \<in> set (forest_leaves T). nr_record l = BIT_LEAF_LEN"
    "wsum (bb_ctx this) = length (forest_leaves T)" "hb + 63 * nsum (bb_ctx this) = lo + 572 * wsum (bb_ctx this)"
    "lo \<le> bb_begin th2" "\<forall>a. a < lo \<or> bb_begin th2 \<le> a \<longrightarrow> f' a = f0 a" "bb_height th2 = 10"
    using F(1) inv by (simp_all add: log_inv_def F(3,4) hb_def ptr_def)
  have hb: "hb \<le> lo + 74973184" using log_inv_pos [OF inv] cap by (simp add: hb_def)
  have bg: "bb_begin th2 + bb_cur th2 = hb" using F(3) by (simp add: hb_def)
  have wfp: "wf_pointer ptr"
    using inv hb lo by (simp add: ptr_def next_pointer_def wf_pointer_def log_inv_def hb_def)
  have nr0: "cx_nr (bb_ctx this ! 0) < DEFAULT_BIT_DEGREE" using I(3) by (simp add: DEFAULT_BIT_DEGREE_def)
  have wf1: "list_all slot_wf ctx1"
    unfolding ctx1_def by (rule list_all_update [OF I(2) slot_wf_push [OF _ nr0 wfp]]) (use I(1,2) in \<open>simp add: list_all_length\<close>)
  have w1: "wsum ctx1 = wsum (bb_ctx this) + 1" "nsum ctx1 = nsum (bb_ctx this) + 1" "length ctx1 = 10"
    using wsum_update [of 0 "bb_ctx this" "ctx_push (bb_ctx this ! 0) (BitLeaf leaf) ptr"]
      nsum_update [of 0 "bb_ctx this" "ctx_push (bb_ctx this ! 0) (BitLeaf leaf) ptr"] I(1)
    by (simp_all add: ctx1_def ctx_push_def)
  have "\<forall>k < length ctx1. k \<noteq> 0 \<longrightarrow> cx_nr (ctx1 ! k) < 4" using I(1,3) by (simp add: ctx1_def)
  then obtain th3 r1 B n where L: "add_entry_loop c 0 th r = Some (th3, r1)" "length B = n * BIT_INNER_NODE_SIZE" "n \<le> 9"
    "appended th B th3" "list_all slot_wf (bb_ctx th3)" "length (bb_ctx th3) = 10" "\<forall>k < 10. cx_nr (bb_ctx th3 ! k) < 4"
    "wsum (bb_ctx th3) = wsum ctx1" "nsum (bb_ctx th3) + 3 * n = nsum ctx1" "ctx_step c th B th3"
    using add_entry_loop_ok [OF c, of th 0 r] wf1 w1 cap hb lo bg F(2) I(4)
    by (auto simp: th_def NLEAF_def node_sizes)
  note A = appended_fields [OF L(4)]
  define key iv where "key = fst (get_random_bytes AES_GCM_KEY_SIZE r1)"
    and "iv = fst (get_random_bytes AES_GCM_IV_SIZE (snd (get_random_bytes AES_GCM_KEY_SIZE r1)))"
  define r3 where "r3 = snd (get_random_bytes AES_GCM_IV_SIZE (snd (get_random_bytes AES_GCM_KEY_SIZE r1)))"
  define q where "q = \<lparr>bp_pos = bb_begin th3 + bb_cur th3, bp_key = key, bp_iv = iv\<rparr>"
  define X where "X = bit_node_encode c (BitLeaf (leaf\<lparr>lf_next := q\<rparr>)) (bp_key ptr) (bp_iv ptr)"
  define th4 where "th4 = th3\<lparr>next_key := key, next_iv := iv, bb_buffer := overwrite (bb_cur th2) X (bb_buffer th3),
    cur_leaf := leaf\<lparr>nr_record := 0\<rparr>\<rparr>"
  have res: "bit_builder_seal_leaf c this f r = Some (th4, f', r3)"
    using fl1 L(1)
    by (simp add: bit_builder_seal_leaf_def Let_def split_beta th_def th4_def key_def iv_def r3_def q_def X_def ctx1_def
        ptr_def next_pointer_def leaf_def)
  have q3: "bb_begin th3 + bb_cur th3 = hb + BIT_LEAF_NODE_SIZE + length B"
    using bg by (simp add: A(1,2) th_def)
  have n3: "length B \<le> 1701" using L(2,3) by (simp add: node_sizes)
  have wq: "wf_pointer q" using q3 n3 hb lo by (simp add: q_def wf_pointer_def key_def iv_def node_sizes)
  have wl: "wf_node (BitLeaf (leaf\<lparr>lf_next := q\<rparr>))" using leaf(1) wq by (simp add: wf_leaf_def leaf_def)
  have lX: "length X = BIT_LEAF_NODE_SIZE" using length_bit_node_encode [OF c wl] by (simp add: X_def)
  define g where "g = kernel_write (bvf f' th2) (X @ B) hb"
  have g: "bvf f' th4 = g"
    unfolding g_def bg [symmetric] using n3 F(2) I(4)
    by (intro bvf_append) (simp_all add: th4_def A th_def lX node_sizes)
  have "kernel_read g (length (X @ B)) hb = X @ B" by (simp add: g_def kernel_read_write_same)
  note rd = kernel_read_split [OF this]
  have rel1: "ctx_rel (bt_ok c g lo (hb + BIT_LEAF_NODE_SIZE + length B)) ctx1 (T[0 := T ! 0 @ [BLeaf ptr (leaf\<lparr>lf_next := q\<rparr>)]])"
    unfolding ctx1_def
  proof (rule leaf_pointer_step)
    show "ctx_rel (bt_ok c g lo (hb + BIT_LEAF_NODE_SIZE + length B)) (bb_ctx this) T"
      unfolding g_def by (rule ctx_rel_frame [OF I(5)]) simp_all
    show "stored c g ptr (BitLeaf (leaf\<lparr>lf_next := q\<rparr>))"
      using rd(1) lX by (simp add: stored_def X_def ptr_def next_pointer_def hb_def)
    show "lo \<le> bp_pos ptr" using I(10) bg by (simp add: ptr_def next_pointer_def hb_def [symmetric])
  qed (use I nr0 leaf wq in \<open>auto simp: leaf_def ptr_def next_pointer_def hb_def BIT_LEAF_LEN_def\<close>)
  obtain T' where T': "ctx_rel (bt_ok c g lo (hb + BIT_LEAF_NODE_SIZE + length B)) (bb_ctx th3) T'"
    "forest_leaves T' = forest_leaves (T[0 := T ! 0 @ [BLeaf ptr (leaf\<lparr>lf_next := q\<rparr>)]])"
    using L(10) [unfolded ctx_step_def, rule_format, of g lo "hb + BIT_LEAF_NODE_SIZE + length B"] rel1 rd(2) lX bg I(10)
    by (auto simp: th_def add.assoc [symmetric])
  have "T \<noteq> []" using ctx_rel_length [OF I(5)] I(1) by auto
  then have fl': "forest_leaves T' = forest_leaves T @ [(ptr, leaf\<lparr>lf_next := q\<rparr>)]" using T'(2) by (simp add: forest_leaves_push)
  have np: "next_pointer th4 = q" by (simp add: next_pointer_def th4_def q_def)
  have meta: "bb_meta th4 = bb_meta this" using F(8) by (simp add: bb_meta_def th4_def A th_def)
  have e: "bb_begin th4 + bb_cur th4 = hb + BIT_LEAF_NODE_SIZE + length B" "bb_begin th4 = bb_begin th2" "bb_ctx th4 = bb_ctx th3"
    "bb_height th4 = bb_height th2"
    using q3 by (simp_all add: th4_def A th_def)
  have e4: "length (bb_buffer th4) = BUF" "bb_cur th4 \<le> BUF" "length (next_key th4) = AES_GCM_KEY_SIZE" "length (next_iv th4) = AES_GCM_IV_SIZE"
    using n3 F(2) I(4) by (simp_all add: th4_def A th_def length_overwrite lX key_def iv_def node_sizes)
  have "log_inv c f0 lo f' th4 T' p0"
    unfolding log_inv_def np g e(1) unfolding e linked_append fl' using I(6,7,10-12) T'(1) L(2,5-9) w1 I(8,9) leaf(2)
    by (auto simp: e4 leaf_def node_sizes)
  then show ?thesis using res fl' meta by (intro exI) (auto simp: th4_def leaf_def ptr_def)
qed

section \<open>Adding entries\<close>

definition leaves_recs :: "(bit_pointer \<times> bit_leaf) list \<Rightarrow> (u32 \<times> index_record) list" where
  "leaves_recs ls = concat (map (\<lambda>(p, l). leaf_recs l) ls)"

definition add_keys :: "(u32 \<times> index_record) list \<Rightarrow> bloom_filter \<Rightarrow> bloom_filter" where
  "add_keys es flt = foldl bloom_filter_add flt (map (key_bytes \<circ> fst) es)"

definition meta_inv :: "bloom_filter \<Rightarrow> nat \<Rightarrow> nat \<Rightarrow> nat \<Rightarrow> bit_builder \<Rightarrow> (u32 \<times> index_record) list \<Rightarrow> bool" where
  "meta_inv flt i lv v this es \<longleftrightarrow>
     bb_meta this = (length es, es \<noteq> [], if es = [] then bb_first_key this else fst (hd es),
       if es = [] then bb_last_key this else fst (last es), add_keys es flt, i, lv, v)"

definition leaf_inv :: "bit_leaf \<Rightarrow> bool" where
  "leaf_inv l \<longleftrightarrow> wf_leaf l \<and> nr_record l < BIT_LEAF_LEN"

lemma leaf_add_ok:
  assumes "leaf_inv l" "wf_record v"
  shows "wf_leaf (leaf_add l k v)" "leaf_recs (leaf_add l k v) = leaf_recs l @ [(k, v)]" "nr_record (leaf_add l k v) = Suc (nr_record l)"
  using assms by (auto simp: leaf_inv_def wf_leaf_def leaf_add_def leaf_recs_def list_all_update take_Suc_conv_app_nth
      take_update_swap list_update_append)

lemma meta_inv_note:
  assumes "meta_inv flt i lv v this es"
  shows "meta_inv flt i lv v (bit_builder_note this k x) (es @ [(k, x)])"
  using assms by (auto simp: meta_inv_def bb_meta_def bit_builder_note_def add_keys_def)

lemma log_inv_note:
  assumes "log_inv c f0 lo f this T p0"
  shows "log_inv c f0 lo f (bit_builder_note this k x) T p0"
  using assms by (simp add: log_inv_def bit_builder_note_def bvf_def next_pointer_def)

lemma meta_inv_cong: "bb_meta this' = bb_meta this \<Longrightarrow> meta_inv flt i lv v this es \<Longrightarrow> meta_inv flt i lv v this' es"
  by (auto simp: meta_inv_def bb_meta_def split: if_splits)

lemma forest_leaf:
  assumes "ctx_rel (bt_ok c g lo hi) ctx T" "(p, l) \<in> set (forest_leaves T)"
  shows "leaf_stored c g (p, l)" "wf_leaf l" "lo \<le> bp_pos p" "bp_pos p + BIT_LEAF_NODE_SIZE \<le> hi"
proof -
  obtain ts t where t: "ts \<in> set T" "t \<in> set ts" "(p, l) \<in> set (bt_leaves t)"
    using assms(2) by (auto simp: forest_leaves_def)
  obtain h i where h: "h < length T" "ts = T ! h" "i < length ts" "t = ts ! i"
    using t(1,2) by (metis in_set_conv_nth)
  have "bt_ok c g lo hi t"
    using ctx_rel_nth [OF assms(1), of h] ctx_rel_length [OF assms(1)] h by (auto simp: slot_rel_def)
  from bt_ok_leaf [OF this t(3)] show "leaf_stored c g (p, l)" "wf_leaf l" "lo \<le> bp_pos p" "bp_pos p + BIT_LEAF_NODE_SIZE \<le> hi"
    by (simp_all add: leaf_stored_def)
qed

lemma length_leaves_recs:
  "\<forall>(p, l) \<in> set ls. wf_leaf l \<and> nr_record l = BIT_LEAF_LEN \<Longrightarrow> length (leaves_recs ls) = BIT_LEAF_LEN * length ls"
  by (induction ls) (auto simp: leaves_recs_def leaf_recs_length)

definition binv ::
  "aead \<Rightarrow> bfile \<Rightarrow> nat \<Rightarrow> bloom_filter \<Rightarrow> nat \<Rightarrow> nat \<Rightarrow> nat \<Rightarrow> bfile \<Rightarrow> bit_builder \<Rightarrow> (u32 \<times> index_record) list \<Rightarrow>
   bit_tree list list \<Rightarrow> bit_pointer \<Rightarrow> bool" where
  "binv c f0 lo flt i lv v f this es T p0 \<longleftrightarrow>
     log_inv c f0 lo f this T p0 \<and> leaf_inv (cur_leaf this) \<and> meta_inv flt i lv v this es \<and>
     es = leaves_recs (forest_leaves T) @ leaf_recs (cur_leaf this)"

lemma binv_count:
  assumes "binv c f0 lo flt i lv v f this es T p0"
  shows "length es = BIT_LEAF_LEN * wsum (bb_ctx this) + nr_record (cur_leaf this)"
    "wsum (bb_ctx this) = length es div BIT_LEAF_LEN" "nr_record (cur_leaf this) = length es mod BIT_LEAF_LEN"
    "leaves_recs (forest_leaves T) = take (BIT_LEAF_LEN * (length es div BIT_LEAF_LEN)) es"
proof -
  have b: "log_inv c f0 lo f this T p0" "wf_leaf (cur_leaf this)" "nr_record (cur_leaf this) < BIT_LEAF_LEN"
    and es: "es = leaves_recs (forest_leaves T) @ leaf_recs (cur_leaf this)"
    using assms by (auto simp: binv_def leaf_inv_def)
  have rel: "ctx_rel (bt_ok c (bvf f this) lo (bb_begin this + bb_cur this)) (bb_ctx this) T" using b(1) by (simp add: log_inv_def)
  have len: "length (leaves_recs (forest_leaves T)) = BIT_LEAF_LEN * wsum (bb_ctx this)"
    using length_leaves_recs [of "forest_leaves T"] forest_leaf(2) [OF rel] b(1) by (fastforce simp: log_inv_def)
  then show n: "length es = BIT_LEAF_LEN * wsum (bb_ctx this) + nr_record (cur_leaf this)"
    by (simp add: es leaf_recs_length b(2))
  then show w: "wsum (bb_ctx this) = length es div BIT_LEAF_LEN" "nr_record (cur_leaf this) = length es mod BIT_LEAF_LEN"
    using b(3) by simp_all
  show "leaves_recs (forest_leaves T) = take (BIT_LEAF_LEN * (length es div BIT_LEAF_LEN)) es"
    unfolding w(1) [symmetric] len [symmetric] by (simp add: es)
qed

lemma add_entry_ok:
  assumes c: "aead_ok c" and lo: "lo + 2 ^ 40 \<le> 2 ^ 64" and inv: "binv c f0 lo flt i lv v f this es T p0"
    and rc: "wf_record x" and cap: "length es < DEFAULT_LSM_FILE_CAPACITY"
  shows "\<exists>this' f' r' T'. bit_builder_add_entry c this f r (k, x) = Some (this', f', r') \<and>
    binv c f0 lo flt i lv v f' this' (es @ [(k, x)]) T' p0"
proof -
  define th where "th = bit_builder_note this k x"
  have b: "log_inv c f0 lo f this T p0" "leaf_inv (cur_leaf this)" "meta_inv flt i lv v this es"
    and es: "es = leaves_recs (forest_leaves T) @ leaf_recs (cur_leaf this)"
    using inv by (auto simp: binv_def)
  have n: "log_inv c f0 lo f th T p0" "meta_inv flt i lv v th (es @ [(k, x)])" "cur_leaf th = leaf_add (cur_leaf this) k x"
    "bb_ctx th = bb_ctx this"
    using log_inv_note [OF b(1)] meta_inv_note [OF b(3)] by (simp_all add: th_def) (simp_all add: bit_builder_note_def)
  note la = leaf_add_ok [OF b(2) rc, of k]
  have es': "es @ [(k, x)] = leaves_recs (forest_leaves T) @ leaf_recs (cur_leaf th)" by (simp add: es n(3) la(2))
  show ?thesis
  proof (cases "nr_record (cur_leaf th) < BIT_LEAF_LEN")
    case True
    then have "bit_builder_add_entry c this f r (k, x) = Some (th, f, r)"
      by (simp add: bit_builder_add_entry_def th_def Let_def)
    moreover have "binv c f0 lo flt i lv v f th (es @ [(k, x)]) T p0"
      using n True la es' by (simp add: binv_def leaf_inv_def)
    ultimately show ?thesis by blast
  next
    case False
    then have full: "nr_record (cur_leaf th) = BIT_LEAF_LEN" using b(2) la(3) n(3) by (simp add: leaf_inv_def)
    have "wsum (bb_ctx th) < NLEAF"
      using binv_count(2) [OF inv] cap n(4) by (simp add: NLEAF_def DEFAULT_LSM_FILE_CAPACITY_def BIT_LEAF_LEN_def)
    then obtain this' f' r' T' q where sl: "bit_builder_seal_leaf c th f r = Some (this', f', r')" "log_inv c f0 lo f' this' T' p0"
      "forest_leaves T' = forest_leaves T @ [(next_pointer th, (cur_leaf th)\<lparr>lf_next := q\<rparr>)]"
      "cur_leaf this' = (cur_leaf th)\<lparr>nr_record := 0\<rparr>" "bb_meta this' = bb_meta th"
      using seal_leaf_ok [OF c n(1) la(1) [folded n(3)] full _ lo, of r] by blast
    have add: "bit_builder_add_entry c this f r (k, x) = Some (this', f', r')"
      using False sl(1) by (simp add: bit_builder_add_entry_def th_def Let_def)
    have "leaf_inv (cur_leaf this')" using la(1) n(3) sl(4) by (simp add: leaf_inv_def wf_leaf_def BIT_LEAF_LEN_def)
    moreover have "leaves_recs (forest_leaves T') @ leaf_recs (cur_leaf this') = es @ [(k, x)]"
      unfolding es' by (simp add: sl(3,4) leaves_recs_def leaf_recs_def)
    ultimately have "binv c f0 lo flt i lv v f' this' (es @ [(k, x)]) T' p0"
      using sl(2) meta_inv_cong [OF sl(5) n(2)] by (simp add: binv_def)
    then show ?thesis using add by blast
  qed
qed

lemma add_entries_ok:
  assumes c: "aead_ok c" and lo: "lo + 2 ^ 40 \<le> 2 ^ 64"
  shows "binv c f0 lo flt i lv v f this es T p0 \<Longrightarrow> \<forall>e \<in> set xs. wf_record (snd e) \<Longrightarrow>
    length es + length xs \<le> DEFAULT_LSM_FILE_CAPACITY \<Longrightarrow>
    \<exists>this' f' r' T'. add_entries c this f r xs = Some (this', f', r') \<and> binv c f0 lo flt i lv v f' this' (es @ xs) T' p0"
proof (induction xs arbitrary: f this es T r)
  case Nil
  then show ?case by auto
next
  case (Cons e xs)
  obtain k x where e: "e = (k, x)" by fastforce
  obtain this1 f1 r1 T1 where s: "bit_builder_add_entry c this f r (k, x) = Some (this1, f1, r1)"
    "binv c f0 lo flt i lv v f1 this1 (es @ [(k, x)]) T1 p0"
    using add_entry_ok [OF c lo Cons.prems(1), of x r k] Cons.prems(2,3) by (auto simp: e)
  show ?case using Cons.IH [OF s(2), of r1] Cons.prems(2,3) s(1) by (simp add: e)
qed

section \<open>Completing the file\<close>

definition has_root :: "bit_builder \<Rightarrow> bool" where
  "has_root this \<longleftrightarrow> (\<forall>k < 9. cx_nr (bb_ctx this ! k) = 0) \<and> cx_nr (bb_ctx this ! 9) = 1 \<and>
     \<not> bn_is_leaf (cx_nodes (bb_ctx this ! 9) ! 0) \<and>
     bp_pos (cx_pointers (bb_ctx this ! 9) ! 0) + BIT_INNER_NODE_SIZE = bb_begin this + bb_cur this"

lemma complete_loop_ok:
  assumes "aead_ok c"
  shows "list_all slot_wf (bb_ctx this) \<Longrightarrow> length (bb_ctx this) = 10 \<Longrightarrow> bb_height this = 10 \<Longrightarrow> h \<le> 9 \<Longrightarrow>
    (\<forall>k < h. k < 9 \<longrightarrow> cx_nr (bb_ctx this ! k) = 0) \<Longrightarrow> (\<forall>k. h < k \<and> k < 10 \<longrightarrow> cx_nr (bb_ctx this ! k) < 4) \<Longrightarrow>
    (h < 9 \<longrightarrow> cx_nr (bb_ctx this ! 9) = 0 \<and> (\<exists>k < 10. cx_nr (bb_ctx this ! k) \<noteq> 0)) \<Longrightarrow> (h = 9 \<longrightarrow> has_root this) \<Longrightarrow>
    bb_begin this + bb_cur this + BIT_INNER_NODE_SIZE * (9 - h) < 2 ^ 64 \<Longrightarrow>
    bb_cur this + BIT_INNER_NODE_SIZE * (9 - h) \<le> length (bb_buffer this) \<Longrightarrow>
    \<exists>this' r' B. complete_loop c h this r = (this', r') \<and> length B \<le> BIT_INNER_NODE_SIZE * (9 - h) \<and> (h < 9 \<longrightarrow> BIT_INNER_NODE_SIZE \<le> length B) \<and>
      appended this B this' \<and> list_all slot_wf (bb_ctx this') \<and> length (bb_ctx this') = 10 \<and> has_root this' \<and> ctx_step c this B this'"
  using assms
proof (induction c h this r rule: complete_loop.induct)
  case (1 c h this r)
  note P = "1.prems"
  consider (stop) "h = 9" | (skip) "h < 9" "cx_nr (bb_ctx this ! h) = 0" | (go) "h < 9" "cx_nr (bb_ctx this ! h) \<noteq> 0"
    using P(4) by linarith
  then show ?case
  proof cases
    case stop
    then show ?thesis using P
      by (intro exI [of _ this] exI [of _ r] exI [of _ "[]"]) (simp add: complete_loop.simps [of c 9] ctx_step_refl)
  next
    case skip
    have zeros: "\<forall>k < h + 1. k < 9 \<longrightarrow> cx_nr (bb_ctx this ! k) = 0" using P(5) skip less_Suc_eq by auto
    have "h + 1 \<noteq> 9"
    proof
      assume "h + 1 = 9"
      then have z: "k < 9 \<Longrightarrow> cx_nr (bb_ctx this ! k) = 0" for k using zeros by simp
      obtain k where k: "k < 10" "cx_nr (bb_ctx this ! k) \<noteq> 0" and n: "cx_nr (bb_ctx this ! 9) = 0" using P(7) skip(1) by blast
      have "k \<noteq> 9" using k(2) n by metis
      then have "k < 9" using k(1) by simp
      then show False using z k(2) by simp
    qed
    then have h: "h + 1 < 9" using skip(1) by simp
    have m: "BIT_INNER_NODE_SIZE * (9 - (h + 1)) \<le> BIT_INNER_NODE_SIZE * (9 - h)" by (intro mult_le_mono2) linarith
    have a: "\<not> bb_height this - 1 \<le> h" "h + 1 \<le> 9" "\<forall>k. h + 1 < k \<and> k < 10 \<longrightarrow> cx_nr (bb_ctx this ! k) < 4"
      "h + 1 < 9 \<longrightarrow> cx_nr (bb_ctx this ! 9) = 0 \<and> (\<exists>k < 10. cx_nr (bb_ctx this ! k) \<noteq> 0)" "h + 1 = 9 \<longrightarrow> has_root this"
      using P(3,6,7) h skip(1) by simp_all
    have bounds: "bb_begin this + bb_cur this + BIT_INNER_NODE_SIZE * (9 - (h + 1)) < 2 ^ 64"
      "bb_cur this + BIT_INNER_NODE_SIZE * (9 - (h + 1)) \<le> length (bb_buffer this)"
      using P(9,10) m by linarith+
    obtain this' r' B where IH: "complete_loop c (h + 1) this r = (this', r')" "length B \<le> BIT_INNER_NODE_SIZE * (9 - (h + 1))"
      "appended this B this'" "list_all slot_wf (bb_ctx this')" "length (bb_ctx this') = 10" "has_root this'" "ctx_step c this B this'"
      "h + 1 < 9 \<longrightarrow> BIT_INNER_NODE_SIZE \<le> length B"
      using "1.IH"(1) [OF a(1) skip(2) P(1-3) a(2) zeros a(3-5) bounds P(11)] by blast
    have "complete_loop c h this r = (this', r')" using skip P(3) IH(1) by (simp add: complete_loop.simps [of c h])
    moreover have "length B \<le> BIT_INNER_NODE_SIZE * (9 - h)" using IH(2) m by (rule order.trans)
    ultimately show ?thesis using IH(3-8) h by blast
  next
    case go
    obtain this1 r1 where push: "bit_builder_push_inner c h this r = (this1, r1)" by fastforce
    have h: "Suc h < length (bb_ctx this)" using go(1) P(2) by simp
    have nr: "cx_nr (bb_ctx this ! Suc h) < DEFAULT_BIT_DEGREE" using P(6) h P(2) by (simp add: DEFAULT_BIT_DEGREE_def)
    have pos: "bb_begin this + bb_cur this < 2 ^ 64" using P(9) by linarith
    obtain b y where b: "length b = BIT_INNER_NODE_SIZE" "appended this b this1" "list_all slot_wf (bb_ctx this1)"
      "bb_ctx this1 = (bb_ctx this)[Suc h := y, h := (bb_ctx this ! h)\<lparr>cx_nr := 0\<rparr>]" "cx_nr y = cx_nr (bb_ctx this ! Suc h) + 1"
      "bp_pos (cx_pointers y ! cx_nr (bb_ctx this ! Suc h)) = bb_begin this + bb_cur this"
      "\<not> bn_is_leaf (cx_nodes y ! cx_nr (bb_ctx this ! Suc h))" "ctx_step c this b this1"
      by (rule push_inner_step [OF P(11,1) h go(2) nr pos push]) (rule that)
    note f = appended_fields [OF b(2)]
    have s: "9 - h = Suc (9 - (h + 1))" using go(1) by simp
    have zeros: "\<forall>k < h + 1. k < 9 \<longrightarrow> cx_nr (bb_ctx this1 ! k) = 0"
      using P(2,5) go(1) by (auto simp: b(4) nth_list_update less_Suc_eq)
    have rest: "\<forall>k. h + 1 < k \<and> k < 10 \<longrightarrow> cx_nr (bb_ctx this1 ! k) < 4"
      using P(2,6) by (auto simp: b(4) nth_list_update)
    have top: "h + 1 < 9 \<longrightarrow> cx_nr (bb_ctx this1 ! 9) = 0 \<and> (\<exists>k < 10. cx_nr (bb_ctx this1 ! k) \<noteq> 0)"
      using P(2,7) b(5) go(1) by (auto simp: b(4) nth_list_update intro!: exI [of _ "Suc h"])
    have root: "h + 1 = 9 \<longrightarrow> has_root this1"
    proof
      assume "h + 1 = 9"
      then have h8: "h = 8" and s9: "Suc h = 9" by simp_all
      show "has_root this1" using zeros P(2,7) go(1) b(1,5,6,7)
        by (auto simp: has_root_def b(4) f h8 s9 nth_list_update)
    qed
    have bounds: "bb_begin this1 + bb_cur this1 + BIT_INNER_NODE_SIZE * (9 - (h + 1)) < 2 ^ 64"
      "bb_cur this1 + BIT_INNER_NODE_SIZE * (9 - (h + 1)) \<le> length (bb_buffer this1)"
      using P(9,10) b(1) unfolding s f(1,2,4) by (simp_all add: length_overwrite)
    obtain this' r' B where IH: "complete_loop c (h + 1) this1 r1 = (this', r')" "length B \<le> BIT_INNER_NODE_SIZE * (9 - (h + 1))"
      "appended this1 B this'" "list_all slot_wf (bb_ctx this')" "length (bb_ctx this') = 10" "has_root this'" "ctx_step c this1 B this'"
      using "1.IH"(2) [unfolded push fst_conv snd_conv, OF _ go(2) b(3) _ _ _ zeros rest top root bounds P(11)] go(1) P(2,3) f(3) b(4) by auto
    have lenB: "length (b @ B) \<le> BIT_INNER_NODE_SIZE * (9 - h)" unfolding s using IH(2) b(1) by simp
    then have "appended this (b @ B) this'" using P(10) by (intro appended_trans [OF b(2) IH(3)]) simp
    moreover have "ctx_step c this (b @ B) this'" by (rule ctx_step_trans [OF b(8) IH(7) b(2)])
    moreover have "complete_loop c h this r = (this', r')"
      using go P(3) IH(1) by (simp add: complete_loop.simps [of c h] push)
    moreover have "BIT_INNER_NODE_SIZE \<le> length (b @ B)" using b(1) by simp
    ultimately show ?thesis using IH lenB by blast
  qed
qed

lemma root_tree:
  assumes "ctx_rel (bt_ok c g lo hi) (bb_ctx this) T" "length (bb_ctx this) = 10" "has_root this"
  obtains t where "bt_ok c g lo hi t" "\<not> bt_is_leaf t" "bt_ptr t = cx_pointers (bb_ctx this ! 9) ! 0" "bt_leaves t = forest_leaves T"
proof -
  have len: "length T = 10" using ctx_rel_length [OF assms(1)] assms(2) by simp
  have sl: "slot_rel (bt_ok c g lo hi) (bb_ctx this ! k) (T ! k)" if "k < 10" for k
    by (rule ctx_rel_nth [OF assms(1)]) (use that assms(2) in simp)
  have e: "T ! k = []" if "k < 9" for k using sl [of k] assms(3) that by (simp add: slot_rel_def has_root_def)
  have n9: "length (T ! 9) = 1" using sl [of 9] assms(3) by (simp add: slot_rel_def has_root_def)
  then obtain t where t: "T ! 9 = [t]" by (metis One_nat_def length_0_conv length_Suc_conv)
  have "T = replicate 9 [] @ [[t]]"
  proof (rule nth_equalityI)
    fix i assume "i < length T"
    then consider "i < 9" | "i = 9" using len by linarith
    then show "T ! i = (replicate 9 [] @ [[t]]) ! i" using e t by cases (simp_all add: nth_append)
  qed (simp add: len)
  then have "forest_leaves T = bt_leaves t" by (simp add: forest_leaves_def)
  then show thesis using sl [of 9] assms(3) t by (intro that [of t]) (auto simp: slot_rel_def has_root_def)
qed

text \<open>The state on which the last loop runs, and what it leaves in the log.\<close>

lemma close_loop:
  assumes c: "aead_ok c" and ctx: "length (bb_ctx this) = 10" "list_all slot_wf (bb_ctx this)" "\<forall>k < 10. cx_nr (bb_ctx this ! k) < 4"
    and h: "bb_height this = 10" and w: "0 < wsum (bb_ctx this)" "wsum (bb_ctx this) \<le> NLEAF"
    and b: "bb_begin this + bb_cur this + 1701 < 2 ^ 64" "bb_cur this + 1701 \<le> length (bb_buffer this)"
  obtains this' r' B where "complete_loop c 0 this r = (this', r')" "length B \<le> 1701" "appended this B this'"
    "length (bb_ctx this') = 10" "has_root this'" "ctx_step c this B this'" "list_all slot_wf (bb_ctx this')"
    "BIT_INNER_NODE_SIZE \<le> length B"
proof -
  have "cx_nr (bb_ctx this ! 9) * 4 ^ 9 \<le> NLEAF" using wsum_digit [of 9 "bb_ctx this"] ctx(1) w(2) by simp
  then have n9: "cx_nr (bb_ctx this ! 9) = 0" by (simp add: NLEAF_def)
  have "\<exists>x \<in> set (bb_ctx this). cx_nr x \<noteq> 0" using w(1) wsum_zero [of "bb_ctx this"] by simp
  then have ex: "\<exists>k < 10. cx_nr (bb_ctx this ! k) \<noteq> 0" using ctx(1) by (metis in_set_conv_nth)
  have "\<exists>this' r' B. complete_loop c 0 this r = (this', r') \<and> length B \<le> BIT_INNER_NODE_SIZE * (9 - 0) \<and>
      ((0 :: nat) < 9 \<longrightarrow> BIT_INNER_NODE_SIZE \<le> length B) \<and> appended this B this' \<and>
      list_all slot_wf (bb_ctx this') \<and> length (bb_ctx this') = 10 \<and> has_root this' \<and> ctx_step c this B this'"
    by (rule complete_loop_ok [OF c ctx(2,1) h]) (use ctx(3) n9 ex b in \<open>simp_all add: node_sizes\<close>)
  then show thesis by (elim exE conjE) (rule that; simp add: node_sizes)
qed

lemma close_ok:
  assumes c: "aead_ok c" and inv: "log_inv c f0 lo f this T p0" and leaf: "leaf_inv (cur_leaf this)"
    and w: "0 < wsum (bb_ctx this)" "wsum (bb_ctx this) \<le> NLEAF" and lo: "lo + 2 ^ 40 \<le> 2 ^ 64"
    and nf: "bb_cur this + 10 * BIT_NODE_SIZE \<le> BUF"
  shows "\<exists>this' r' t. bit_builder_close c this r = (this', r') \<and> bb_begin this' = bb_begin this \<and> bb_height this' = 10 \<and>
    bb_cur this + (if 0 < nr_record (cur_leaf this) then BIT_LEAF_NODE_SIZE else 0) \<le> bb_cur this' \<and> bb_cur this' \<le> bb_cur this + 2210 \<and> length (bb_buffer this') = BUF \<and> bb_meta this' = bb_meta this \<and>
    bt_ok c (bvf f this') lo (bb_begin this' + bb_cur this') t \<and> \<not> bt_is_leaf t \<and> bt_leaves t = forest_leaves T \<and>
    bt_ptr t = cx_pointers (bb_ctx this' ! 9) ! 0 \<and> wf_pointer (bt_ptr t) \<and> bb_begin this + bb_cur this \<le> bp_pos (bt_ptr t) \<and> bp_pos (bt_ptr t) + BIT_INNER_NODE_SIZE = bb_begin this' + bb_cur this' \<and>
    (0 < nr_record (cur_leaf this) \<longrightarrow> leaf_stored c (bvf f this') (next_pointer this, cur_leaf this))"
proof -
  define p where "p \<longleftrightarrow> 0 < nr_record (cur_leaf this)"
  define ptr where "ptr = next_pointer this"
  define X where "X = (if p then bit_node_encode c (BitLeaf (cur_leaf this)) (bp_key ptr) (bp_iv ptr) else [])"
  define ctx0 where "ctx0 = bb_ctx this ! 0"
  define y where "y = ctx0\<lparr>cx_nodes := (cx_nodes ctx0)[cx_nr ctx0 := BitLeaf (cur_leaf this)], cx_pointers := (cx_pointers ctx0)[cx_nr ctx0 := ptr]\<rparr>"
  define th where "th = (if p then this\<lparr>bb_ctx := (bb_ctx this)[0 := y], bb_cur := bb_cur this + BIT_LEAF_NODE_SIZE\<rparr> else this)"
  have I: "length (bb_ctx this) = 10" "list_all slot_wf (bb_ctx this)" "\<forall>k < 10. cx_nr (bb_ctx this ! k) < 4" "bb_height this = 10"
    "length (bb_buffer this) = BUF" "ctx_rel (bt_ok c (bvf f this) lo (bb_begin this + bb_cur this)) (bb_ctx this) T" "lo \<le> bb_begin this"
    using inv by (simp_all add: log_inv_def)
  have hb: "bb_begin this + bb_cur this \<le> lo + 74973184" by (rule log_inv_pos [OF inv w(2)])
  have wfp: "wf_pointer ptr" using inv hb lo by (simp add: ptr_def next_pointer_def wf_pointer_def log_inv_def)
  have "slot_wf ctx0" using I(1,2) by (simp add: ctx0_def list_all_length)
  then have sy: "slot_wf y" using wfp by (simp add: y_def slot_wf_def list_all_update)
  have ry: "slot_rel P y (T ! 0)" if "slot_rel P ctx0 (T ! 0)" for P using that by (simp add: y_def slot_rel_def)
  have nt: "cx_nr y = cx_nr ctx0" by (simp add: y_def)
  have lX: "length X = (if p then BIT_LEAF_NODE_SIZE else 0)"
    using length_bit_node_encode [OF c, of "BitLeaf (cur_leaf this)"] leaf by (simp add: X_def leaf_inv_def)
  have th: "length (bb_ctx th) = 10" "list_all slot_wf (bb_ctx th)" "\<forall>k < 10. cx_nr (bb_ctx th ! k) < 4" "bb_height th = 10"
    "bb_begin th = bb_begin this" "bb_cur th = bb_cur this + length X" "bb_buffer th = bb_buffer this" "bb_meta th = bb_meta this"
    "wsum (bb_ctx th) = wsum (bb_ctx this)"
    using I sy nt lX wsum_update [of 0 "bb_ctx this" y]
    by (auto simp: th_def list_all_update nth_list_update ctx0_def bb_meta_def)
  obtain th' r' B where L: "complete_loop c 0 th r = (th', r')" "length B \<le> 1701" "appended th B th'"
    "length (bb_ctx th') = 10" "has_root th'" "ctx_step c th B th'" "list_all slot_wf (bb_ctx th')"
    "BIT_INNER_NODE_SIZE \<le> length B"
    by (rule close_loop [OF c th(1-4)]) (use w th nf I(5) lX hb lo in \<open>auto simp: node_sizes split: if_splits\<close>)
  note A = appended_fields [OF L(3)]
  define th4 where "th4 = (if p then th'\<lparr>bb_buffer := overwrite (bb_cur this) X (bb_buffer th')\<rparr> else th')"
  have res: "bit_builder_close c this r = (th4, r')"
    using L(1) unfolding bit_builder_close_def p_def [symmetric] th_def th4_def X_def y_def ctx0_def ptr_def next_pointer_def
    by (auto simp: Let_def)
  have e: "bb_begin th4 = bb_begin this" "bb_cur th4 = bb_cur this + length X + length B" "bb_height th4 = 10" "bb_ctx th4 = bb_ctx th'"
    "bb_meta th4 = bb_meta this"
    using th(4-6,8) A by (simp_all add: th4_def bb_meta_def)
  have small: "length X \<le> 509" using lX by (simp add: node_sizes)
  have cb: "bb_cur th4 \<le> BUF" "bb_cur th4 \<le> bb_cur this + 2210" using e(2) small L(2) nf by (simp_all add: node_sizes)
  have buf: "bb_buffer th4 = overwrite (bb_cur this) X (overwrite (bb_cur this + length X) B (bb_buffer this))"
    using th(6,7) A(4) by (cases p) (simp_all add: th4_def X_def overwrite_Nil)
  have lbuf: "length (bb_buffer th4) = BUF" using cb(1) e(2) I(5) by (simp add: buf length_overwrite)
  define g where "g = bvf f th4"
  have g: "g = kernel_write (bvf f this) (X @ B) (bb_begin this + bb_cur this)"
    unfolding g_def by (rule bvf_append) (use buf e cb I(5) in simp_all)
  have "kernel_read g (length (X @ B)) (bb_begin this + bb_cur this) = X @ B" by (simp add: g kernel_read_write_same)
  note rd = kernel_read_split [OF this]
  define hi where "hi = bb_begin th4 + bb_cur th4"
  have "ctx_rel (bt_ok c g lo hi) (bb_ctx this) T"
    unfolding g by (rule ctx_rel_frame [OF I(6)]) (simp_all add: hi_def e)
  then have rel: "ctx_rel (bt_ok c g lo hi) (bb_ctx th) T"
    using ctx_rel_update [of "bt_ok c g lo hi" "bb_ctx this" T y "T ! 0" 0] ry ctx_rel_nth [of "bt_ok c g lo hi" "bb_ctx this" T 0] I(1)
    by (auto simp: th_def ctx0_def)
  obtain T' where T': "ctx_rel (bt_ok c g lo hi) (bb_ctx th') T'" "forest_leaves T' = forest_leaves T"
    using L(6) [unfolded ctx_step_def, rule_format, OF rel] rd(2) I(7) by (auto simp: th hi_def e add.assoc)
  obtain t where t: "bt_ok c g lo hi t" "\<not> bt_is_leaf t" "bt_ptr t = cx_pointers (bb_ctx th' ! 9) ! 0" "bt_leaves t = forest_leaves T'"
    by (rule root_tree [OF T'(1) L(4,5)]) (rule that)
  have root: "bp_pos (bt_ptr t) + BIT_INNER_NODE_SIZE = hi"
    using L(5) A(1,2) th(5,6) by (simp add: has_root_def t(3) hi_def e)
  moreover have "bb_begin this + bb_cur this \<le> bp_pos (bt_ptr t)" using root L(8) by (simp add: hi_def e(1,2))
  moreover have "leaf_stored c g (ptr, cur_leaf this)" if p
    using rd(1) lX leaf that by (simp add: leaf_stored_def stored_def X_def leaf_inv_def p_def ptr_def next_pointer_def)
  moreover have "wf_pointer (bt_ptr t)"
    using L(4,7) by (simp add: t(3) list_all_length slot_wf_def DEFAULT_BIT_DEGREE_def)
  ultimately show ?thesis using res e lX lbuf cb t T'(2)
    by (intro exI [of _ th4] exI [of _ r'] exI [of _ t]) (simp add: g_def hi_def p_def ptr_def)
qed

section \<open>The finished file\<close>

text \<open>A file that holds \<open>es\<close>: its tree \<open>t\<close> indexes the full leaves, and the chain of leaves
  goes on to \<open>tls\<close>, the last leaf if it is not full.\<close>

definition bit_file_holds ::
  "aead \<Rightarrow> bfile \<Rightarrow> nat \<Rightarrow> nat \<Rightarrow> bit_file \<Rightarrow> bit_tree \<Rightarrow> (bit_pointer \<times> bit_leaf) list \<Rightarrow> (u32 \<times> index_record) list \<Rightarrow> bool" where
  "bit_file_holds c g lo hi bf t tls es \<longleftrightarrow>
     bit_file_ok c g lo hi bf t \<and> es = leaves_recs (bt_leaves t @ tls) \<and> sorted_wrt (<) (map fst es) \<and>
     bf_first_key bf = fst (hd es) \<and> bf_last_key bf = fst (last es) \<and>
     (\<exists>p q. linked p (bt_leaves t @ tls) q) \<and> packed (map snd (bt_leaves t @ tls)) \<and>
     (\<forall>x \<in> set tls. leaf_stored c g x \<and> lo \<le> bp_pos (fst x) \<and> bp_pos (fst x) + BIT_LEAF_NODE_SIZE \<le> hi)"

lemma bt_recs_leaves: "bt_recs t = leaves_recs (bt_leaves t)"
  by (simp add: bt_recs_def leaves_recs_def)

lemma leaves_recs_append [simp]: "leaves_recs (xs @ ys) = leaves_recs xs @ leaves_recs ys"
  by (simp add: leaves_recs_def)

lemma bit_file_holds_frame:
  assumes "bit_file_holds c g lo hi bf t tls es" "\<And>a. lo \<le> a \<Longrightarrow> a < hi \<Longrightarrow> g' a = g a"
  shows "bit_file_holds c g' lo hi bf t tls es"
proof -
  have "leaf_stored c g' x" if "x \<in> set tls" for x
  proof -
    obtain p l where x: "x = (p, l)" by fastforce
    have "stored c g p (BitLeaf l)" "lo \<le> bp_pos p" "bp_pos p + BIT_LEAF_NODE_SIZE \<le> hi" "wf_leaf l" "0 < nr_record l"
      using assms(1) that by (auto simp: bit_file_holds_def leaf_stored_def x)
    then show ?thesis using stored_frame [of c g p "BitLeaf l" lo hi g'] assms(2) by (simp add: leaf_stored_def x)
  qed
  moreover have "bit_file_ok c g' lo hi bf t"
    using assms(1) bt_ok_frame [of c g lo hi t g' lo hi] assms(2) by (simp add: bit_file_holds_def bit_file_ok_def)
  ultimately show ?thesis using assms(1) unfolding bit_file_holds_def by blast
qed

lemma bt_leaves_nonempty: "bt_ok c g lo hi t \<Longrightarrow> bt_leaves t \<noteq> []"
  using bt_recs_nonempty [of c g lo hi t] by (auto simp: bt_recs_def)

lemma bit_file_holds_iterator:
  assumes c: "aead_ok c" and h: "bit_file_holds c g lo hi bf t tls es"
  obtains it where "bit_file_iterator c True g bf = Some (Some it)" "it_rel c g lo hi it es" "it_file it = bf"
proof -
  have ok: "bt_ok c g lo hi t" "\<not> bt_is_leaf t" "bt_ptr t = root_pointer bf" "sorted_wrt (<) (map fst (bt_recs t))"
    using h by (auto simp: bit_file_holds_def bit_file_ok_def)
  obtain p1 l1 rest where ls: "bt_leaves t = (p1, l1) # rest"
    using bt_leaves_nonempty [OF ok(1)] by (metis list.exhaust surj_pair)
  have l1: "stored c g p1 (BitLeaf l1)" "wf_leaf l1" "0 < nr_record l1" using bt_ok_leaf [OF ok(1), of p1 l1] by (auto simp: ls)
  have ne: "leaf_recs l1 \<noteq> []" using leaf_recs_length [OF l1(2)] l1(3) by auto
  have es: "es = leaf_recs l1 @ leaves_recs rest @ leaves_recs tls"
    using h by (simp add: bit_file_holds_def ls leaves_recs_def)
  have recs: "bt_recs t = leaf_recs l1 @ leaves_recs rest" by (simp add: bt_recs_leaves ls leaves_recs_def)
  have fk: "bf_first_key bf = fst (hd (leaf_recs l1))" using h ne by (simp add: bit_file_holds_def es)
  have hd_in: "hd (leaf_recs l1) \<in> set (leaf_recs l1)" using ne by simp
  then have "map_of (bt_recs t) (bf_first_key bf) \<noteq> None" by (auto simp: fk recs map_of_eq_None_iff)
  then obtain x p l where l: "(p, l) \<in> set (bt_leaves t)" "map_of (leaf_recs l) (bf_first_key bf) = Some x"
    "search_leaf_loop c g (bf_first_key bf) (bt_is_leaf t) (bt_ptr t) = Some (Inr l)"
    using search_leaf_loop_ok [OF c ok(1,4), of "bf_first_key bf"] by (auto split: option.splits)
  have "(p, l) \<notin> set rest"
  proof
    assume "(p, l) \<in> set rest"
    then have "(bf_first_key bf, x) \<in> set (leaves_recs rest)"
      using map_of_SomeD [OF l(2)] by (force simp: leaves_recs_def)
    then have "fst (hd (leaf_recs l1)) < bf_first_key bf"
      using ok(4) hd_in by (force simp: recs sorted_wrt_append)
    then show False by (simp add: fk)
  qed
  then have l_eq: "l = l1" using l(1) by (auto simp: ls)
  define it where "it = \<lparr>cur_record = 0, it_has_next = True, it_file = bf, it_leaf = l1\<rparr>"
  have "bit_file_iterator c True g bf = Some (Some it)"
    using l(3) ok(2,3) by (simp add: bit_file_iterator_def bit_iterator_create_def bit_iterator_init_def
        bit_file_first_leaf_def bit_file_search_leaf_def it_def l_eq)
  moreover have "it_rel c g lo hi it es"
  proof -
    obtain p q where lk: "linked p (bt_leaves t @ tls) q" using h by (auto simp: bit_file_holds_def)
    have st: "list_all (leaf_placed c g lo hi) (rest @ tls)"
    proof (unfold list_all_iff, rule ballI)
      fix x assume "x \<in> set (rest @ tls)"
      then consider "(fst x, snd x) \<in> set (bt_leaves t)" | "x \<in> set tls" by (auto simp: ls)
      then show "leaf_placed c g lo hi x"
      proof cases
        case 1
        from bt_ok_leaf [OF ok(1) this] show ?thesis by (simp add: leaf_placed_def leaf_stored_def split_beta)
      qed (use h in \<open>simp add: leaf_placed_def bit_file_holds_def\<close>)
    qed
    show ?thesis unfolding it_rel_def
      using h l1 lk st by (auto simp: it_def ls es bit_file_holds_def leaves_recs_def intro!: exI [of _ "rest @ tls"])
  qed
  moreover have "it_file it = bf" by (simp add: it_def)
  ultimately show thesis by (rule that)
qed

lemma bit_file_holds_cached:
  assumes "aead_ok c" "bit_file_holds c g lo hi bf t tls es"
  obtains bf' where "bit_file_search c g bf key =
      Some (case map_of (leaves_recs (bt_leaves t)) key of None \<Rightarrow> Inl ENODATA | Some x \<Rightarrow> Inr x, bf')"
    "bit_file_holds c g lo hi bf' t tls es" "bf'\<lparr>cached_leaf := cached_leaf bf\<rparr> = bf"
proof -
  obtain leaf where l: "bit_file_search c g bf key =
      Some (case map_of (bt_recs t) key of None \<Rightarrow> Inl ENODATA | Some x \<Rightarrow> Inr x, bf\<lparr>cached_leaf := leaf\<rparr>)"
    "bit_file_ok c g lo hi (bf\<lparr>cached_leaf := leaf\<rparr>) t"
    using bit_file_search_ok [OF assms(1), of g lo hi bf t key] assms(2) by (auto simp: bit_file_holds_def)
  have "bit_file_holds c g lo hi (bf\<lparr>cached_leaf := leaf\<rparr>) t tls es"
    using assms(2) l(2) unfolding bit_file_holds_def by auto
  moreover have "bf\<lparr>cached_leaf := leaf\<rparr>\<lparr>cached_leaf := cached_leaf bf\<rparr> = bf" by simp
  ultimately show thesis using l(1) unfolding bt_recs_leaves by (intro that)
qed

lemma add_keys_contains:
  assumes "bloom_wf flt" "e \<in> set es"
  shows "bloom_wf (add_keys es flt)" "bloom_filter_contains (add_keys es flt) (key_bytes (fst e))"
  using bloom.invar_foldl [OF assms(1)] bloom.contains_foldl [OF assms(1), of "key_bytes (fst e)" "map (key_bytes \<circ> fst) es"] assms(2)
  by (auto simp: add_keys_def)

lemma add_keys_frame [simp]: "bsize (add_keys es flt) = bsize flt" "hash_funcs (add_keys es flt) = hash_funcs flt"
  unfolding add_keys_def by (induction es arbitrary: flt) auto

end
