(* ===== verification/Bit_Index.thy ===== *)
theory Bit_Index
  imports Bit_Table
begin

text \<open>
  Building a file from a sorted list of records, as a minor compaction does: creation of the builder,
  one addition per record, completion. What the finished file answers, where it is stored, and what
  the completion loses.
\<close>

section \<open>Building a file\<close>

text \<open>\<open>flt\<close> is the Bloom filter both the builder and the file create; \<open>junk\<close> and \<open>jleaf\<close> are the
  initial contents of the buffer and of the cached leaf.\<close>

definition bit_build ::
  "aead \<Rightarrow> bloom_filter \<Rightarrow> byte list \<Rightarrow> bit_leaf \<Rightarrow> bfile \<Rightarrow> nat \<Rightarrow> nat \<Rightarrow> nat \<Rightarrow> nat \<Rightarrow> rng \<Rightarrow> (u32 \<times> index_record) list
   \<Rightarrow> (bit_file option \<times> bfile \<times> rng) option" where
  "bit_build c flt junk jleaf file begin fid level version r es =
     (case bit_builder_create True True True flt junk begin fid level version r of
        (None, r1) \<Rightarrow> Some (None, file, r1)
      | (Some this, r1) \<Rightarrow>
          (case add_entries c this file r1 es of
             None \<Rightarrow> None
           | Some (this', file', r2) \<Rightarrow> Some (bit_builder_complete c True flt jleaf this' file' r2)))"

lemma bit_height_capacity: "bit_height DEFAULT_LSM_FILE_CAPACITY DEFAULT_BIT_DEGREE = Some 10"
  by (simp add: bit_height_def nr_leaf_def DEFAULT_LSM_FILE_CAPACITY_def DEFAULT_BIT_DEGREE_def BIT_LEAF_LEN_def
      bit_height_loop.simps)

lemma wf_zero_leaf: "leaf_inv zero_leaf" "leaf_recs zero_leaf = []"
  by (simp_all add: leaf_inv_def wf_leaf_def zero_leaf_def leaf_recs_def zero_record_def wf_record_def wf_zero_pointer
      list_all_iff BIT_LEAF_LEN_def)

lemma slot_wf_zero: "slot_wf zero_ctx" "slot_rel P zero_ctx []"
  by (simp_all add: slot_wf_def zero_ctx_def list_all_iff wf_zero_pointer slot_rel_def DEFAULT_BIT_DEGREE_def)

lemma builder_created:
  assumes "length junk = BUF"
  obtains this r1 where "bit_builder_create True True True flt junk lo i lv v r = (Some this, r1)"
    "binv c f lo flt i lv v f this [] (replicate 10 []) (next_pointer this)"
proof -
  obtain key r1 where key: "get_random_bytes AES_GCM_KEY_SIZE r = (key, r1)" by fastforce
  obtain iv r2 where iv: "get_random_bytes AES_GCM_IV_SIZE r1 = (iv, r2)" by fastforce
  have len: "length key = AES_GCM_KEY_SIZE" "length iv = AES_GCM_IV_SIZE"
    using length_get_random_bytes key iv by (metis fst_conv)+
  define this where "this = \<lparr>bb_size = 0, bb_begin = lo, has_first_key = False, bb_first_key = 0, bb_last_key = 0,
    bb_cur = 0, bb_height = 10, bb_id = i, bb_level = lv, bb_version = v, bb_buffer = junk,
    bb_ctx = replicate 10 zero_ctx, next_key = key, next_iv = iv, cur_leaf = zero_leaf, bb_filter = flt\<rparr>"
  have cr: "bit_builder_create True True True flt junk lo i lv v r = (Some this, r2)"
    by (simp add: bit_builder_create_def bit_builder_init_def bit_height_capacity key iv this_def)
  have ws: "wsum (replicate n zero_ctx) = 0" "nsum (replicate n zero_ctx) = 0" for n
    by (induction n) (simp_all add: zero_ctx_def nsum_def)
  have fl: "forest_leaves (replicate 10 []) = []" by (simp add: forest_leaves_def)
  have rel: "ctx_rel P (replicate 10 zero_ctx) (replicate 10 [])" for P
    by (simp add: ctx_rel_def list_all2_conv_all_nth slot_wf_zero)
  have "log_inv c f lo f this (replicate 10 []) (next_pointer this)"
    by (simp add: log_inv_def this_def fl ws rel len assms slot_wf_zero list_all_length) (simp add: zero_ctx_def BUF_def)
  then have "binv c f lo flt i lv v f this [] (replicate 10 []) (next_pointer this)"
    by (simp add: binv_def this_def wf_zero_leaf fl leaves_recs_def meta_inv_def bb_meta_def add_keys_def)
  with cr show thesis by (rule that)
qed

text \<open>Fewer than 58592 records never fill the buffer.\<close>

lemma small_not_full:
  assumes "binv c f0 lo flt i lv v f this es T p0" "length es < 58592"
  shows "\<not> bit_builder_full this"
proof -
  have l: "log_inv c f0 lo f this T p0" using assms(1) by (simp add: binv_def)
  have "wsum (bb_ctx this) \<le> 7323"
    using binv_count(2) [OF assms(1)] assms(2) by (simp add: BIT_LEAF_LEN_def)
  moreover have "bb_cur this \<le> 572 * wsum (bb_ctx this)" using l by (auto simp: log_inv_def)
  ultimately show ?thesis
    using l by (simp add: bit_builder_full_def log_inv_def node_sizes DEFAULT_LSM_FILE_BUILDER_BUFFER_SIZE_def)
qed

section \<open>The finished file\<close>

lemma complete_file:
  assumes c: "aead_ok c" and lo: "lo + 2 ^ 40 \<le> 2 ^ 64" and inv: "binv c f0 lo flt i lv v f this es T p0"
    and n: "BIT_LEAF_LEN \<le> length es" "length es \<le> DEFAULT_LSM_FILE_CAPACITY" and nf: "\<not> bit_builder_full this"
  obtains th r' t where "bit_builder_complete c True flt jleaf this f r =
      (Some (bit_file_init flt jleaf (kernel_write (bvf f th) (bits (bb_filter th)) (bb_begin th + bb_cur th))
         (bp_pos (bt_ptr t)) (bb_id th) (bb_level th) (bb_version th) (bb_first_key th) (bb_last_key th) (bp_key (bt_ptr t)) (bp_iv (bt_ptr t))
         (bb_begin th + bb_cur th)), kernel_write (bvf f th) (bits (bb_filter th)) (bb_begin th + bb_cur th), r')"
    "bb_meta th = bb_meta this" "lo \<le> bb_begin th" "bb_begin th = bb_begin this" "bb_begin th + bb_cur th \<le> lo + 572 * (length es div BIT_LEAF_LEN) + 2210"
    "bb_begin this + bb_cur this + (if 0 < nr_record (cur_leaf this) then BIT_LEAF_NODE_SIZE else 0) \<le> bb_begin th + bb_cur th"
    "bt_ok c (bvf f th) lo (bb_begin th + bb_cur th) t" "\<not> bt_is_leaf t" "bt_leaves t = forest_leaves T" "wf_pointer (bt_ptr t)"
    "0 < nr_record (cur_leaf this) \<longrightarrow> leaf_stored c (bvf f th) (next_pointer this, cur_leaf this)"
    "\<forall>a. a < lo \<or> bb_begin th + bb_cur th \<le> a \<longrightarrow> bvf f th a = f0 a"
proof -
  have l: "log_inv c f0 lo f this T p0" and lf: "leaf_inv (cur_leaf this)" using inv by (simp_all add: binv_def)
  have I: "length (bb_ctx this) = 10" "bb_height this = 10" "lo \<le> bb_begin this" "\<forall>a. a < lo \<or> bb_begin this \<le> a \<longrightarrow> f a = f0 a"
    "bb_begin this + bb_cur this \<le> lo + 572 * wsum (bb_ctx this)" using l by (auto simp: log_inv_def)
  have w: "wsum (bb_ctx this) = length es div BIT_LEAF_LEN" by (rule binv_count(2) [OF inv])
  have w1: "0 < wsum (bb_ctx this)" "wsum (bb_ctx this) \<le> NLEAF"
    using n by (simp_all add: w BIT_LEAF_LEN_def NLEAF_def DEFAULT_LSM_FILE_CAPACITY_def)
  have "cx_nr (bb_ctx this ! 9) * 4 ^ 9 \<le> NLEAF" using wsum_digit [of 9 "bb_ctx this"] I(1) w1(2) by simp
  then have n9: "cx_nr (bb_ctx this ! 9) = 0" by (simp add: NLEAF_def)
  have "bb_cur this + 10 * BIT_NODE_SIZE \<le> BUF" using nf I(2) by (simp add: bit_builder_full_def BUF_def)
  from close_ok [OF c l lf w1 lo this, of r] obtain th r' t where C: "bit_builder_close c this r = (th, r')"
    "bb_begin th = bb_begin this" "bb_height th = 10"
    "bb_cur this + (if 0 < nr_record (cur_leaf this) then BIT_LEAF_NODE_SIZE else 0) \<le> bb_cur th" "bb_cur th \<le> bb_cur this + 2210"
    "bb_meta th = bb_meta this" "length (bb_buffer th) = BUF"
    "bt_ok c (bvf f th) lo (bb_begin th + bb_cur th) t" "\<not> bt_is_leaf t" "bt_leaves t = forest_leaves T"
    "bt_ptr t = cx_pointers (bb_ctx th ! 9) ! 0" "wf_pointer (bt_ptr t)" "bb_begin this + bb_cur this \<le> bp_pos (bt_ptr t)" "bp_pos (bt_ptr t) + BIT_INNER_NODE_SIZE = bb_begin th + bb_cur th"
    "0 < nr_record (cur_leaf this) \<longrightarrow> leaf_stored c (bvf f th) (next_pointer this, cur_leaf this)" by (elim exE conjE) (rule that; assumption)
  have root: "bb_begin th + bb_cur th - BIT_INNER_NODE_SIZE = bp_pos (bt_ptr t)" using C(14) by linarith
  have fb: "bp_pos (bt_ptr t) + BIT_INNER_NODE_SIZE = bb_begin th + bb_cur th" by (rule C(14))
  have "bit_builder_buffer_flush_if_full this f = (this, f)" using nf by (simp add: bit_builder_buffer_flush_if_full_def)
  then have cp: "bit_builder_complete c True flt jleaf this f r =
      (Some (bit_file_init flt jleaf (kernel_write (bvf f th) (bits (bb_filter th)) (bb_begin th + bb_cur th))
         (bp_pos (bt_ptr t)) (bb_id th) (bb_level th) (bb_version th) (bb_first_key th) (bb_last_key th) (bp_key (bt_ptr t)) (bp_iv (bt_ptr t))
         (bb_begin th + bb_cur th)), kernel_write (bvf f th) (bits (bb_filter th)) (bb_begin th + bb_cur th), r')"
    by (simp add: bit_builder_complete_def I(2) n9 C(1) C(3) Let_def bit_file_create_def bvf_def [symmetric] C(2) [symmetric]
        C(11) [symmetric] root fb)
  have "length (take (bb_cur th) (bb_buffer th)) \<le> bb_cur th" by simp
  then have fr: "\<forall>a. a < lo \<or> bb_begin th + bb_cur th \<le> a \<longrightarrow> bvf f th a = f0 a"
    using I(3,4) C(2) by (auto simp: bvf_def kernel_write_def)
  show thesis by (rule that [OF cp C(6) _ C(2) _ _ C(8-10) C(12) C(15) fr]) (use I(3,5) C(2,4,5) w in simp_all)
qed

lemma complete_ok:
  assumes c: "aead_ok c" and lo: "lo + 2 ^ 40 \<le> 2 ^ 64" and inv: "binv c f0 lo flt i lv v f this es T p0"
    and n: "BIT_LEAF_LEN \<le> length es" "length es \<le> DEFAULT_LSM_FILE_CAPACITY" and nf: "\<not> bit_builder_full this"
    and srt: "sorted_wrt (<) (map fst es)" and flt: "bloom_wf flt"
  shows "\<exists>bf g r' t tls hi. bit_builder_complete c True flt jleaf this f r = (Some bf, g, r') \<and> bit_file_holds c g lo hi bf t tls es \<and>
    leaves_recs (bt_leaves t) = take (BIT_LEAF_LEN * (length es div BIT_LEAF_LEN)) es \<and>
    (bf_id bf, bf_level bf, bf_version bf) = (i, lv, v) \<and> hi \<le> lo + 572 * (length es div BIT_LEAF_LEN) + 2210 \<and>
    (\<forall>a. a < lo \<or> hi + bsize flt \<le> a \<longrightarrow> g a = f0 a) \<and> wf_pointer (root_pointer bf)"
proof -
  obtain th r' t where C: "bit_builder_complete c True flt jleaf this f r =
      (Some (bit_file_init flt jleaf (kernel_write (bvf f th) (bits (bb_filter th)) (bb_begin th + bb_cur th))
         (bp_pos (bt_ptr t)) (bb_id th) (bb_level th) (bb_version th) (bb_first_key th) (bb_last_key th) (bp_key (bt_ptr t)) (bp_iv (bt_ptr t))
         (bb_begin th + bb_cur th)), kernel_write (bvf f th) (bits (bb_filter th)) (bb_begin th + bb_cur th), r')"
    "bb_meta th = bb_meta this" "lo \<le> bb_begin th" "bb_begin th = bb_begin this" "bb_begin th + bb_cur th \<le> lo + 572 * (length es div BIT_LEAF_LEN) + 2210"
    "bb_begin this + bb_cur this + (if 0 < nr_record (cur_leaf this) then BIT_LEAF_NODE_SIZE else 0) \<le> bb_begin th + bb_cur th"
    "bt_ok c (bvf f th) lo (bb_begin th + bb_cur th) t" "\<not> bt_is_leaf t" "bt_leaves t = forest_leaves T" "wf_pointer (bt_ptr t)"
    "0 < nr_record (cur_leaf this) \<longrightarrow> leaf_stored c (bvf f th) (next_pointer this, cur_leaf this)"
    "\<forall>a. a < lo \<or> bb_begin th + bb_cur th \<le> a \<longrightarrow> bvf f th a = f0 a"
    by (rule complete_file [OF c lo inv n nf, of jleaf r]) (rule that)
  define hi where "hi = bb_begin th + bb_cur th"
  define g where "g = kernel_write (bvf f th) (bits (bb_filter th)) hi"
  define bf where "bf = bit_file_init flt jleaf g (bp_pos (bt_ptr t)) (bb_id th) (bb_level th) (bb_version th) (bb_first_key th)
    (bb_last_key th) (bp_key (bt_ptr t)) (bp_iv (bt_ptr t)) hi"
  define tls where "tls = (if 0 < nr_record (cur_leaf this) then [(next_pointer this, cur_leaf this)] else [])"
  have es: "es = leaves_recs (forest_leaves T) @ leaf_recs (cur_leaf this)" and mt: "meta_inv flt i lv v this es"
    and lg: "log_inv c f0 lo f this T p0" using inv by (auto simp: binv_def)
  have ne: "es \<noteq> []" using n(1) by (auto simp: BIT_LEAF_LEN_def)
  have meta: "bb_filter th = add_keys es flt" "bb_first_key th = fst (hd es)" "bb_last_key th = fst (last es)" "bb_id th = i"
    "bb_level th = lv" "bb_version th = v"
    using C(2) mt ne by (simp_all add: meta_inv_def bb_meta_def)
  have kwf: "bloom_wf (add_keys es flt)" using add_keys_contains(1) [OF flt] ne by (meson last_in_set)
  then have lf: "length (bits (bb_filter th)) = bsize flt" by (simp add: meta bloom_wf_def)
  have flt': "bf_filter bf = add_keys es flt"
    using lf by (simp add: bf_def bit_file_init_def bloom_filter_load_def g_def meta kernel_read_write_same)
  have rt: "root_pointer bf = bt_ptr t" using C(10) by (simp add: root_pointer_def bf_def bit_file_init_def wf_pointer_def)
  have agree: "g a = bvf f th a" if "a < hi" for a using that by (simp add: g_def kernel_write_def)
  have bt: "bt_ok c g lo hi t" by (rule bt_ok_frame [OF C(7)]) (simp_all add: agree hi_def)
  have tl_ok: "leaf_stored c g x" "lo \<le> bp_pos (fst x)" "bp_pos (fst x) + BIT_LEAF_NODE_SIZE \<le> hi" if "x \<in> set tls" for x
  proof -
    have x: "x = (next_pointer this, cur_leaf this)" "0 < nr_record (cur_leaf this)" using that by (auto simp: tls_def split: if_splits)
    show p: "lo \<le> bp_pos (fst x)" "bp_pos (fst x) + BIT_LEAF_NODE_SIZE \<le> hi"
      using C(3,4,6) x by (simp_all add: next_pointer_def hi_def)
    show "leaf_stored c g x"
      using C(11) x stored_frame [of c "bvf f th" "next_pointer this" "BitLeaf (cur_leaf this)" lo hi g] p agree
      by (simp add: leaf_stored_def)
  qed
  have rc: "leaves_recs (bt_leaves t @ tls) = es" by (auto simp: C(9) es tls_def leaves_recs_def leaf_recs_empty)
  have tk: "leaves_recs (bt_leaves t) = take (BIT_LEAF_LEN * (length es div BIT_LEAF_LEN)) es"
    using binv_count(4) [OF inv] by (simp add: C(9))
  have ok: "bit_file_ok c g lo hi bf t"
  proof -
    have "sorted_wrt (<) (map fst (bt_recs t))" using srt by (simp add: bt_recs_leaves tk take_map [symmetric] sorted_wrt_take)
    moreover have "bloom_filter_contains (bf_filter bf) (key_bytes (fst e))" if "e \<in> set (bt_recs t)" for e
      using add_keys_contains(2) [OF flt] that in_set_takeD unfolding flt' bt_recs_leaves tk by metis
    moreover have "nr_record (cached_leaf bf) = 0" by (simp add: bf_def bit_file_init_def)
    ultimately show ?thesis using bt C(8) rt by (auto simp: bit_file_ok_def)
  qed
  have lk: "linked p0 (forest_leaves T) (next_pointer this)" "\<forall>(p, l) \<in> set (forest_leaves T). nr_record l = BIT_LEAF_LEN"
    using lg by (simp_all add: log_inv_def)
  have "linked (next_pointer this) tls (if tls = [] then next_pointer this else lf_next (cur_leaf this))" by (simp add: tls_def)
  then have "\<exists>q. linked p0 (bt_leaves t @ tls) q" using lk(1) unfolding C(9) linked_append by blast
  moreover have "packed (map snd (bt_leaves t @ tls))"
  proof -
    have "packed (map snd (forest_leaves T) @ map snd tls) \<longleftrightarrow> packed (map snd tls)"
      by (rule packed_full) (use lk(2) in auto)
    moreover have "packed (map snd tls)" by (simp add: tls_def)
    ultimately show ?thesis by (simp add: C(9))
  qed
  ultimately have "bit_file_holds c g lo hi bf t tls es"
    unfolding bit_file_holds_def rc using ok srt tl_ok by (auto simp: bf_def bit_file_init_def meta)
  moreover have "bit_builder_complete c True flt jleaf this f r = (Some bf, g, r')"
    by (simp only: C(1) bf_def g_def hi_def)
  moreover have "\<forall>a. a < lo \<or> hi + bsize flt \<le> a \<longrightarrow> g a = f0 a" using C(3,12) lf by (auto simp: g_def kernel_write_def hi_def)
  moreover have "(bf_id bf, bf_level bf, bf_version bf) = (i, lv, v)" by (simp add: bf_def bit_file_init_def meta)
  moreover have "wf_pointer (root_pointer bf)" using C(10) rt by simp
  ultimately show ?thesis using tk C(5) hi_def by blast
qed

text \<open>One search after the other, each with the leaf the one before it has cached.\<close>

fun bit_file_searches :: "aead \<Rightarrow> bfile \<Rightarrow> bit_file \<Rightarrow> u32 list \<Rightarrow> index_record result list option" where
  "bit_file_searches c file this [] = Some []"
| "bit_file_searches c file this (k # ks) =
     (case bit_file_search c file this k of
        None \<Rightarrow> None
      | Some (x, this') \<Rightarrow> map_option (\<lambda>xs. x # xs) (bit_file_searches c file this' ks))"

definition lookup_result :: "(u32 \<times> index_record) list \<Rightarrow> u32 \<Rightarrow> index_record result" where
  "lookup_result es key = (case map_of es key of None \<Rightarrow> Inl ENODATA | Some x \<Rightarrow> Inr x)"

lemma searches_ok:
  assumes c: "aead_ok c"
  shows "bit_file_holds c g lo hi bf t tls es \<Longrightarrow>
    bit_file_searches c g bf ks = Some (map (lookup_result (leaves_recs (bt_leaves t))) ks)"
proof (induction ks arbitrary: bf)
  case (Cons k ks)
  obtain bf' where "bit_file_search c g bf k = Some (lookup_result (leaves_recs (bt_leaves t)) k, bf')"
    "bit_file_holds c g lo hi bf' t tls es"
    by (rule bit_file_holds_cached [OF c Cons.prems, of k]) (simp add: lookup_result_def that)
  then show ?case using Cons.IH by simp
qed simp

lemma iterate_ok:
  assumes c: "aead_ok c" and h: "bit_file_holds c g lo hi bf t tls es"
  shows "\<exists>it. bit_file_iterator c True g bf = Some (Some it) \<and>
    iter_collect bit_iterator_has_next (bit_iterator_next c g) it = Some (map Inr es)"
proof -
  obtain it where it: "bit_file_iterator c True g bf = Some (Some it)" "it_rel c g lo hi it es"
    by (rule bit_file_holds_iterator [OF c h]) (rule that)
  have "it_inv c g it" using c it(2) by (auto simp: it_inv_def)
  from bit_iter.collect_content [OF this] show ?thesis using it by (simp add: it_rest_eq [OF c it(2)])
qed

lemma built:
  assumes "aead_ok c" "lo + 2 ^ 40 \<le> 2 ^ 64" "length junk = DEFAULT_LSM_FILE_BUILDER_BUFFER_SIZE"
    and "\<forall>e \<in> set es. wf_record (snd e)" "length es \<le> DEFAULT_LSM_FILE_CAPACITY"
    and "bit_builder_create True True True flt junk lo fid level version r = (Some this0, r0)"
  obtains this f' r1 T p0 where "add_entries c this0 f r0 es = Some (this, f', r1)"
    "binv c f lo flt fid level version f' this es T p0"
proof -
  have "length junk = BUF" using assms(3) by (simp add: BUF_def)
  then obtain th r2 where th: "bit_builder_create True True True flt junk lo fid level version r = (Some th, r2)"
    "binv c f lo flt fid level version f th [] (replicate 10 []) (next_pointer th)"
    by (rule builder_created) (rule that)
  then have "th = this0" "r2 = r0" using assms(6) by simp_all
  then show thesis using add_entries_ok [OF assms(1,2) th(2) assms(4), of r2] assms(5) that by auto
qed

section \<open>Properties\<close>


text \<open>A concrete list of records and the filter the driver creates.\<close>

definition sample_records :: "nat \<Rightarrow> (u32 \<times> index_record) list" where
  "sample_records n = map (\<lambda>i. (word_of_nat i, zero_record)) [0..<n]"

lemma length_sample_records [simp]: "length (sample_records n) = n" "sample_records n = [] \<longleftrightarrow> n = 0"
  by (simp_all add: sample_records_def)

lemma sample_records_ok:
  assumes "n < 2 ^ 32"
  shows "sorted_wrt (<) (map fst (sample_records n))" "\<forall>e \<in> set (sample_records n). wf_record (snd e)" "length (sample_records n) = n"
proof -
  have "(word_of_nat i :: u32) < word_of_nat j" if "i < j" "j < n" for i j
    using that assms by (simp add: word_less_nat_alt unat_of_nat)
  then show "sorted_wrt (<) (map fst (sample_records n))"
    by (simp add: sample_records_def comp_def sorted_wrt_map sorted_wrt_iff_nth_less)
qed (auto simp: sample_records_def zero_record_def wf_record_def)

lemma bit_filter_wf: "bit_bloom_filter_create a b d e h = Some flt \<Longrightarrow> bloom_wf flt \<and> bsize flt = BIT_BLOOM_FILTER_SIZE"
  by (auto simp: bit_bloom_filter_create_def bloom_filter_create_def bloom_filter_init_def add_hash_or_skip_def
      bloom_filter_add_hash_def bloom_wf_def BIT_BLOOM_FILTER_SIZE_def DEFAULT_LSM_FILE_CAPACITY_def split: if_splits)

definition sample_filter :: bloom_filter where
  "sample_filter = the (bit_bloom_filter_create True True True True True)"

lemma sample_filter_wf: "bloom_wf sample_filter" "bsize sample_filter = BIT_BLOOM_FILTER_SIZE"
proof -
  have "bit_bloom_filter_create True True True True True = Some sample_filter"
    unfolding sample_filter_def
    by (simp add: bit_bloom_filter_create_def bloom_filter_create_def bloom_filter_init_def)
  from bit_filter_wf [OF this] show "bloom_wf sample_filter" "bsize sample_filter = BIT_BLOOM_FILTER_SIZE" by auto
qed

definition sample_junk :: "byte list" where
  "sample_junk = replicate DEFAULT_LSM_FILE_BUILDER_BUFFER_SIZE 0"

lemma sample_build:
  assumes "n \<le> DEFAULT_LSM_FILE_CAPACITY"
  obtains this0 r0 this f' r1 T p0 where
    "bit_builder_create True True True sample_filter sample_junk 0 0 0 0 (\<lambda>_. 0) = (Some this0, r0)"
    "add_entries null_cipher this0 (\<lambda>_. 0) r0 (sample_records n) = Some (this, f', r1)"
    "binv null_cipher (\<lambda>_. 0) 0 sample_filter 0 0 0 f' this (sample_records n) T p0"
proof -
  have n: "n < 2 ^ 32" using assms by (simp add: DEFAULT_LSM_FILE_CAPACITY_def)
  have j: "length sample_junk = BUF" by (simp add: sample_junk_def BUF_def)
  obtain this0 r0 where cr: "bit_builder_create True True True sample_filter sample_junk 0 0 0 0 (\<lambda>_. 0) = (Some this0, r0)"
    by (rule builder_created [OF j]) (rule that)
  show thesis
    by (rule built [OF null_cipher_ok _ _ sample_records_ok(2) [OF n] _ cr, of "\<lambda>_. 0"])
      (use assms sample_records_ok(3) [OF n] in \<open>simp_all add: sample_junk_def that [OF cr]\<close>)
qed


text \<open>C28. Records lost to search: when the number of records is not a multiple of the leaf
  length, the last leaf is stored and linked but not registered in the context, so the records
  after the last full leaf are delivered by the iterator and are not found by any search.\<close>

theorem bit_file_tail_not_found:
  assumes "aead_ok c" "lo + 2 ^ 40 \<le> 2 ^ 64" "length junk = DEFAULT_LSM_FILE_BUILDER_BUFFER_SIZE" "bloom_wf flt"
    and "sorted_wrt (<) (map fst es)" "\<forall>e \<in> set es. wf_record (snd e)"
    and "BIT_LEAF_LEN \<le> length es" "length es \<le> DEFAULT_LSM_FILE_CAPACITY"
    and "bit_builder_create True True True flt junk lo fid level version r = (Some this0, r0)"
    and "add_entries c this0 f r0 es = Some (this, f', r1)" "\<not> bit_builder_full this"
  shows "\<exists>bf g r2. bit_builder_complete c True flt jleaf this f' r1 = (Some bf, g, r2) \<and>
    (\<forall>e \<in> set (drop (BIT_LEAF_LEN * (length es div BIT_LEAF_LEN)) es). bit_file_searches c g bf [fst e] = Some [Inl ENODATA]) \<and>
    (\<exists>it. bit_file_iterator c True g bf = Some (Some it) \<and>
       iter_collect bit_iterator_has_next (bit_iterator_next c g) it = Some (map Inr es))"
proof -
  let ?k = "BIT_LEAF_LEN * (length es div BIT_LEAF_LEN)"
  obtain T p0 where inv: "binv c f lo flt fid level version f' this es T p0"
    using built [OF assms(1-3,6,8,9), of f] assms(10) by (metis option.inject prod.inject)
  obtain bf g r2 t tls hi where C: "bit_builder_complete c True flt jleaf this f' r1 = (Some bf, g, r2)"
    "bit_file_holds c g lo hi bf t tls es" "leaves_recs (bt_leaves t) = take ?k es"
    using complete_ok [OF assms(1,2) inv assms(7,8,11,5,4), of jleaf r1] by blast
  have "lookup_result (take ?k es) (fst e) = Inl ENODATA" if "e \<in> set (drop ?k es)" for e
  proof -
    have "sorted_wrt (<) (map fst (take ?k es @ drop ?k es))" using assms(5) by simp
    then have "fst e \<notin> fst ` set (take ?k es)" using that unfolding map_append sorted_wrt_append by force
    then show ?thesis by (simp add: lookup_result_def map_of_eq_None_iff [THEN iffD2])
  qed
  then have "\<forall>e \<in> set (drop ?k es). bit_file_searches c g bf [fst e] = Some [Inl ENODATA]"
    unfolding searches_ok [OF assms(1) C(2)] C(3) by simp
  then show ?thesis using C(1) iterate_ok [OF assms(1) C(2)] by blast
qed

theorem bit_file_tail_not_found_witness:
  "\<exists>this0 r0 this f r1 bf g r2.
    bit_builder_create True True True sample_filter sample_junk 0 0 0 0 (\<lambda>_. 0) = (Some this0, r0) \<and>
    add_entries null_cipher this0 (\<lambda>_. 0) r0 (sample_records 9) = Some (this, f, r1) \<and>
    bit_builder_complete null_cipher True sample_filter zero_leaf this f r1 = (Some bf, g, r2) \<and>
    bit_file_searches null_cipher g bf [8] = Some [Inl ENODATA]"
proof -
  obtain this0 r0 this f r1 T p0 where S: "bit_builder_create True True True sample_filter sample_junk 0 0 0 0 (\<lambda>_. 0) = (Some this0, r0)"
    "add_entries null_cipher this0 (\<lambda>_. 0) r0 (sample_records 9) = Some (this, f, r1)"
    "binv null_cipher (\<lambda>_. 0) 0 sample_filter 0 0 0 f this (sample_records 9) T p0"
    by (rule sample_build [of 9]) (auto simp: DEFAULT_LSM_FILE_CAPACITY_def that)
  have r: "sorted_wrt (<) (map fst (sample_records 9))" "\<forall>e \<in> set (sample_records 9). wf_record (snd e)" "length (sample_records 9) = 9"
    by (rule sample_records_ok; simp)+
  have nf: "\<not> bit_builder_full this" by (rule small_not_full [OF S(3)]) (simp add: r(3))
  have e: "(8, zero_record) \<in> set (drop (BIT_LEAF_LEN * (length (sample_records 9) div BIT_LEAF_LEN)) (sample_records 9))"
    by (simp add: r(3) BIT_LEAF_LEN_def) (simp add: sample_records_def upt_rec)
  have "\<exists>bf g r2. bit_builder_complete null_cipher True sample_filter zero_leaf this f r1 = (Some bf, g, r2) \<and>
    (\<forall>e \<in> set (drop (BIT_LEAF_LEN * (length (sample_records 9) div BIT_LEAF_LEN)) (sample_records 9)).
       bit_file_searches null_cipher g bf [fst e] = Some [Inl ENODATA]) \<and>
    (\<exists>it. bit_file_iterator null_cipher True g bf = Some (Some it) \<and>
       iter_collect bit_iterator_has_next (bit_iterator_next null_cipher g) it = Some (map Inr (sample_records 9)))"
    by (rule bit_file_tail_not_found [OF null_cipher_ok _ _ sample_filter_wf(1) r(1,2) _ _ S(1,2) nf])
      (use r(3) in \<open>simp_all add: sample_junk_def DEFAULT_LSM_FILE_CAPACITY_def BIT_LEAF_LEN_def\<close>)
  then show ?thesis using S(1,2) e by fastforce
qed

section \<open>The region of a file\<close>

lemma calculate_bit_size_capacity: "calculate_bit_size DEFAULT_LSM_FILE_CAPACITY DEFAULT_BIT_DEGREE = Some 85327809"
  by (simp add: calculate_bit_size_def bit_array_len_def bit_array_len_loop.simps nr_leaf_def DEFAULT_LSM_FILE_CAPACITY_def
      DEFAULT_BIT_DEGREE_def BIT_LEAF_LEN_def node_sizes BIT_BLOOM_FILTER_SIZE_def)



section \<open>A completion that flushes\<close>

lemma complete_full:
  assumes c: "aead_ok c" and lo: "lo + 2 ^ 40 \<le> 2 ^ 64" and inv: "binv c f0 lo flt i lv v f this es T p0"
    and n: "BIT_LEAF_LEN \<le> length es" "length es \<le> DEFAULT_LSM_FILE_CAPACITY" and fl: "bit_builder_full this"
    and cp: "bit_builder_complete c True flt jleaf this f r = (Some bf, g, r')"
  shows "bb_begin this + bb_cur this \<le> bf_root bf" "bf_filter_begin bf = bf_root bf + BIT_INNER_NODE_SIZE"
    "\<forall>a. bb_begin this + bb_cur this \<le> a \<and> a < bf_filter_begin bf \<longrightarrow> g a = f0 a"
proof -
  define th1 where "th1 = this\<lparr>bb_begin := bb_begin this + bb_cur this, bb_cur := 0\<rparr>"
  define f1 where "f1 = kernel_write f (take (bb_cur this) (bb_buffer this)) (bb_begin this)"
  have flush: "bit_builder_buffer_flush_if_full this f = (th1, f1)"
    using fl by (simp add: bit_builder_buffer_flush_if_full_def th1_def f1_def)
  have l: "log_inv c f0 lo f this T p0" and lf: "leaf_inv (cur_leaf this)" using inv by (simp_all add: binv_def)
  have I: "length (bb_ctx this) = 10" "bb_height this = 10" "\<forall>a. a < lo \<or> bb_begin this \<le> a \<longrightarrow> f a = f0 a"
    using l by (auto simp: log_inv_def)
  have w: "wsum (bb_ctx this) = length es div BIT_LEAF_LEN" by (rule binv_count(2) [OF inv])
  have w1: "0 < wsum (bb_ctx th1)" "wsum (bb_ctx th1) \<le> NLEAF"
    using n by (simp_all add: th1_def w BIT_LEAF_LEN_def NLEAF_def DEFAULT_LSM_FILE_CAPACITY_def)
  have "cx_nr (bb_ctx this ! 9) * 4 ^ 9 \<le> NLEAF" using wsum_digit [of 9 "bb_ctx this"] I(1) w1(2) by (simp add: th1_def)
  then have n9: "cx_nr (bb_ctx this ! 9) = 0" by (simp add: NLEAF_def)
  note F = log_inv_flush [OF l flush]
  have lf1: "leaf_inv (cur_leaf th1)" using lf by (simp add: F(7))
  obtain th r2 t where C: "bit_builder_close c th1 r = (th, r2)" "bb_begin th = bb_begin th1" "bb_height th = 10"
    "bb_cur th \<le> bb_cur th1 + 2210" "bb_begin th1 + bb_cur th1 \<le> bp_pos (bt_ptr t)"
    "bp_pos (bt_ptr t) + BIT_INNER_NODE_SIZE = bb_begin th + bb_cur th"
    using close_ok [OF c F(1) lf1 w1 lo F(2), of r] by (elim exE conjE) (rule that)
  have e: "bb_begin th = bb_begin this + bb_cur this" "bb_cur th \<le> 2210" using C(2,4) by (simp_all add: th1_def)
  have big: "2210 \<le> bb_cur this" using fl I(2) by (simp add: bit_builder_full_def node_sizes DEFAULT_LSM_FILE_BUILDER_BUFFER_SIZE_def)
  define root where "root = bb_begin th + bb_cur th - BIT_INNER_NODE_SIZE"
  have res: "bf_root bf = root" "bf_filter_begin bf = root + BIT_INNER_NODE_SIZE"
    "g = kernel_write (kernel_write f1 (take (bb_cur th) (bb_buffer th)) (bb_begin this)) (bits (bb_filter th)) (root + BIT_INNER_NODE_SIZE)"
    using cp by (auto simp: bit_builder_complete_def I(2) n9 flush C(1,3) Let_def bit_file_create_def bit_file_init_def root_def)
  show "bb_begin this + bb_cur this \<le> bf_root bf" using C(5,6) by (simp add: res(1) root_def th1_def)
  show "bf_filter_begin bf = bf_root bf + BIT_INNER_NODE_SIZE" by (simp add: res)
  show "\<forall>a. bb_begin this + bb_cur this \<le> a \<and> a < bf_filter_begin bf \<longrightarrow> g a = f0 a"
    using e(2) big I(3) unfolding res(2,3) by (auto simp: kernel_write_def f1_def)
qed

text \<open>C29. A completion that has to flush the buffer writes the remaining nodes to the start of the flushed
  part: they overwrite it, and the bytes where the file's root is said to be are never
  written.\<close>

theorem complete_flush_misplaces_root:
  assumes "aead_ok c" "lo + 2 ^ 40 \<le> 2 ^ 64" "length junk = DEFAULT_LSM_FILE_BUILDER_BUFFER_SIZE" "\<forall>e \<in> set es. wf_record (snd e)"
    and "BIT_LEAF_LEN \<le> length es" "length es \<le> DEFAULT_LSM_FILE_CAPACITY"
    and "bit_builder_create True True True flt junk lo fid level version r = (Some this0, r0)"
    and "add_entries c this0 f r0 es = Some (this, f', r1)" "bit_builder_full this"
    and "bit_builder_complete c True flt jleaf this f' r1 = (Some bf, g, r2)"
  shows "kernel_read g BIT_INNER_NODE_SIZE (bf_root bf) = kernel_read f BIT_INNER_NODE_SIZE (bf_root bf)"
proof -
  obtain T p0 where inv: "binv c f lo flt fid level version f' this es T p0"
    using built [OF assms(1-4,6,7), of f] assms(8) by (metis option.inject prod.inject)
  note F = complete_full [OF assms(1,2) inv assms(5,6,9,10)]
  show ?thesis unfolding kernel_read_def by (rule map_cong) (use F in auto)
qed

text \<open>It happens: 58608 records fill the buffer without having flushed it.\<close>

primrec dsum :: "nat \<Rightarrow> nat \<Rightarrow> nat" where
  "dsum 0 n = 0"
| "dsum (Suc k) n = n mod 4 + dsum k (n div 4)"

lemma nsum_dsum: "\<forall>k < length ctx. cx_nr (ctx ! k) < 4 \<Longrightarrow> nsum ctx = dsum (length ctx) (wsum ctx)"
proof (induction ctx)
  case (Cons x ctx)
  have "cx_nr x < 4" "\<forall>k < length ctx. cx_nr (ctx ! k) < 4" using Cons.prems by auto
  then show ?case using Cons.IH by (simp add: nsum_def)
qed (simp add: nsum_def)

lemma log_inv_nsum: "log_inv c f0 lo f this T p0 \<Longrightarrow> nsum (bb_ctx this) = dsum 10 (wsum (bb_ctx this))"
  using nsum_dsum [of "bb_ctx this"] by (simp add: log_inv_def)

lemma dsum_numeral: "dsum (numeral k) n = n mod 4 + dsum (pred_numeral k) (n div 4)"
  by (simp only: numeral_eq_Suc [of k] dsum.simps)

lemma dsum_values: "dsum 10 7324 = 10" "dsum 10 7325 = 11" "dsum 10 7326 = 12"
  by (simp_all add: dsum_numeral)

lemma early_not_full:
  assumes l: "log_inv c f0 lo f this T p0" and w: "wsum (bb_ctx this) \<le> 7325"
  shows "\<not> bit_builder_full this"
proof -
  have c: "bb_cur this + 63 * nsum (bb_ctx this) \<le> 572 * wsum (bb_ctx this)" and h: "bb_height this = 10"
    using l by (auto simp: log_inv_def)
  consider "wsum (bb_ctx this) \<le> 7323" | "wsum (bb_ctx this) = 7324" | "wsum (bb_ctx this) = 7325" using w by linarith
  then have "bb_cur this \<le> 4189214"
    using c log_inv_nsum [OF l] by cases (simp_all add: dsum_values)
  then show ?thesis using h by (simp add: bit_builder_full_def node_sizes DEFAULT_LSM_FILE_BUILDER_BUFFER_SIZE_def)
qed

lemma add_entry_loop_begin: "add_entry_loop c h this r = Some (this', r') \<Longrightarrow> bb_begin this' = bb_begin this"
proof (induction c h this r rule: add_entry_loop.induct)
  case (1 c h this r)
  have "bb_begin (fst (bit_builder_push_inner c h this r)) = bb_begin this"
    by (simp add: bit_builder_push_inner_def Let_def split_beta)
  then show ?case using 1 by (simp add: add_entry_loop.simps [of c h] split: if_splits)
qed

lemma add_entry_begin:
  assumes "bit_builder_add_entry c this f r e = Some (this', f', r')" "\<not> bit_builder_full this"
  shows "bb_begin this' = bb_begin this"
proof -
  define th where "th = bit_builder_note this (fst e) (snd e)"
  have n: "bb_begin th = bb_begin this" "\<not> bit_builder_full th"
    using assms(2) by (simp_all add: th_def bit_builder_note_def bit_builder_full_def)
  show ?thesis
  proof (cases "nr_record (cur_leaf th) < BIT_LEAF_LEN")
    case True
    then show ?thesis using assms(1) n(1) by (auto simp: bit_builder_add_entry_def th_def Let_def)
  next
    case False
    then have "bit_builder_seal_leaf c th f r = Some (this', f', r')"
      using assms(1) by (simp add: bit_builder_add_entry_def th_def Let_def)
    then show ?thesis using n
      by (auto simp: bit_builder_seal_leaf_def Let_def bit_builder_buffer_flush_if_full_def bit_builder_full_def split_beta
          dest!: add_entry_loop_begin split: option.splits)
  qed
qed

lemma add_entries_begin:
  assumes c: "aead_ok c" and lo: "lo + 2 ^ 40 \<le> 2 ^ 64"
  shows "binv c f0 lo flt i lv v f this es T p0 \<Longrightarrow> \<forall>e \<in> set xs. wf_record (snd e) \<Longrightarrow> length es + length xs \<le> 58608 \<Longrightarrow>
    add_entries c this f r xs = Some (this', f', r') \<Longrightarrow> bb_begin this' = bb_begin this"
proof (induction xs arbitrary: f this es T r)
  case (Cons e xs)
  obtain k x where e: "e = (k, x)" by fastforce
  have l: "length es < DEFAULT_LSM_FILE_CAPACITY" using Cons.prems(3) by (simp add: DEFAULT_LSM_FILE_CAPACITY_def)
  obtain this1 f1 r1 T1 where s: "bit_builder_add_entry c this f r (k, x) = Some (this1, f1, r1)"
    "binv c f0 lo flt i lv v f1 this1 (es @ [(k, x)]) T1 p0"
    using add_entry_ok [OF c lo Cons.prems(1) _ l, of x r k] Cons.prems(2) by (auto simp: e)
  have "wsum (bb_ctx this) \<le> 7325" using binv_count(2) [OF Cons.prems(1)] Cons.prems(3) by (simp add: BIT_LEAF_LEN_def)
  moreover have "log_inv c f0 lo f this T p0" using Cons.prems(1) by (simp add: binv_def)
  ultimately have "bb_begin this1 = bb_begin this" using add_entry_begin [OF s(1)] early_not_full by blast
  then show ?case using Cons.IH [OF s(2), of r1] Cons.prems(2-4) s(1) by (simp add: e)
qed simp

theorem complete_flush_misplaces_root_witness:
  "\<exists>this0 r0 this f r1 bf g r2.
    bit_builder_create True True True sample_filter sample_junk 0 0 0 0 (\<lambda>_. 0) = (Some this0, r0) \<and>
    add_entries null_cipher this0 (\<lambda>_. 0) r0 (sample_records 58608) = Some (this, f, r1) \<and>
    bit_builder_complete null_cipher True sample_filter zero_leaf this f r1 = (Some bf, g, r2) \<and>
    kernel_read g BIT_INNER_NODE_SIZE (bf_root bf) = kernel_read (\<lambda>_. 0) BIT_INNER_NODE_SIZE (bf_root bf)"
proof -
  let ?es = "sample_records 58608"
  have j: "length sample_junk = BUF" by (simp add: sample_junk_def BUF_def)
  obtain this0 r0 where cr: "bit_builder_create True True True sample_filter sample_junk 0 0 0 0 (\<lambda>_. 0) = (Some this0, r0)"
    "binv null_cipher (\<lambda>_. 0) 0 sample_filter 0 0 0 (\<lambda>_. 0) this0 [] (replicate 10 []) (next_pointer this0)"
    by (rule builder_created [OF j, where c = null_cipher and f = "\<lambda>_. 0"]) (rule that)
  have rc: "\<forall>e \<in> set ?es. wf_record (snd e)" by (rule sample_records_ok(2)) simp
  have cap: "length ?es \<le> DEFAULT_LSM_FILE_CAPACITY" by (simp add: DEFAULT_LSM_FILE_CAPACITY_def)
  obtain this f r1 T p0 where A: "add_entries null_cipher this0 (\<lambda>_. 0) r0 ?es = Some (this, f, r1)"
    "binv null_cipher (\<lambda>_. 0) 0 sample_filter 0 0 0 f this ?es T p0"
    by (rule built [OF null_cipher_ok _ _ rc cap cr(1), of "\<lambda>_. 0"]) (simp_all add: sample_junk_def that)
  have "bb_begin this0 = 0" using cr(2) by (auto simp: binv_def log_inv_def forest_leaves_def)
  then have b: "bb_begin this = 0" using add_entries_begin [OF null_cipher_ok _ cr(2) rc _ A(1)] by simp
  have l: "log_inv null_cipher (\<lambda>_. 0) 0 f this T p0" using A(2) by (simp add: binv_def)
  have w: "wsum (bb_ctx this) = 7326" using binv_count(2) [OF A(2)] by (simp add: BIT_LEAF_LEN_def)
  have "bb_cur this + 63 * 12 = 572 * 7326" "bb_height this = 10"
    using l log_inv_nsum [OF l] by (simp_all add: log_inv_def w b dsum_values)
  then have fl: "bit_builder_full this" by (simp add: bit_builder_full_def node_sizes DEFAULT_LSM_FILE_BUILDER_BUFFER_SIZE_def)
  obtain bf g r2 where cp: "bit_builder_complete null_cipher True sample_filter zero_leaf this f r1 = (Some bf, g, r2)"
    by (auto simp: bit_builder_complete_def bit_file_create_def Let_def split_beta)
  have "kernel_read g BIT_INNER_NODE_SIZE (bf_root bf) = kernel_read (\<lambda>_. 0) BIT_INNER_NODE_SIZE (bf_root bf)"
    by (rule complete_flush_misplaces_root [OF null_cipher_ok _ _ rc _ cap cr(1) A(1) fl cp]) (simp_all add: sample_junk_def BIT_LEAF_LEN_def)
  then show ?thesis using cr(1) A(1) cp by blast
qed

end
