(* ===== verification/Bit_Level.thy ===== *)
theory Bit_Level
  imports Bit_Index
begin

text \<open>
  A level of the tree (\<open>bit_level_*\<close> of \<open>lsm_tree.c\<close>): an array of files with room for
  \<open>lv_max_size\<close> pointers of which \<open>lv_size\<close> are in use, ordered by key range. The files of level 0
  may overlap and are searched one after the other; those of a deeper level do not, and the one
  that can hold a key is located by binary search.
\<close>

section \<open>Operations\<close>

record bit_level =
  lv_level :: nat
  lv_capacity :: nat
  lv_size :: nat
  lv_max_size :: nat
  lv_files :: "bit_file list"

definition memmove :: "nat \<Rightarrow> nat \<Rightarrow> nat \<Rightarrow> 'a list \<Rightarrow> 'a list" where
  "memmove dst src n xs = overwrite dst (slice src n xs) xs"

definition bit_level_is_full :: "bit_level \<Rightarrow> bool" where
  "bit_level_is_full this \<longleftrightarrow> lv_capacity this \<le> lv_size this"

definition bit_file_cmp :: "bit_file \<Rightarrow> bit_file \<Rightarrow> int" where
  "bit_file_cmp file1 file2 =
     (if bf_first_key file1 = bf_first_key file2 then uint (bf_last_key file1) - uint (bf_last_key file2)
      else uint (bf_first_key file1) - uint (bf_first_key file2))"

function search_file_loop :: "bit_file list \<Rightarrow> bit_file \<Rightarrow> nat \<Rightarrow> nat \<Rightarrow> nat" where
  "search_file_loop files file low high =
     (if low < high then
        let mid = low + (high - low) div 2
        in if bit_file_cmp (files ! mid) file < 0 then search_file_loop files file (mid + 1) high
           else search_file_loop files file low mid
      else low)"
  by pat_completeness auto
termination
  by (relation "measure (\<lambda>(files, file, low, high). high - low)") auto

declare search_file_loop.simps [simp del]

definition bit_level_search_file :: "bit_level \<Rightarrow> bit_file \<Rightarrow> nat" where
  "bit_level_search_file this file =
     (let low = 0; high = lv_size this - 1
      in if lv_size this = 0 then 0
         else if bit_file_cmp (lv_files this ! low) file \<ge> 0 then low
         else if bit_file_cmp (lv_files this ! high) file \<le> 0 then high + 1
         else search_file_loop (lv_files this) file low high)"

definition bit_file_cmp_key :: "u32 \<Rightarrow> bit_file \<Rightarrow> int" where
  "bit_file_cmp_key key file =
     (if bf_first_key file \<le> key \<and> key \<le> bf_last_key file then 0
      else if key < bf_first_key file then - 1 else 1)"

definition bit_level_locate_file_pointer :: "bit_level \<Rightarrow> u32 \<Rightarrow> nat option" where
  "bit_level_locate_file_pointer this key = bsearch (bit_file_cmp_key key) (lv_files this) (lv_size this)"

definition bit_level_locate_file :: "bit_level \<Rightarrow> u32 \<Rightarrow> nat option" where
  "bit_level_locate_file this key = bit_level_locate_file_pointer this key"

definition bit_level_add_file :: "bit_level \<Rightarrow> bit_file \<Rightarrow> unit result \<times> bit_level" where
  "bit_level_add_file this bit_file =
     (if lv_max_size this \<le> lv_size this then (Inl ENOSPC, this)
      else let pos = bit_level_search_file this bit_file;
               moved = (if pos + 1 < lv_max_size this
                        then memmove (pos + 1) pos (lv_size this - pos) (lv_files this) else lv_files this)
           in (Inr (), this\<lparr>lv_files := moved[pos := bit_file], lv_size := lv_size this + 1\<rparr>))"

text \<open>Searching may change the leaf a file caches. \<open>None\<close> is a search that does not end.\<close>

fun linear_search_loop ::
  "aead \<Rightarrow> bfile \<Rightarrow> u32 \<Rightarrow> nat list \<Rightarrow> nat \<Rightarrow> index_record result \<Rightarrow> bit_level \<Rightarrow> (index_record result \<times> bit_level) option" where
  "linear_search_loop c file key [] cur_version found this = Some (found, this)"
| "linear_search_loop c file key (i # is) cur_version found this =
     (if bf_version (lv_files this ! i) < cur_version then linear_search_loop c file key is cur_version found this
      else case bit_file_search c file (lv_files this ! i) key of
             None \<Rightarrow> None
           | Some (r, f) \<Rightarrow>
               let this' = this\<lparr>lv_files := (lv_files this)[i := f]\<rparr>
               in (case r of
                     Inl _ \<Rightarrow> linear_search_loop c file key is cur_version found this'
                   | Inr val \<Rightarrow> linear_search_loop c file key is (bf_version (lv_files this ! i)) (Inr val) this'))"

definition bit_level_linear_search :: "aead \<Rightarrow> bfile \<Rightarrow> bit_level \<Rightarrow> u32 \<Rightarrow> (index_record result \<times> bit_level) option" where
  "bit_level_linear_search c file this key =
     linear_search_loop c file key [0..<lv_size this] 0 (Inl ENODATA) this"

definition bit_level_search :: "aead \<Rightarrow> bfile \<Rightarrow> bit_level \<Rightarrow> u32 \<Rightarrow> (index_record result \<times> bit_level) option" where
  "bit_level_search c file this key =
     (if lv_level this = 0 then bit_level_linear_search c file this key
      else case bit_level_locate_file this key of
             None \<Rightarrow> Some (Inl ENODATA, this)
           | Some i \<Rightarrow>
               (case bit_file_search c file (lv_files this ! i) key of
                  None \<Rightarrow> None
                | Some (r, f) \<Rightarrow> Some (r, this\<lparr>lv_files := (lv_files this)[i := f]\<rparr>)))"

definition bit_level_remove_file :: "bit_level \<Rightarrow> nat \<Rightarrow> unit result \<times> bit_level" where
  "bit_level_remove_file this fid =
     (case find (\<lambda>pos. bf_id (lv_files this ! pos) = fid) [0..<lv_size this] of
        None \<Rightarrow> (Inl EINVAL, this)
      | Some pos \<Rightarrow>
          (Inr (), this\<lparr>lv_files := memmove pos (pos + 1) (lv_size this - pos - 1) (lv_files this),
                        lv_size := lv_size this - 1\<rparr>))"

definition bit_level_pick_demoted_files :: "bit_level \<Rightarrow> bit_file list" where
  "bit_level_pick_demoted_files this =
     (if lv_size this = 0 then []
      else if lv_level this \<noteq> 0 then [lv_files this ! 0]
      else map (\<lambda>i. lv_files this ! i) [0..<lv_size this])"

definition bit_level_get_first_key :: "bit_level \<Rightarrow> u32" where
  "bit_level_get_first_key this = bf_first_key (lv_files this ! 0)"

definition bit_level_get_last_key :: "bit_level \<Rightarrow> u32" where
  "bit_level_get_last_key this = bf_last_key (lv_files this ! (lv_size this - 1))"

text \<open>The bounds are signed: the upper one can fall below the lower one.\<close>

function lower_bound_loop :: "bit_file list \<Rightarrow> u32 \<Rightarrow> int \<Rightarrow> int \<Rightarrow> int" where
  "lower_bound_loop files key low high =
     (if low < high then
        let mid = low + (high - low) div 2; f = files ! nat mid
        in if bf_first_key f \<le> key \<and> key \<le> bf_last_key f then mid
           else if key < bf_first_key f then lower_bound_loop files key low (mid - 1)
           else lower_bound_loop files key (mid + 1) high
      else low)"
  by pat_completeness auto
termination
  by (relation "measure (\<lambda>(files, key, low, high). nat (high - low))") auto

declare lower_bound_loop.simps [simp del]

definition bit_level_lower_bound :: "bit_level \<Rightarrow> u32 \<Rightarrow> int" where
  "bit_level_lower_bound this key =
     (let low = 0; high = int (lv_size this) - 1
      in if key < bf_first_key (lv_files this ! nat low) then 0
         else if bf_last_key (lv_files this ! nat high) < key then high + 1
         else lower_bound_loop (lv_files this) key low high)"

function relatives_loop :: "bit_level \<Rightarrow> u32 \<Rightarrow> nat \<Rightarrow> bit_file list" where
  "relatives_loop this lkey pos =
     (if pos < lv_size this \<and> bf_first_key (lv_files this ! pos) \<le> lkey
      then lv_files this ! pos # relatives_loop this lkey (pos + 1) else [])"
  by pat_completeness auto
termination
  by (relation "measure (\<lambda>(this, lkey, pos). lv_size this - pos)") auto

declare relatives_loop.simps [simp del]

definition files_range :: "bit_file list \<Rightarrow> u32 \<times> u32" where
  "files_range files = foldl (\<lambda>(fkey, lkey) f. (min fkey (bf_first_key f), max lkey (bf_last_key f))) (0xffffffff, 0) files"

definition bit_level_find_relative_files :: "bit_level \<Rightarrow> bit_file list \<Rightarrow> bit_file list" where
  "bit_level_find_relative_files this files =
     (if lv_size this = 0 then []
      else case files_range files of (fkey, lkey) \<Rightarrow>
        if lkey < bit_level_get_first_key this \<or> bit_level_get_last_key this < fkey then []
        else relatives_loop this lkey (nat (bit_level_lower_bound this fkey)))"

text \<open>\<open>junk\<close> is the content of the new array.\<close>

definition bit_level_init :: "bool \<Rightarrow> bit_file list \<Rightarrow> nat \<Rightarrow> nat \<Rightarrow> bit_level result" where
  "bit_level_init ok junk level cap =
     (if \<not> ok then Inl ENOMEM
      else Inr \<lparr>lv_level = level, lv_capacity = cap, lv_size = 0,
             lv_max_size = 2 * cap + DEFAULT_LSM_LEVEL0_NR_FILE,
             lv_files = take (2 * cap + DEFAULT_LSM_LEVEL0_NR_FILE) junk\<rparr>)"

definition bit_level_create :: "bool \<Rightarrow> bool \<Rightarrow> bit_file list \<Rightarrow> nat \<Rightarrow> nat \<Rightarrow> bit_level option" where
  "bit_level_create ok ok_files junk level cap =
     (if \<not> ok then None
      else case bit_level_init ok_files junk level cap of Inl _ \<Rightarrow> None | Inr this \<Rightarrow> Some this)"

section \<open>The array of files\<close>

definition level_files :: "bit_level \<Rightarrow> bit_file list" where
  "level_files this = take (lv_size this) (lv_files this)"

definition level_ok :: "bit_level \<Rightarrow> bool" where
  "level_ok this \<longleftrightarrow> lv_size this \<le> lv_max_size this \<and> length (lv_files this) = lv_max_size this"

text \<open>The order of \<open>bit_file_cmp\<close> as a number.\<close>

definition file_rank :: "bit_file \<Rightarrow> int" where
  "file_rank f = uint (bf_first_key f) * 2 ^ 32 + uint (bf_last_key f)"

lemma rank_less: "bf_first_key f < bf_first_key g \<Longrightarrow> file_rank f < file_rank g"
proof -
  assume "bf_first_key f < bf_first_key g"
  then have "uint (bf_first_key f) + 1 \<le> uint (bf_first_key g)" by (simp add: word_less_def)
  then have "(uint (bf_first_key f) + 1) * 2 ^ 32 \<le> uint (bf_first_key g) * 2 ^ 32" by (rule mult_right_mono) simp
  moreover have "uint (bf_last_key f) < 2 ^ 32" "0 \<le> uint (bf_last_key g)" using uint_bounded [of "bf_last_key f"] by simp_all
  ultimately show ?thesis unfolding file_rank_def distrib_right by linarith
qed

lemma cmp_rank:
  "bit_file_cmp f g < 0 \<longleftrightarrow> file_rank f < file_rank g" "bit_file_cmp f g \<le> 0 \<longleftrightarrow> file_rank f \<le> file_rank g"
proof -
  consider "bf_first_key f < bf_first_key g" | "bf_first_key f = bf_first_key g" | "bf_first_key g < bf_first_key f" by (rule linorder_cases)
  then have "(bit_file_cmp f g < 0 \<longleftrightarrow> file_rank f < file_rank g) \<and> (bit_file_cmp f g \<le> 0 \<longleftrightarrow> file_rank f \<le> file_rank g)"
  proof cases
    case 1
    then have "bit_file_cmp f g < 0" by (auto simp: bit_file_cmp_def word_less_def)
    then show ?thesis using rank_less [OF 1] by simp
  next
    case 3
    then have "bit_file_cmp f g > 0" by (auto simp: bit_file_cmp_def word_less_def)
    then show ?thesis using rank_less [OF 3] by simp
  qed (simp add: bit_file_cmp_def file_rank_def)
  then show "bit_file_cmp f g < 0 \<longleftrightarrow> file_rank f < file_rank g" "bit_file_cmp f g \<le> 0 \<longleftrightarrow> file_rank f \<le> file_rank g" by simp_all
qed

lemma cmp_rank_ge: "0 \<le> bit_file_cmp f g \<longleftrightarrow> file_rank g \<le> file_rank f"
  using cmp_rank(1) [of f g] by linarith

lemma length_level_files [simp]: "level_ok this \<Longrightarrow> length (level_files this) = lv_size this"
  by (simp add: level_files_def level_ok_def)

lemma level_files_nth [simp]: "i < lv_size this \<Longrightarrow> level_files this ! i = lv_files this ! i"
  by (simp add: level_files_def)

definition splits_at :: "('a \<Rightarrow> int) \<Rightarrow> int \<Rightarrow> 'a list \<Rightarrow> nat \<Rightarrow> bool" where
  "splits_at rank r xs pos \<longleftrightarrow> pos \<le> length xs \<and> (\<forall>i < pos. rank (xs ! i) \<le> r) \<and> (\<forall>i. pos \<le> i \<longrightarrow> i < length xs \<longrightarrow> r \<le> rank (xs ! i))"

lemma search_file_loop_ok:
  assumes srt: "sorted (map file_rank fs)" and len: "length fs = n" and arr: "\<And>i. i < n \<Longrightarrow> files ! i = fs ! i"
  shows "low \<le> high \<Longrightarrow> high < n \<Longrightarrow> \<forall>i < low. file_rank (fs ! i) \<le> file_rank f \<Longrightarrow> file_rank f \<le> file_rank (fs ! high) \<Longrightarrow>
    splits_at file_rank (file_rank f) fs (search_file_loop files f low high)"
proof (induction "high - low" arbitrary: low high rule: less_induct)
  case less
  have mono: "i \<le> j \<Longrightarrow> j < n \<Longrightarrow> file_rank (fs ! i) \<le> file_rank (fs ! j)" for i j
    using sorted_nth_mono [OF srt, of i j] len by simp
  show ?case
  proof (cases "low < high")
    case True
    let ?mid = "low + (high - low) div 2"
    have mid: "low \<le> ?mid" "?mid < high" "?mid < n" using True less.prems by simp_all
    show ?thesis
    proof (cases "bit_file_cmp (files ! ?mid) f < 0")
      case lt: True
      have "\<forall>i < ?mid + 1. file_rank (fs ! i) \<le> file_rank f"
      proof (intro allI impI)
        fix i assume "i < ?mid + 1"
        then have "file_rank (fs ! i) \<le> file_rank (fs ! ?mid)" using mono [of i ?mid] mid by simp
        then show "file_rank (fs ! i) \<le> file_rank f" using lt arr [OF mid(3)] by (simp add: cmp_rank)
      qed
      then show ?thesis using less.hyps [of high "?mid + 1"] less.prems mid lt True
        by (simp add: search_file_loop.simps [of files f low high] Let_def)
    next
      case ge: False
      have "file_rank f \<le> file_rank (fs ! ?mid)" using ge arr [OF mid(3)] by (simp add: cmp_rank not_less)
      then show ?thesis using less.hyps [of ?mid low] less.prems mid ge True
        by (simp add: search_file_loop.simps [of files f low high] Let_def)
    qed
  next
    case False
    then have e: "high = low" using less.prems by simp
    then have "file_rank f \<le> file_rank (fs ! i)" if "low \<le> i" "i < n" for i
      using less.prems(4) mono [OF that] by simp
    moreover have "search_file_loop files f low high = low" by (simp add: search_file_loop.simps e)
    ultimately show ?thesis using less.prems len e by (simp add: splits_at_def)
  qed
qed

lemma search_file_ok:
  assumes ok: "level_ok this" and srt: "sorted (map file_rank (level_files this))"
  shows "splits_at file_rank (file_rank f) (level_files this) (bit_level_search_file this f)"
proof -
  let ?fs = "level_files this" and ?n = "lv_size this"
  have len: "length ?fs = ?n" using ok by simp
  have mono: "i \<le> j \<Longrightarrow> j < ?n \<Longrightarrow> file_rank (?fs ! i) \<le> file_rank (?fs ! j)" for i j
    using sorted_nth_mono [OF srt, of i j] len by simp
  consider "?n = 0" | "?n \<noteq> 0" "0 \<le> bit_file_cmp (lv_files this ! 0) f"
    | "?n \<noteq> 0" "\<not> 0 \<le> bit_file_cmp (lv_files this ! 0) f" "bit_file_cmp (lv_files this ! (?n - 1)) f \<le> 0"
    | "?n \<noteq> 0" "\<not> 0 \<le> bit_file_cmp (lv_files this ! 0) f" "\<not> bit_file_cmp (lv_files this ! (?n - 1)) f \<le> 0" by blast
  then show ?thesis
  proof cases
    case 1 then show ?thesis using len by (simp add: bit_level_search_file_def splits_at_def)
  next
    case 2
    have "file_rank f \<le> file_rank (?fs ! i)" if "i < ?n" for i
      using mono [of 0 i] that 2 by (simp add: cmp_rank_ge)
    then show ?thesis using 2 len by (simp add: bit_level_search_file_def splits_at_def)
  next
    case 3
    have "file_rank (?fs ! i) \<le> file_rank f" if "i < ?n" for i
    proof -
      have "i \<le> ?n - 1" "?n - 1 < ?n" using that by simp_all
      from mono [OF this] show ?thesis using 3 that by (simp add: cmp_rank)
    qed
    then show ?thesis using 3 len by (simp add: bit_level_search_file_def splits_at_def)
  next
    case 4
    then have "splits_at file_rank (file_rank f) ?fs (search_file_loop (lv_files this) f 0 (?n - 1))"
      by (intro search_file_loop_ok [OF srt len]) (simp_all add: cmp_rank not_le)
    then show ?thesis using 4 by (simp add: bit_level_search_file_def)
  qed
qed

lemma splits_at_insert:
  assumes srt: "sorted (map rank xs)" and sp: "splits_at rank (rank x) xs pos"
  shows "sorted (map rank (insert_nth pos x xs))"
proof -
  have l: "rank y \<le> rank x" if "y \<in> set (take pos xs)" for y
    using that sp by (auto simp: splits_at_def in_set_conv_nth)
  have r: "rank x \<le> rank y" if "y \<in> set (drop pos xs)" for y
    using that sp by (auto simp: splits_at_def in_set_conv_nth)
  have "sorted (map rank (take pos xs) @ map rank (drop pos xs))"
    using srt by (simp add: map_append [symmetric])
  then show ?thesis using l r by (auto simp: insert_nth_def sorted_append)
qed

lemma insert_array:
  assumes "pos \<le> n" "n < length xs"
  shows "take (Suc n) ((memmove (pos + 1) pos (n - pos) xs)[pos := x]) = insert_nth pos x (take n xs)"
proof -
  obtain k where n: "n = pos + k" using assms(1) le_Suc_ex by blast
  define a where "a = take pos xs"
  define b where "b = drop pos xs"
  have xs: "xs = a @ b" and a: "length a = pos" and b: "k < length b" using assms n by (simp_all add: a_def b_def)
  then obtain y b' where b': "b = y # b'" by (cases b) auto
  have "k \<le> Suc (length b')" using b b' by simp
  then show ?thesis using a b
    by (simp add: n xs b' memmove_def overwrite_def slice_def insert_nth_def list_update_append)
qed

lemma delete_array:
  assumes "pos < n" "n \<le> length xs"
  shows "take (n - 1) (memmove pos (pos + 1) (n - pos - 1) xs) = delete_nth pos (take n xs)"
proof -
  obtain k where n: "n = Suc (pos + k)" using assms(1) less_iff_Suc_add by blast
  define a where "a = take pos xs"
  define b where "b = drop pos xs"
  have xs: "xs = a @ b" and a: "length a = pos" and b: "k < length b" using assms n by (simp_all add: a_def b_def)
  then obtain y b' where b': "b = y # b'" by (cases b) auto
  then show ?thesis using a b by (simp add: n xs memmove_def overwrite_def slice_def delete_nth_def)
qed

lemma length_memmove: "dst + n \<le> length xs \<Longrightarrow> src + n \<le> length xs \<Longrightarrow> length (memmove dst src n xs) = length xs"
  by (simp add: memmove_def length_overwrite length_slice)

lemma add_file_ok:
  assumes ok: "level_ok this" and room: "lv_size this < lv_max_size this" and srt: "sorted (map file_rank (level_files this))"
  obtains this' pos where "bit_level_add_file this f = (Inr (), this')" "level_ok this'" "lv_level this' = lv_level this"
    "lv_capacity this' = lv_capacity this" "lv_max_size this' = lv_max_size this" "lv_size this' = Suc (lv_size this)"
    "level_files this' = insert_nth pos f (level_files this)" "splits_at file_rank (file_rank f) (level_files this) pos"
    "sorted (map file_rank (level_files this'))"
proof -
  define pos where "pos = bit_level_search_file this f"
  let ?n = "lv_size this" and ?xs = "lv_files this"
  have sp: "splits_at file_rank (file_rank f) (level_files this) pos" unfolding pos_def by (rule search_file_ok [OF ok srt])
  then have p: "pos \<le> ?n" using ok by (simp add: splits_at_def)
  have l: "length ?xs = lv_max_size this" using ok by (simp add: level_ok_def)
  let ?m = "if pos + 1 < lv_max_size this then memmove (pos + 1) pos (?n - pos) ?xs else ?xs"
  let ?t = "this\<lparr>lv_files := ?m[pos := f], lv_size := ?n + 1\<rparr>"
  have lm: "length ?m = lv_max_size this" using l p room by (simp add: length_memmove)
  have "take (Suc ?n) (?m[pos := f]) = insert_nth pos f (take ?n ?xs)"
  proof (cases "pos + 1 < lv_max_size this")
    case True
    then show ?thesis using insert_array [of pos ?n ?xs f] p room l by simp
  next
    case False
    then have "pos = ?n" using p room by simp
    have "take (Suc ?n) (?xs[?n := f]) = take ?n ?xs @ [f]" using room l by (subst take_Suc_conv_app_nth) simp_all
    then show ?thesis using False \<open>pos = ?n\<close> by (simp add: insert_nth_def)
  qed
  then have fs: "level_files ?t = insert_nth pos f (level_files this)" by (simp add: level_files_def)
  show ?thesis
  proof (rule that [of ?t pos])
    show "bit_level_add_file this f = (Inr (), ?t)" using room by (simp add: bit_level_add_file_def pos_def Let_def)
    show "level_ok ?t" using lm room by (simp add: level_ok_def)
    show "sorted (map file_rank (level_files ?t))" unfolding fs by (rule splits_at_insert [OF srt sp])
  qed (use fs sp in simp_all)
qed

lemma remove_file_ok:
  assumes ok: "level_ok this" and pos: "pos < lv_size this" and id: "bf_id (lv_files this ! pos) = fid"
    and first: "\<And>i. i < pos \<Longrightarrow> bf_id (lv_files this ! i) \<noteq> fid"
  obtains this' where "bit_level_remove_file this fid = (Inr (), this')" "level_ok this'" "lv_level this' = lv_level this"
    "lv_capacity this' = lv_capacity this" "lv_max_size this' = lv_max_size this" "lv_size this' = lv_size this - 1"
    "level_files this' = delete_nth pos (level_files this)"
proof -
  let ?n = "lv_size this" and ?xs = "lv_files this"
  have l: "?n \<le> lv_max_size this" "length ?xs = lv_max_size this" using ok by (simp_all add: level_ok_def)
  have f: "find (\<lambda>p. bf_id (?xs ! p) = fid) [0..<?n] = Some pos"
    using pos id first by (auto simp: find_Some_iff)
  let ?t = "this\<lparr>lv_files := memmove pos (pos + 1) (?n - pos - 1) ?xs, lv_size := ?n - 1\<rparr>"
  show ?thesis
  proof (rule that [of ?t])
    show "bit_level_remove_file this fid = (Inr (), ?t)" using f by (simp add: bit_level_remove_file_def)
    have "length (memmove pos (pos + 1) (?n - pos - 1) ?xs) = length ?xs" using pos l by (intro length_memmove) auto
    then show "level_ok ?t" using l by (simp add: level_ok_def)
    show "level_files ?t = delete_nth pos (level_files this)"
      using delete_array [OF pos, of ?xs] l by (simp add: level_files_def)
  qed simp_all
qed

section \<open>Files that overlap a range\<close>

text \<open>Files of a deeper level: their key ranges follow one another.\<close>

definition disjoint_files :: "bit_file list \<Rightarrow> bool" where
  "disjoint_files fs \<longleftrightarrow> sorted_wrt (\<lambda>f g. bf_last_key f < bf_first_key g) fs \<and> (\<forall>f \<in> set fs. bf_first_key f \<le> bf_last_key f)"

lemma disjoint_files_nth:
  "disjoint_files fs \<Longrightarrow> i < j \<Longrightarrow> j < length fs \<Longrightarrow> bf_last_key (fs ! i) < bf_first_key (fs ! j)"
  "disjoint_files fs \<Longrightarrow> i < length fs \<Longrightarrow> bf_first_key (fs ! i) \<le> bf_last_key (fs ! i)"
  by (simp_all add: disjoint_files_def sorted_wrt_iff_nth_less)

lemma disjoint_sorted:
  assumes "disjoint_files fs"
  shows "sorted (map file_rank fs)"
proof -
  have "file_rank (fs ! i) \<le> file_rank (fs ! j)" if "i < j" "j < length fs" for i j
  proof -
    have "bf_first_key (fs ! i) < bf_first_key (fs ! j)"
      using disjoint_files_nth(1) [OF assms that] disjoint_files_nth(2) [OF assms, of i] that by simp
    then show ?thesis using rank_less by (simp add: less_imp_le)
  qed
  then show ?thesis by (simp add: sorted_wrt_iff_nth_less)
qed

lemma lower_bound_loop_ok:
  assumes dj: "disjoint_files fs" and arr: "\<And>i. i < length fs \<Longrightarrow> files ! i = fs ! i"
  shows "0 \<le> low \<Longrightarrow> low \<le> int (length fs) \<Longrightarrow> high < int (length fs) \<Longrightarrow> \<forall>i < nat low. bf_last_key (fs ! i) < key \<Longrightarrow>
    0 \<le> lower_bound_loop files key low high \<and> lower_bound_loop files key low high \<le> int (length fs) \<and>
    (\<forall>i < nat (lower_bound_loop files key low high). bf_last_key (fs ! i) < key)"
proof (induction "nat (high - low)" arbitrary: low high rule: less_induct)
  case less
  show ?case
  proof (cases "low < high")
    case True
    define mid where "mid = low + (high - low) div 2"
    have mid: "low \<le> mid" "mid < high" "nat mid < length fs" using True less.prems by (auto simp: mid_def)
    let ?f = "fs ! nat mid"
    have before: "bf_last_key (fs ! i) < bf_first_key ?f" if "i < nat mid" for i
      using disjoint_files_nth(1) [OF dj that mid(3)] .
    have unf: "lower_bound_loop files key low high =
        (if bf_first_key ?f \<le> key \<and> key \<le> bf_last_key ?f then mid
         else if key < bf_first_key ?f then lower_bound_loop files key low (mid - 1) else lower_bound_loop files key (mid + 1) high)"
      by (simp only: lower_bound_loop.simps [of files key low high] True if_True Let_def mid_def [symmetric] arr [OF mid(3)])
    consider "bf_first_key ?f \<le> key" "key \<le> bf_last_key ?f" | "key < bf_first_key ?f" | "bf_last_key ?f < key" "\<not> key < bf_first_key ?f"
      by fastforce
    then show ?thesis
    proof cases
      case 1
      then have "\<forall>i < nat mid. bf_last_key (fs ! i) < key" using before by force
      moreover have "lower_bound_loop files key low high = mid" using 1 by (simp only: unf if_True simp_thms)
      ultimately show ?thesis using mid less.prems by simp
    next
      case 2
      then have e: "lower_bound_loop files key low high = lower_bound_loop files key low (mid - 1)" 
        unfolding unf by (subst if_not_P) (auto simp: not_le)
      show ?thesis unfolding e by (rule less.hyps) (use mid less.prems in simp_all)
    next
      case 3
      have "bf_last_key (fs ! i) < key" if "i < nat (mid + 1)" for i
      proof (cases "i = nat mid")
        case False
        then have "i < nat mid" using that mid(1) less.prems(1) by linarith
        from before [OF this] show ?thesis using 3 by simp
      qed (use 3 in simp)
      then have b: "\<forall>i < nat (mid + 1). bf_last_key (fs ! i) < key" by blast
      have e: "lower_bound_loop files key low high = lower_bound_loop files key (mid + 1) high"
        using 3 by (simp only: unf not_le [symmetric] if_False simp_thms)
      show ?thesis unfolding e by (rule less.hyps [OF _ _ _ _ b]) (use mid less.prems in simp_all)
    qed
  qed (use less.prems in \<open>simp add: lower_bound_loop.simps [of files key low high]\<close>)
qed

lemma lower_bound_ok:
  assumes ok: "level_ok this" and dj: "disjoint_files (level_files this)" and n: "0 < lv_size this"
  shows "0 \<le> bit_level_lower_bound this key" "bit_level_lower_bound this key \<le> int (lv_size this)"
    "i < nat (bit_level_lower_bound this key) \<Longrightarrow> bf_last_key (level_files this ! i) < key"
proof -
  let ?fs = "level_files this" and ?b = "bit_level_lower_bound this key"
  have l: "length ?fs = lv_size this" using ok by simp
  have "0 \<le> ?b \<and> ?b \<le> int (length ?fs) \<and> (\<forall>i < nat ?b. bf_last_key (?fs ! i) < key)"
  proof (cases "key < bf_first_key (lv_files this ! 0)")
    case False
    show ?thesis
    proof (cases "bf_last_key (lv_files this ! (lv_size this - 1)) < key")
      case True
      have "bf_last_key (?fs ! i) < key" if "i < lv_size this" for i
      proof (cases "i = lv_size this - 1")
        case False
        then have j: "i < lv_size this - 1" "lv_size this - 1 < length ?fs" using that l by simp_all
        have "bf_last_key (?fs ! i) < bf_last_key (?fs ! (lv_size this - 1))"
          using disjoint_files_nth(1) [OF dj j] disjoint_files_nth(2) [OF dj j(2)] by simp
        then show ?thesis using True n by simp
      qed (use True that in simp)
      moreover have "?b = int (lv_size this)" using True False n by (simp add: bit_level_lower_bound_def nat_diff_distrib)
      ultimately show ?thesis using l by simp
    next
      case False2: False
      have "?b = lower_bound_loop (lv_files this) key 0 (int (lv_size this) - 1)"
        using False False2 n by (simp add: bit_level_lower_bound_def nat_diff_distrib)
      then show ?thesis
        using lower_bound_loop_ok [OF dj, of "lv_files this" 0 "int (lv_size this) - 1" key] l n by simp
    qed
  qed (simp add: bit_level_lower_bound_def)
  then show "0 \<le> ?b" "?b \<le> int (lv_size this)" "i < nat ?b \<Longrightarrow> bf_last_key (?fs ! i) < key" using l by simp_all
qed

lemma relatives_loop_takeWhile:
  "level_ok this \<Longrightarrow> relatives_loop this lkey pos = takeWhile (\<lambda>f. bf_first_key f \<le> lkey) (drop pos (level_files this))"
proof (induction this lkey pos rule: relatives_loop.induct)
  case (1 this lkey pos)
  show ?case
  proof (cases "pos < lv_size this")
    case True
    have "drop pos (level_files this) = lv_files this ! pos # drop (pos + 1) (level_files this)"
      using True 1(2) by (simp add: Cons_nth_drop_Suc [symmetric])
    then show ?thesis using 1 True by (simp add: relatives_loop.simps [of this lkey pos])
  qed (use 1(2) in \<open>simp add: relatives_loop.simps [of this lkey pos]\<close>)
qed

lemma files_range_bounds:
  assumes "f \<in> set files"
  shows "fst (files_range files) \<le> bf_first_key f" "bf_last_key f \<le> snd (files_range files)"
proof -
  let ?F = "\<lambda>(fkey, lkey) f. (min fkey (bf_first_key f), max lkey (bf_last_key f))"
  have m: "fst (foldl ?F a xs) \<le> fst a \<and> snd a \<le> snd (foldl ?F a xs)" for a :: "u32 \<times> u32" and xs
  proof (induction xs arbitrary: a)
    case (Cons x xs)
    obtain p q where a: "a = (p, q)" by (cases a)
    show ?case using Cons [of "(min p (bf_first_key x), max q (bf_last_key x))"] by (simp add: a)
  qed simp
  have "f \<in> set xs \<Longrightarrow> fst (foldl ?F a xs) \<le> bf_first_key f \<and> bf_last_key f \<le> snd (foldl ?F a xs)" for a :: "u32 \<times> u32" and xs
  proof (induction xs arbitrary: a)
    case (Cons x xs)
    obtain p q where a: "a = (p, q)" by (cases a)
    show ?case
    proof (cases "f = x")
      case True
      then show ?thesis using m [of "(min p (bf_first_key x), max q (bf_last_key x))" xs] by (simp add: a)
    qed (use Cons in simp)
  qed simp
  from this [OF assms, of "(0xffffffff, 0)"] show "fst (files_range files) \<le> bf_first_key f" "bf_last_key f \<le> snd (files_range files)"
    by (simp_all add: files_range_def)
qed

lemma relatives_split:
  assumes ok: "level_ok this" and dj: "disjoint_files (level_files this)"
  obtains before after where "level_files this = before @ bit_level_find_relative_files this files @ after"
    "\<And>f. f \<in> set before \<Longrightarrow> bf_last_key f < fst (files_range files)"
    "\<And>f. f \<in> set after \<Longrightarrow> snd (files_range files) < bf_first_key f"
proof -
  let ?fs = "level_files this" and ?r = "bit_level_find_relative_files this files"
  obtain fkey lkey where rg: "files_range files = (fkey, lkey)" by fastforce
  have l: "length ?fs = lv_size this" using ok by simp
  have nth: "\<exists>i < length ?fs. f = ?fs ! i" if "f \<in> set ?fs" for f using that by (metis in_set_conv_nth)
  consider "lv_size this = 0" | "lv_size this \<noteq> 0" "lkey < bit_level_get_first_key this"
    | "lv_size this \<noteq> 0" "\<not> lkey < bit_level_get_first_key this" "bit_level_get_last_key this < fkey"
    | "lv_size this \<noteq> 0" "\<not> lkey < bit_level_get_first_key this" "\<not> bit_level_get_last_key this < fkey" by blast
  then show ?thesis
  proof cases
    case 1 then show ?thesis using l that [of "[]" "[]"] by (simp add: bit_level_find_relative_files_def)
  next
    case 2
    have "lkey < bf_first_key f" if f: "f \<in> set ?fs" for f
    proof -
      obtain i where i: "i < length ?fs" "f = ?fs ! i" using nth [OF f] by blast
      then have "bf_first_key (?fs ! 0) \<le> bf_first_key (?fs ! i)"
        using disjoint_files_nth(1) [OF dj, of 0 i] disjoint_files_nth(2) [OF dj, of 0] by (cases "i = 0") force+
      then show ?thesis using 2 i l by (simp add: bit_level_get_first_key_def)
    qed
    then show ?thesis using 2 that [of "[]" ?fs] rg by (simp add: bit_level_find_relative_files_def)
  next
    case 3
    have "bf_last_key f < fkey" if f: "f \<in> set ?fs" for f
    proof -
      obtain i where i: "i < length ?fs" "f = ?fs ! i" using nth [OF f] by blast
      have j: "lv_size this - 1 < length ?fs" using 3(1) l by simp
      have "bf_last_key (?fs ! i) \<le> bf_last_key (?fs ! (lv_size this - 1))"
      proof (cases "i = lv_size this - 1")
        case False
        then have "i < lv_size this - 1" using i l by simp
        from disjoint_files_nth(1) [OF dj this j] disjoint_files_nth(2) [OF dj j] show ?thesis by simp
      qed simp
      then show ?thesis using 3 i j by (simp add: bit_level_get_last_key_def)
    qed
    then show ?thesis using 3 that [of ?fs "[]"] rg by (simp add: bit_level_find_relative_files_def)
  next
    case 4
    define pos where "pos = nat (bit_level_lower_bound this fkey)"
    have n: "0 < lv_size this" using 4 by simp
    have r: "?r = takeWhile (\<lambda>f. bf_first_key f \<le> lkey) (drop pos ?fs)"
      using 4 rg by (simp add: bit_level_find_relative_files_def pos_def relatives_loop_takeWhile [OF ok])
    let ?after = "dropWhile (\<lambda>f. bf_first_key f \<le> lkey) (drop pos ?fs)"
    have "bf_last_key f < fkey" if "f \<in> set (take pos ?fs)" for f
      using that lower_bound_ok(3) [OF ok dj n, of _ fkey] by (auto simp: in_set_conv_nth pos_def)
    moreover have "lkey < bf_first_key f" if f: "f \<in> set ?after" for f
    proof -
      have ne: "?after \<noteq> []" using f by (metis empty_iff list.set(1))
      have hd: "\<not> bf_first_key (hd ?after) \<le> lkey" using hd_dropWhile [OF ne] .
      have dj': "disjoint_files ?after"
        using dj by (auto simp: disjoint_files_def dest: set_dropWhileD in_set_dropD
            intro: sorted_wrt_dropWhile sorted_wrt_drop)
      obtain i where i: "i < length ?after" "f = ?after ! i" using f by (metis in_set_conv_nth)
      have "bf_first_key (hd ?after) \<le> bf_first_key f"
        using disjoint_files_nth(1) [OF dj', of 0 i] disjoint_files_nth(2) [OF dj', of 0] i ne
        by (cases "i = 0") (force simp: hd_conv_nth)+
      then show ?thesis using hd by simp
    qed
    ultimately show ?thesis using that [of "take pos ?fs" ?after] rg by (simp add: r)
  qed
qed

section \<open>Searching a level\<close>

text \<open>What a file finds: the map of the records in its search tree.\<close>

type_synonym file_content = "(nat \<times> nat) \<times> bit_tree \<times> (bit_pointer \<times> bit_leaf) list \<times> (u32 \<times> index_record) list"

definition file_view :: "aead \<Rightarrow> bfile \<Rightarrow> bit_file \<Rightarrow> file_content \<Rightarrow> bool" where
  "file_view c g f w \<longleftrightarrow> aead_ok c \<and> (case w of ((lo, hi), t, tls, es) \<Rightarrow> bit_file_holds c g lo hi f t tls es)"

definition view_map :: "file_content \<Rightarrow> u32 \<rightharpoonup> index_record" where
  "view_map w = map_of (leaves_recs (bt_leaves (fst (snd w))))"

definition found :: "'a option \<Rightarrow> 'a result" where
  "found x = (case x of None \<Rightarrow> Inl ENODATA | Some v \<Rightarrow> Inr v)"

definition same_file :: "bit_file \<Rightarrow> bit_file \<Rightarrow> bool" where
  "same_file f f' \<longleftrightarrow> f'\<lparr>cached_leaf := cached_leaf f\<rparr> = f"

lemma same_file_fields:
  assumes "same_file f f'"
  shows "bf_id f' = bf_id f" "bf_version f' = bf_version f" "bf_first_key f' = bf_first_key f" "bf_last_key f' = bf_last_key f"
    "bf_level f' = bf_level f" "bit_file_get_stats f' = bit_file_get_stats f" "file_rank f' = file_rank f"
proof -
  have f: "f = f'\<lparr>cached_leaf := cached_leaf f\<rparr>" using assms by (simp add: same_file_def)
  show "bf_id f' = bf_id f" "bf_version f' = bf_version f" "bf_first_key f' = bf_first_key f" "bf_last_key f' = bf_last_key f"
    "bf_level f' = bf_level f" "bit_file_get_stats f' = bit_file_get_stats f" "file_rank f' = file_rank f"
    by (subst f, simp add: bit_file_get_stats_def file_rank_def)+
qed

lemma file_view_search:
  assumes "file_view c g f w"
  shows "\<exists>f'. bit_file_search c g f key = Some (found (view_map w key), f') \<and> file_view c g f' w \<and> same_file f f'"
proof -
  obtain lo hi t tls es where w: "w = ((lo, hi), t, tls, es)" by (metis prod.collapse)
  have h: "bit_file_holds c g lo hi f t tls es" and c: "aead_ok c" using assms by (auto simp: file_view_def w)
  obtain f' where f': "bit_file_search c g f key = Some (case view_map w key of None \<Rightarrow> Inl ENODATA | Some x \<Rightarrow> Inr x, f')"
    "bit_file_holds c g lo hi f' t tls es" "f'\<lparr>cached_leaf := cached_leaf f\<rparr> = f"
    by (rule bit_file_holds_cached [OF c h, of key]) (simp add: view_map_def w that)
  then show ?thesis using c by (auto simp: same_file_def found_def file_view_def w)
qed

lemma file_view_range:
  assumes "file_view c g f w" "view_map w k = Some v"
  shows "bf_first_key f \<le> k" "k \<le> bf_last_key f"
proof -
  obtain lo hi t tls es where w: "w = ((lo, hi), t, tls, es)" by (metis prod.collapse)
  have h: "bit_file_holds c g lo hi f t tls es" using assms by (auto simp: file_view_def w)
  have es: "es = leaves_recs (bt_leaves t) @ leaves_recs tls" "sorted_wrt (<) (map fst es)"
    "bf_first_key f = fst (hd es)" "bf_last_key f = fst (last es)" using h by (auto simp: bit_file_holds_def)
  have k: "(k, v) \<in> set es" using map_of_SomeD [of "leaves_recs (bt_leaves t)" k v] assms(2) by (simp add: view_map_def w es(1))
  then obtain i where i: "i < length es" "es ! i = (k, v)" by (metis in_set_conv_nth)
  have ne: "es \<noteq> []" using k by auto
  have srt: "fst (es ! i) < fst (es ! j)" if "i < j" "j < length es" for i j
    using es(2) that by (simp add: sorted_wrt_iff_nth_less)
  show "bf_first_key f \<le> k" using srt [of 0 i] i ne es(3) by (cases "i = 0") (auto simp: hd_conv_nth)
  show "k \<le> bf_last_key f"
  proof (cases "i = length es - 1")
    case False
    then have "i < length es - 1" "length es - 1 < length es" using i(1) by simp_all
    from srt [OF this] show ?thesis using i ne es(4) by (simp add: last_conv_nth)
  qed (use i ne es(4) in \<open>simp add: last_conv_nth\<close>)
qed

text \<open>The files with their versions and what they find, put together in the order of their
  versions.\<close>

definition newest :: "(nat \<times> ('k \<rightharpoonup> 'v)) list \<Rightarrow> 'k \<rightharpoonup> 'v" where
  "newest ps = foldl (++) Map.empty (map snd (sort_key fst ps))"

lemma map_add_at: "(m ++ n) k = (case n k of None \<Rightarrow> m k | Some x \<Rightarrow> Some x)"
  by (simp add: map_add_def)

lemma foldl_newest:
  "sorted_wrt (<) (map fst qs) \<Longrightarrow> foldl (++) Map.empty (map snd qs) k = Some v \<longleftrightarrow>
     (\<exists>p \<in> set qs. snd p k = Some v \<and> (\<forall>p' \<in> set qs. snd p' k \<noteq> None \<longrightarrow> fst p' \<le> fst p))" for qs :: "(nat \<times> ('k \<rightharpoonup> 'v)) list"
proof (induction qs rule: rev_induct)
  case (snoc q qs)
  have lt: "fst p < fst q" if "p \<in> set qs" for p using snoc.prems that by (auto simp: sorted_wrt_append)
  have IH: "foldl (++) Map.empty (map snd qs) k = Some v \<longleftrightarrow>
     (\<exists>p \<in> set qs. snd p k = Some v \<and> (\<forall>p' \<in> set qs. snd p' k \<noteq> None \<longrightarrow> fst p' \<le> fst p))"
    using snoc by (simp add: sorted_wrt_append)
  have e: "foldl (++) Map.empty (map snd (qs @ [q])) k = (case snd q k of None \<Rightarrow> foldl (++) Map.empty (map snd qs) k | Some x \<Rightarrow> Some x)"
    using map_add_at [of "foldl (++) Map.empty (map snd qs)" "snd q" k] by simp
  show ?case
  proof (cases "snd q k")
    case None
    then show ?thesis using IH unfolding e by auto
  next
    case (Some w)
    have "\<not> (snd p k = Some v \<and> (\<forall>p' \<in> set (qs @ [q]). snd p' k \<noteq> None \<longrightarrow> fst p' \<le> fst p))" if "p \<in> set qs" for p
      using lt [OF that] Some by auto
    moreover have "\<forall>p' \<in> set (qs @ [q]). snd p' k \<noteq> None \<longrightarrow> fst p' \<le> fst q" using lt less_imp_le by fastforce
    ultimately have "(\<exists>p \<in> set (qs @ [q]). snd p k = Some v \<and> (\<forall>p' \<in> set (qs @ [q]). snd p' k \<noteq> None \<longrightarrow> fst p' \<le> fst p)) \<longleftrightarrow> snd q k = Some v"
      unfolding set_append list.set by blast
    then show ?thesis unfolding e by (simp add: Some)
  qed
qed simp

lemma newest_iff:
  assumes "distinct (map fst ps)"
  shows "newest ps k = Some v \<longleftrightarrow> (\<exists>p \<in> set ps. snd p k = Some v \<and> (\<forall>p' \<in> set ps. snd p' k \<noteq> None \<longrightarrow> fst p' \<le> fst p))"
proof -
  have "distinct (map fst (sort_key fst ps))" using assms by (metis distinct_map distinct_sort set_sort)
  then have "sorted_wrt (<) (map fst (sort_key fst ps))" by (simp add: strict_sorted_iff)
  from foldl_newest [OF this] show ?thesis by (simp add: newest_def)
qed

lemma newest_None: "newest ps k = None \<longleftrightarrow> (\<forall>p \<in> set ps. snd p k = None)" for ps :: "(nat \<times> ('k \<rightharpoonup> 'v)) list"
proof -
  have "foldl (++) Map.empty (map snd qs) k = None \<longleftrightarrow> (\<forall>p \<in> set qs. snd p k = None)" for qs :: "(nat \<times> ('k \<rightharpoonup> 'v)) list" and k
  proof (induction qs rule: rev_induct)
    case (snoc q qs)
    then show ?case using map_add_at [of "foldl (++) Map.empty (map snd qs)" "snd q" k] by (simp split: option.splits)
  qed simp
  then show ?thesis by (simp add: newest_def)
qed

lemma newest_SomeD: "newest ps k = Some v \<Longrightarrow> \<exists>p \<in> set ps. snd p k = Some v" for ps :: "(nat \<times> ('k \<rightharpoonup> 'v)) list"
proof -
  have "foldl (++) Map.empty (map snd qs) k = Some v \<Longrightarrow> \<exists>p \<in> set qs. snd p k = Some v" for qs :: "(nat \<times> ('k \<rightharpoonup> 'v)) list" and k v
  proof (induction qs rule: rev_induct)
    case (snoc q qs)
    then show ?case using map_add_at [of "foldl (++) Map.empty (map snd qs)" "snd q" k] by (auto split: option.splits)
  qed simp
  then show "newest ps k = Some v \<Longrightarrow> \<exists>p \<in> set ps. snd p k = Some v" by (fastforce simp: newest_def)
qed

lemma newest_unique:
  assumes "\<And>p. p \<in> set ps \<Longrightarrow> snd p k \<noteq> None \<Longrightarrow> snd p k = Some v" "p \<in> set ps" "snd p k = Some v"
  shows "newest ps k = Some v"
proof -
  have "newest ps k \<noteq> None" using assms(2,3) by (auto simp: newest_None)
  then obtain w where w: "newest ps k = Some w" by blast
  then obtain q where "q \<in> set ps" "snd q k = Some w" using newest_SomeD by fastforce
  then show ?thesis using assms(1) [of q] w by simp
qed

definition level_view :: "(bit_file \<Rightarrow> 'w \<Rightarrow> bool) \<Rightarrow> bit_level \<Rightarrow> 'w list \<Rightarrow> bool" where
  "level_view V this ws \<longleftrightarrow> list_all2 V (level_files this) ws"

definition level_versions :: "bit_level \<Rightarrow> nat list" where
  "level_versions this = map bf_version (level_files this)"

text \<open>A level after a search: only cached leaves have changed.\<close>

definition same_level :: "bit_level \<Rightarrow> bit_level \<Rightarrow> bool" where
  "same_level this this' \<longleftrightarrow> level_ok this' \<and> lv_level this' = lv_level this \<and> lv_capacity this' = lv_capacity this \<and>
     lv_size this' = lv_size this \<and> lv_max_size this' = lv_max_size this \<and> list_all2 same_file (level_files this) (level_files this')"

lemma same_file_refl [simp]: "same_file f f"
  by (simp add: same_file_def)

lemma same_file_trans: "same_file f f' \<Longrightarrow> same_file f' f'' \<Longrightarrow> same_file f f''"
proof -
  assume a: "same_file f f'" "same_file f' f''"
  have "f''\<lparr>cached_leaf := cached_leaf f\<rparr> = f''\<lparr>cached_leaf := cached_leaf f'\<rparr>\<lparr>cached_leaf := cached_leaf f\<rparr>" by simp
  also have "\<dots> = f" using a by (simp add: same_file_def)
  finally show ?thesis by (simp add: same_file_def)
qed

lemma same_level_refl: "level_ok this \<Longrightarrow> same_level this this"
  by (simp add: same_level_def list_all2_refl)

lemma same_level_trans: "same_level a b \<Longrightarrow> same_level b c \<Longrightarrow> same_level a c"
  using list_all2_trans [of same_file same_file same_file "level_files a" "level_files b" "level_files c"] same_file_trans
  by (auto simp: same_level_def)

lemma same_level_facts:
  assumes "same_level this this'"
  shows "level_ok this'" "lv_level this' = lv_level this" "lv_size this' = lv_size this" "level_versions this' = level_versions this"
    "disjoint_files (level_files this') \<longleftrightarrow> disjoint_files (level_files this)"
    "map file_rank (level_files this') = map file_rank (level_files this)" "map bf_id (level_files this') = map bf_id (level_files this)"
proof -
  let ?a = "level_files this" and ?b = "level_files this'"
  have s: "list_all2 same_file ?a ?b" and l: "length ?b = length ?a" using assms by (auto simp: same_level_def list_all2_lengthD)
  have n: "same_file (?a ! i) (?b ! i)" if "i < length ?a" for i using s that by (simp add: list_all2_conv_all_nth)
  show "level_ok this'" "lv_level this' = lv_level this" "lv_size this' = lv_size this" using assms by (simp_all add: same_level_def)
  show "level_versions this' = level_versions this" "map file_rank ?b = map file_rank ?a" "map bf_id ?b = map bf_id ?a"
    using same_file_fields [OF n] l by (auto simp: level_versions_def intro!: nth_equalityI)
  show "disjoint_files ?b \<longleftrightarrow> disjoint_files ?a"
    using same_file_fields [OF n] l by (auto simp: disjoint_files_def sorted_wrt_iff_nth_less all_set_conv_all_nth)
qed

text \<open>The state of the search of level 0: the best hit among the files searched so far.\<close>

definition best_hit :: "nat list \<Rightarrow> (nat \<Rightarrow> 'k \<rightharpoonup> 'v) \<Rightarrow> 'k \<Rightarrow> nat \<Rightarrow> nat \<Rightarrow> 'v result \<Rightarrow> bool" where
  "best_hit vers m key i cv fnd \<longleftrightarrow>
     (fnd = Inl ENODATA \<and> cv = 0 \<and> (\<forall>j < i. m j key = None)) \<or>
     (\<exists>j < i. \<exists>v. m j key = Some v \<and> fnd = Inr v \<and> cv = vers ! j \<and> (\<forall>j' < i. m j' key \<noteq> None \<longrightarrow> vers ! j' \<le> cv))"

lemma best_hit_skip: "best_hit vers m key i cv fnd \<Longrightarrow> m i key = None \<or> vers ! i < cv \<Longrightarrow> best_hit vers m key (Suc i) cv fnd"
  by (auto simp: best_hit_def less_Suc_eq)

lemma best_hit_take: "best_hit vers m key i cv fnd \<Longrightarrow> m i key = Some v \<Longrightarrow> cv \<le> vers ! i \<Longrightarrow> best_hit vers m key (Suc i) (vers ! i) (Inr v)"
  by (fastforce simp: best_hit_def less_Suc_eq)

lemma best_hit_cong: "(\<And>j. j < i \<Longrightarrow> m j = m' j) \<Longrightarrow> best_hit vers m key i cv fnd \<Longrightarrow> best_hit vers m' key i cv fnd"
  by (auto simp: best_hit_def)

lemma best_hit_newest:
  assumes "best_hit vers (\<lambda>j. ms ! j) key n cv fnd" "length vers = n" "length ms = n" "distinct vers"
  shows "fnd = found (newest (zip vers ms) key)"
proof -
  have "(\<forall>j < n. (ms ! j) key = None) \<Longrightarrow> newest (zip vers ms) key = None"
    using assms(2,3) by (auto simp: newest_None set_zip)
  moreover have "newest (zip vers ms) key = Some v"
    if "j < n" "(ms ! j) key = Some v" "\<forall>j' < n. (ms ! j') key \<noteq> None \<longrightarrow> vers ! j' \<le> vers ! j" for j v
  proof -
    have "distinct (map fst (zip vers ms))" using assms(2-4) by simp
    moreover have "(vers ! j, ms ! j) \<in> set (zip vers ms)" using that(1) assms(2,3) by (auto simp: set_zip)
    moreover have "\<forall>p' \<in> set (zip vers ms). snd p' key \<noteq> None \<longrightarrow> fst p' \<le> fst (vers ! j, ms ! j)"
      using that(3) assms(2,3) by (auto simp: set_zip)
    ultimately show ?thesis using that(2) unfolding newest_iff [OF \<open>distinct (map fst (zip vers ms))\<close>] by (intro bexI [of _ "(vers ! j, ms ! j)"]) simp_all
  qed
  ultimately show ?thesis using assms(1) by (auto simp: best_hit_def found_def)
qed

lemma cmp_key_mono:
  assumes "disjoint_files (level_files this)" "level_ok this" "i < j" "j < lv_size this" "bit_file_cmp_key key (lv_files this ! i) \<le> 0"
  shows "bit_file_cmp_key key (lv_files this ! j) < 0"
proof -
  have "bf_last_key (lv_files this ! i) < bf_first_key (lv_files this ! j)"
    using disjoint_files_nth(1) [OF assms(1,3)] assms(2-4) by simp
  moreover have "key \<le> bf_last_key (lv_files this ! i)"
    using assms(5) disjoint_files_nth(2) [OF assms(1), of i] assms(2-4) by (auto simp: bit_file_cmp_key_def split: if_splits)
  ultimately show ?thesis by (auto simp: bit_file_cmp_key_def)
qed

text \<open>What the search of a level relies on: a file that holds \<open>w\<close> finds the entries of \<open>content w\<close>, which lie in
  its key range, and still holds \<open>w\<close> afterwards.\<close>

locale file_search =
  fixes c :: aead and g :: bfile and V :: "bit_file \<Rightarrow> 'w \<Rightarrow> bool" and content :: "'w \<Rightarrow> u32 \<rightharpoonup> index_record"
  assumes view_search: "V f w \<Longrightarrow> \<exists>f'. bit_file_search c g f key = Some (found (content w key), f') \<and> V f' w \<and> same_file f f'"
    and view_range: "V f w \<Longrightarrow> content w k = Some v \<Longrightarrow> bf_first_key f \<le> k \<and> k \<le> bf_last_key f"
begin

lemma level_file_step:
  assumes ok: "level_ok this" and v: "level_view V this ws" and i: "i < lv_size this"
  obtains f' where "bit_file_search c g (lv_files this ! i) key = Some (found (content (ws ! i) key), f')"
    "same_level this (this\<lparr>lv_files := (lv_files this)[i := f']\<rparr>)" "level_view V (this\<lparr>lv_files := (lv_files this)[i := f']\<rparr>) ws"
proof -
  have l: "i < length (level_files this)" using ok i by simp
  have fv: "V (lv_files this ! i) (ws ! i)"
    using v i ok by (auto simp: level_view_def list_all2_conv_all_nth)
  obtain f' where f': "bit_file_search c g (lv_files this ! i) key = Some (found (content (ws ! i) key), f')" "V f' (ws ! i)"
    "same_file (lv_files this ! i) f'" using view_search [OF fv] by blast
  let ?t = "this\<lparr>lv_files := (lv_files this)[i := f']\<rparr>"
  have fs: "level_files ?t = (level_files this)[i := f']" by (simp add: level_files_def take_update_swap)
  have "level_ok ?t" using ok by (simp add: level_ok_def)
  moreover have "list_all2 same_file (level_files this) (level_files ?t)"
    using l f'(3) i by (auto simp: fs list_all2_conv_all_nth nth_list_update)
  ultimately have "same_level this ?t" by (simp add: same_level_def)
  moreover have "level_view V ?t ws"
    using v f'(2) l by (auto simp: level_view_def fs list_all2_conv_all_nth nth_list_update)
  ultimately show ?thesis using f'(1) by (intro that [of f'])
qed

lemma linear_search_loop_ok:
  "i \<le> lv_size this \<Longrightarrow> level_ok this \<Longrightarrow> level_view V this ws \<Longrightarrow> best_hit (level_versions this) (\<lambda>j. content (ws ! j)) key i cv fnd \<Longrightarrow>
    \<exists>fnd' cv' this'. linear_search_loop c g key [i..<lv_size this] cv fnd this = Some (fnd', this') \<and>
      best_hit (level_versions this) (\<lambda>j. content (ws ! j)) key (lv_size this) cv' fnd' \<and> same_level this this' \<and> level_view V this' ws"
proof (induction "lv_size this - i" arbitrary: i this cv fnd)
  case 0
  then show ?case using same_level_refl by auto
next
  case (Suc n)
  then have i: "i < lv_size this" by simp
  then have up: "[i..<lv_size this] = i # [Suc i..<lv_size this]" by (rule upt_conv_Cons)
  have ver: "bf_version (lv_files this ! i) = level_versions this ! i" using i Suc.prems(2) by (simp add: level_versions_def)
  note hyp = Suc.hyps(1) [of _ "Suc i"]
  show ?case
  proof (cases "level_versions this ! i < cv")
    case True
    have "best_hit (level_versions this) (\<lambda>j. content (ws ! j)) key (Suc i) cv fnd" using best_hit_skip [OF Suc.prems(4)] True by simp
    then show ?thesis using hyp [of this cv fnd] Suc.hyps(2) Suc.prems i True by (simp add: up ver)
  next
    case False
    obtain f' where f': "bit_file_search c g (lv_files this ! i) key = Some (found (content (ws ! i) key), f')"
      "same_level this (this\<lparr>lv_files := (lv_files this)[i := f']\<rparr>)" "level_view V (this\<lparr>lv_files := (lv_files this)[i := f']\<rparr>) ws"
      by (rule level_file_step [OF Suc.prems(2,3) i]) (rule that)
    let ?t = "this\<lparr>lv_files := (lv_files this)[i := f']\<rparr>"
    note S = same_level_facts [OF f'(2)]
    obtain cv1 fnd1 where b: "best_hit (level_versions ?t) (\<lambda>j. content (ws ! j)) key (Suc i) cv1 fnd1"
      "linear_search_loop c g key [i..<lv_size this] cv fnd this = linear_search_loop c g key [Suc i..<lv_size ?t] cv1 fnd1 ?t"
    proof (cases "content (ws ! i) key")
      case None
      then show thesis using that [of cv fnd] best_hit_skip [OF Suc.prems(4)] f'(1) False by (simp add: up ver S(4) found_def Let_def)
    next
      case (Some v)
      then show thesis using that [of "level_versions this ! i" "Inr v"] best_hit_take [OF Suc.prems(4) Some] f'(1) False
        by (simp add: up ver S(4) found_def Let_def)
    qed
    have "n = lv_size ?t - Suc i" "Suc i \<le> lv_size ?t" using Suc.hyps(2) i by simp_all
    from Suc.hyps(1) [OF this S(1) f'(3) b(1)] obtain fnd' cv' t' where
      r: "linear_search_loop c g key [Suc i..<lv_size ?t] cv1 fnd1 ?t = Some (fnd', t')"
      "best_hit (level_versions ?t) (\<lambda>j. content (ws ! j)) key (lv_size ?t) cv' fnd'" "same_level ?t t'" "level_view V t' ws" by blast
    have "lv_size ?t = lv_size this" by simp
    then show ?thesis using r b(2) same_level_trans [OF f'(2) r(3)] by (metis S(4))
  qed
qed

lemma linear_search_ok:
  assumes ok: "level_ok this" and v: "level_view V this ws" and d: "distinct (level_versions this)"
  obtains this' where "bit_level_linear_search c g this key = Some (found (newest (zip (level_versions this) (map content ws)) key), this')"
    "same_level this this'" "level_view V this' ws"
proof -
  have "best_hit (level_versions this) (\<lambda>j. content (ws ! j)) key 0 0 (Inl ENODATA)" by (simp add: best_hit_def)
  from linear_search_loop_ok [OF _ ok v this] obtain fnd cv this' where
    r: "bit_level_linear_search c g this key = Some (fnd, this')" "best_hit (level_versions this) (\<lambda>j. content (ws ! j)) key (lv_size this) cv fnd"
    "same_level this this'" "level_view V this' ws" by (auto simp: bit_level_linear_search_def)
  have "length (level_versions this) = lv_size this" "length ws = lv_size this"
    using ok v by (auto simp: level_versions_def level_view_def dest: list_all2_lengthD)
  have "best_hit (level_versions this) (\<lambda>j. map content ws ! j) key (lv_size this) cv fnd"
    by (rule best_hit_cong [OF _ r(2)]) (simp add: \<open>length ws = lv_size this\<close>)
  from best_hit_newest [OF this \<open>length (level_versions this) = lv_size this\<close> _ d] r show ?thesis
    by (intro that) (simp_all add: \<open>length ws = lv_size this\<close>)
qed

lemma deep_search_ok:
  assumes ok: "level_ok this" and v: "level_view V this ws" and dj: "disjoint_files (level_files this)"
    and lv: "lv_level this \<noteq> 0"
  obtains this' where "bit_level_search c g this key = Some (found (newest (zip (level_versions this) (map content ws)) key), this')"
    "same_level this this'" "level_view V this' ws"
proof -
  let ?ps = "zip (level_versions this) (map content ws)"
  have l: "length ws = lv_size this" "length (level_versions this) = lv_size this"
    using ok v by (auto simp: level_versions_def level_view_def dest: list_all2_lengthD)
  have fv: "V (lv_files this ! i) (ws ! i)" if "i < lv_size this" for i
    using v that ok by (auto simp: level_view_def list_all2_conv_all_nth)
  have in_range: "bit_file_cmp_key key (lv_files this ! i) = 0" if "i < lv_size this" "content (ws ! i) key \<noteq> None" for i
    using view_range [OF fv [OF that(1)]] that(2) by (auto simp: bit_file_cmp_key_def)
  have mono: "bit_file_cmp_key key (lv_files this ! j) < 0"
    if "i < j" "j < lv_size this" "bit_file_cmp_key key (lv_files this ! i) \<le> 0" for i j
    using cmp_key_mono [OF dj ok that] .
  have hit: "i < lv_size this \<and> bit_file_cmp_key key (lv_files this ! i) = 0" if "bit_level_locate_file this key = Some i" for i
    by (rule bsearch_ok(1)) (use mono that in \<open>auto simp: bit_level_locate_file_def bit_level_locate_file_pointer_def\<close>)
  have miss: "bit_file_cmp_key key (lv_files this ! i) \<noteq> 0" if "bit_level_locate_file this key = None" "i < lv_size this" for i
    by (rule bsearch_ok(2)) (use mono that in \<open>auto simp: bit_level_locate_file_def bit_level_locate_file_pointer_def\<close>)
  show ?thesis
  proof (cases "bit_level_locate_file this key")
    case None
    then have "content (ws ! i) key = None" if "i < lv_size this" for i
      using miss [OF None that] in_range [OF that] by blast
    then have "newest ?ps key = None" using l by (auto simp: newest_None set_zip)
    then show ?thesis using None lv v same_level_refl [OF ok] by (intro that [of this]) (simp_all add: bit_level_search_def found_def)
  next
    case (Some i)
    then have i: "i < lv_size this" "bit_file_cmp_key key (lv_files this ! i) = 0"
      using hit by simp_all
    have other: "content (ws ! j) key = None" if "j < lv_size this" "j \<noteq> i" for j
      using in_range [OF that(1)] cmp_key_mono [OF dj ok, of i j key] cmp_key_mono [OF dj ok, of j i key] i that by force
    have "newest ?ps key = content (ws ! i) key"
    proof (cases "content (ws ! i) key")
      case None
      then have "content (ws ! j) key = None" if "j < lv_size this" for j using other that by (cases "j = i") auto
      then show ?thesis using None l by (auto simp: newest_None set_zip)
    next
      case (Some v)
      have u: "snd p key = Some v" if p: "p \<in> set ?ps" and q: "snd p key \<noteq> None" for p
      proof -
        obtain j where "j < lv_size this" "p = (level_versions this ! j, content (ws ! j))" using p l by (auto simp: set_zip)
        then show ?thesis using q other [of j] Some by (cases "j = i") auto
      qed
      have "(level_versions this ! i, content (ws ! i)) \<in> set ?ps" using i l by (auto simp: set_zip)
      from newest_unique [OF u this] Some show ?thesis by simp
    qed
    moreover obtain f' where f': "bit_file_search c g (lv_files this ! i) key = Some (found (content (ws ! i) key), f')"
      "same_level this (this\<lparr>lv_files := (lv_files this)[i := f']\<rparr>)" "level_view V (this\<lparr>lv_files := (lv_files this)[i := f']\<rparr>) ws"
      by (rule level_file_step [OF ok v i(1)]) (rule that)
    ultimately show ?thesis using Some lv f' by (intro that [of "this\<lparr>lv_files := (lv_files this)[i := f']\<rparr>"]) (simp_all add: bit_level_search_def)
  qed
qed

end

interpretation bit_files: file_search c g "file_view c g" view_map
  by unfold_locales (auto intro: file_view_search dest: file_view_range)

section \<open>Sequences of changes\<close>

datatype level_op = AddFile bit_file | RemoveFile nat

fun level_step :: "level_op \<Rightarrow> bit_level \<Rightarrow> bit_level" where
  "level_step (AddFile f) this = snd (bit_level_add_file this f)"
| "level_step (RemoveFile fid) this = snd (bit_level_remove_file this fid)"

text \<open>The numbers of the files of a level as a multiset that holds at most \<open>n\<close> of them.\<close>

fun ids_step :: "nat \<Rightarrow> level_op \<Rightarrow> nat multiset \<Rightarrow> nat multiset" where
  "ids_step n (AddFile f) ids = (if size ids < n then add_mset (bf_id f) ids else ids)"
| "ids_step n (RemoveFile fid) ids = ids - {#fid#}"

definition level_ids :: "bit_level \<Rightarrow> nat multiset" where
  "level_ids this = mset (map bf_id (level_files this))"

definition level_inv :: "bit_level \<Rightarrow> bool" where
  "level_inv this \<longleftrightarrow> level_ok this \<and> sorted (map file_rank (level_files this))"

lemma mset_insert_nth: "mset (insert_nth i x xs) = add_mset x (mset xs)"
  using mset_append [of "take i xs" "drop i xs"] by (simp add: insert_nth_def)

lemma mset_delete_nth: "i < length xs \<Longrightarrow> mset (delete_nth i xs) = mset xs - {#xs ! i#}"
proof -
  assume "i < length xs"
  then have "mset xs = mset (take i xs) + mset (xs ! i # drop (Suc i) xs)" by (metis id_take_nth_drop mset_append)
  then show ?thesis by (simp add: delete_nth_def)
qed

lemma size_level_ids: "level_ok this \<Longrightarrow> size (level_ids this) = lv_size this"
  by (simp add: level_ids_def)

lemma remove_file_absent:
  assumes "level_ok this" "fid \<notin># level_ids this"
  shows "bit_level_remove_file this fid = (Inl EINVAL, this)"
proof -
  have "bf_id (lv_files this ! i) \<noteq> fid" if "i < lv_size this" for i
  proof -
    have "level_files this ! i \<in> set (level_files this)" using that assms(1) by (intro nth_mem) simp
    moreover have "level_files this ! i = lv_files this ! i" using that by (simp add: level_files_def)
    ultimately show ?thesis using assms(2) by (auto simp: level_ids_def)
  qed
  then have "find (\<lambda>pos. bf_id (lv_files this ! pos) = fid) [0..<lv_size this] = None" by (auto simp: find_None_iff)
  then show ?thesis by (simp add: bit_level_remove_file_def)
qed

lemma sorted_delete_nth: "sorted (map h xs) \<Longrightarrow> sorted (map h (delete_nth i xs))"
proof -
  assume a: "sorted (map h xs)"
  have "sorted_wrt (\<lambda>x y. h x \<le> h y) (take i xs @ drop i xs)" using a by (simp add: sorted_map)
  then have "\<forall>x \<in> set (take i xs). \<forall>y \<in> set (drop i xs). h x \<le> h y" unfolding sorted_wrt_append by blast
  moreover have "sorted_wrt (\<lambda>x y. h x \<le> h y) (take i xs)" "sorted_wrt (\<lambda>x y. h x \<le> h y) (drop (Suc i) xs)"
    using a by (simp_all only: sorted_map sorted_wrt_take sorted_wrt_drop)
  moreover have "set (drop (Suc i) xs) \<subseteq> set (drop i xs)" by (rule set_drop_subset_set_drop) simp
  ultimately show ?thesis by (auto simp: delete_nth_def sorted_map sorted_wrt_append)
qed

lemma level_step_ok:
  assumes "level_inv this"
  shows "level_inv (level_step op this) \<and> lv_max_size (level_step op this) = lv_max_size this \<and>
    lv_level (level_step op this) = lv_level this \<and> level_ids (level_step op this) = ids_step (lv_max_size this) op (level_ids this)"
proof (cases op)
  case (AddFile f)
  show ?thesis
  proof (cases "lv_size this < lv_max_size this")
    case True
    obtain this' pos where t: "bit_level_add_file this f = (Inr (), this')" "level_ok this'" "lv_level this' = lv_level this"
      "lv_max_size this' = lv_max_size this" "level_files this' = insert_nth pos f (level_files this)"
      "sorted (map file_rank (level_files this'))"
      using assms True by (auto simp: level_inv_def intro: add_file_ok [of this f])
    then show ?thesis using assms True AddFile size_level_ids [of this]
      by (simp add: level_inv_def level_ids_def mset_insert_nth)
  qed (use assms AddFile size_level_ids [of this] in \<open>simp add: bit_level_add_file_def level_inv_def\<close>)
next
  case (RemoveFile fid)
  let ?P = "\<lambda>pos. pos < lv_size this \<and> bf_id (lv_files this ! pos) = fid"
  have ok: "level_ok this" using assms by (simp add: level_inv_def)
  then have n: "level_files this ! i = lv_files this ! i" if "i < lv_size this" for i using that by (simp add: level_files_def)
  show ?thesis
  proof (cases "fid \<in># level_ids this")
    case True
    then have ex: "\<exists>pos. ?P pos"
      using n ok by (fastforce simp: level_ids_def in_set_conv_nth)
    define pos where "pos = (LEAST pos. ?P pos)"
    have pos: "?P pos" unfolding pos_def using ex by (rule LeastI_ex)
    have first: "bf_id (lv_files this ! i) \<noteq> fid" if "i < pos" for i
      using not_less_Least [of i ?P] that pos by (auto simp: pos_def)
    obtain this' where t: "bit_level_remove_file this fid = (Inr (), this')" "level_ok this'" "lv_level this' = lv_level this"
      "lv_max_size this' = lv_max_size this" "level_files this' = delete_nth pos (level_files this)"
      by (rule remove_file_ok [OF ok, of pos fid]) (use pos first in auto)
    then show ?thesis using assms RemoveFile pos n ok nth_mem_mset [of pos "level_files this"]
      by (simp add: level_inv_def level_ids_def sorted_delete_nth mset_delete_nth image_mset_Diff)
  next
    case False
    then show ?thesis using assms RemoveFile remove_file_absent [OF ok] by simp
  qed
qed

lemma level_run_ok:
  "level_inv this \<Longrightarrow> level_inv (fold level_step ops this) \<and> lv_max_size (fold level_step ops this) = lv_max_size this \<and>
    level_ids (fold level_step ops this) = fold (ids_step (lv_max_size this)) ops (level_ids this)"
  by (induction ops arbitrary: this) (use level_step_ok in auto)

section \<open>Properties\<close>

text \<open>C10. Whatever files are added to and removed from a new level, in whatever order, the level keeps
  within its array, its files stay in the order of their key ranges, and it holds exactly the files
  that were added while there was room and not removed since.\<close>

theorem level_stays_sorted:
  assumes "bit_level_create True True junk level cap = Some this" "2 * cap + DEFAULT_LSM_LEVEL0_NR_FILE \<le> length junk"
  shows "let this' = fold level_step ops this in
    lv_size this' \<le> 2 * cap + DEFAULT_LSM_LEVEL0_NR_FILE \<and> sorted (map file_rank (level_files this')) \<and>
    level_ids this' = fold (ids_step (2 * cap + DEFAULT_LSM_LEVEL0_NR_FILE)) ops {#}"
proof -
  have "level_inv this" "lv_max_size this = 2 * cap + DEFAULT_LSM_LEVEL0_NR_FILE" "level_ids this = {#}"
    using assms by (auto simp: bit_level_create_def bit_level_init_def level_inv_def level_ok_def level_files_def level_ids_def)
  then show ?thesis using level_run_ok [of this ops] by (simp add: Let_def level_inv_def level_ok_def)
qed

definition sample_file :: "nat \<Rightarrow> u32 \<Rightarrow> u32 \<Rightarrow> bit_file" where
  "sample_file fid fkey lkey = \<lparr>bf_id = fid, bf_level = 0, bf_version = fid, bf_root = 0, bf_root_key = [], bf_root_iv = [],
     bf_first_key = fkey, bf_last_key = lkey, cached_leaf = zero_leaf, bf_filter_begin = 0, bf_filter = \<lparr>hash_funcs = [], bits = [], bsize = 0\<rparr>\<rparr>"

theorem level_stays_sorted_witness:
  "\<exists>this. bit_level_create True True (replicate 6 (sample_file 0 0 0)) 0 1 = Some this \<and>
    level_ids (fold level_step [AddFile (sample_file 1 10 20), AddFile (sample_file 2 5 8), RemoveFile 1] this) = {#2#}"
  using level_stays_sorted [of "replicate 6 (sample_file 0 0 0)" 0 1 _
      "[AddFile (sample_file 1 10 20), AddFile (sample_file 2 5 8), RemoveFile 1]"]
  by (simp add: bit_level_create_def bit_level_init_def DEFAULT_LSM_LEVEL0_NR_FILE_def Let_def sample_file_def)

text \<open>C11. The files a compaction picks from the next level are distinct files of that level, and none of
  the level's files whose key range overlaps a demoted file is left out.\<close>

theorem relatives_complete:
  assumes "level_ok this" "disjoint_files (level_files this)"
  shows "set (bit_level_find_relative_files this files) \<subseteq> set (level_files this) \<and>
    distinct (bit_level_find_relative_files this files) \<and>
    (\<forall>f \<in> set (level_files this). \<forall>d \<in> set files.
       bf_first_key f \<le> bf_last_key d \<and> bf_first_key d \<le> bf_last_key f \<longrightarrow> f \<in> set (bit_level_find_relative_files this files))"
proof -
  obtain before after where s: "level_files this = before @ bit_level_find_relative_files this files @ after"
    "\<And>f. f \<in> set before \<Longrightarrow> bf_last_key f < fst (files_range files)"
    "\<And>f. f \<in> set after \<Longrightarrow> snd (files_range files) < bf_first_key f" by (rule relatives_split [OF assms, of files]) (rule that)
  have "distinct (level_files this)" using disjoint_files_nth [OF assms(2)]
    by (metis (no_types, lifting) distinct_conv_nth linorder_neqE_nat not_less)
  moreover have "f \<notin> set before \<and> f \<notin> set after"
    if "d \<in> set files" "bf_first_key f \<le> bf_last_key d" "bf_first_key d \<le> bf_last_key f" for f d
    using files_range_bounds [OF that(1)] that(2,3) s(2,3) by (meson leD order_trans)
  ultimately show ?thesis using s(1) by auto
qed

theorem relatives_complete_witness:
  "let this = \<lparr>lv_level = 1, lv_capacity = 1, lv_size = 2, lv_max_size = 6,
                lv_files = sample_file 1 0 9 # sample_file 2 10 19 # replicate 4 (sample_file 0 0 0)\<rparr>
   in sample_file 2 10 19 \<in> set (bit_level_find_relative_files this [sample_file 3 15 30])"
  using relatives_complete [of "\<lparr>lv_level = 1, lv_capacity = 1, lv_size = 2, lv_max_size = 6,
                lv_files = sample_file 1 0 9 # sample_file 2 10 19 # replicate 4 (sample_file 0 0 0)\<rparr>" "[sample_file 3 15 30]"]
  by (simp add: level_ok_def level_files_def disjoint_files_def sample_file_def)

end
