(* ===== verification/Bit_Flush.thy ===== *)
theory Bit_Flush
  imports Bit_Index
begin

text \<open>
  When the builder of \<open>lsm_tree.c\<close> flushes its buffer, as a function of the number of leaves alone. Completing
  a file is safe unless the buffer is full at that moment (\<open>complete_flush_misplaces_root\<close> shows what
  happens otherwise); this theory shows that a file of the full capacity is safe.
\<close>

section \<open>The positions of the log\<close>

definition log_pos :: "nat \<Rightarrow> nat" where
  "log_pos n = 572 * n - 63 * dsum 10 n"

text \<open>The number of bytes written out before leaf \<open>n\<close>: the buffer is flushed when a leaf starts and fewer
  than ten nodes fit.\<close>

primrec flushed :: "nat \<Rightarrow> nat" where
  "flushed 0 = 0"
| "flushed (Suc n) = (if log_pos n - flushed n > 4189214 then log_pos n else flushed n)"

definition safe_count :: "nat \<Rightarrow> bool" where
  "safe_count n \<longleftrightarrow> BIT_LEAF_LEN \<le> n \<and> n \<le> DEFAULT_LSM_FILE_CAPACITY \<and>
     log_pos (n div BIT_LEAF_LEN) - flushed (n div BIT_LEAF_LEN) \<le> 4189214"

lemma dsum_Suc: "dsum k (Suc n) \<le> Suc (dsum k n)"
proof (induction k arbitrary: n)
  case (Suc k)
  consider "Suc n mod 4 = Suc (n mod 4)" "Suc n div 4 = n div 4" | "Suc n mod 4 = 0" "Suc n div 4 = Suc (n div 4)" "n mod 4 = 3"
    by (cases "n mod 4 = 3") (simp_all add: mod_Suc div_Suc)
  then show ?case using Suc.IH [of "n div 4"] by cases simp_all
qed simp

lemma dsum_le: "dsum k n \<le> n"
proof (induction k arbitrary: n)
  case (Suc k)
  have "n mod 4 + n div 4 \<le> n" using mult_div_mod_eq [of 4 n] by linarith
  then show ?case using Suc.IH [of "n div 4"] by simp
qed simp

lemma log_pos_Suc: "log_pos n \<le> log_pos (Suc n)"
  using dsum_Suc [of 10 n] dsum_le [of 10 n] by (simp add: log_pos_def)

lemma log_pos_mono: "m \<le> n \<Longrightarrow> log_pos m \<le> log_pos n"
  by (rule lift_Suc_mono_le) (rule log_pos_Suc)

text \<open>The log positions at which the buffer is flushed, one after the other.\<close>

lemma flushed_between:
  assumes "flushed (Suc k) = b" "k < n" "log_pos (n - 1) - b \<le> 4189214"
  shows "flushed n = b"
  using assms(2,3)
proof (induction n)
  case (Suc n)
  show ?case
  proof (cases "k = n")
    case False
    have "log_pos (n - 1) \<le> log_pos n" by (rule log_pos_mono) simp
    then show ?thesis using Suc False by simp
  qed (use assms(1) in simp)
qed simp

fun flush_chain :: "nat list \<Rightarrow> bool" where
  "flush_chain (k # k' # ks) \<longleftrightarrow>
     k < k' \<and> log_pos (k' - 1) - log_pos k \<le> 4189214 \<and> log_pos k' - log_pos k > 4189214 \<and> flush_chain (k' # ks)"
| "flush_chain ks \<longleftrightarrow> True"

lemma flush_chain_last: "flush_chain (k # ks) \<Longrightarrow> flushed (Suc k) = log_pos k \<Longrightarrow> flushed (Suc (last (k # ks))) = log_pos (last (k # ks))"
proof (induction ks arbitrary: k)
  case (Cons k' ks)
  have "flushed k' = log_pos k" by (rule flushed_between [OF Cons.prems(2)]) (use Cons.prems(1) in simp_all)
  then show ?case using Cons by simp
qed simp

lemma flushed_capacity: "flushed 131072 = log_pos 124514"
proof -
  have "flushed 7326 = 0" by (rule flushed_between [of 0]) (simp_all add: log_pos_def dsum_numeral)
  then have a: "flushed (Suc 7326) = log_pos 7326" unfolding flushed.simps by (simp add: log_pos_def dsum_numeral)
  have b: "flush_chain [7326, 14650, 21974, 29298, 36622, 43947, 51270, 58595, 65919, 73243, 80568, 87892, 95217, 102541, 109866, 117190, 124514]"
    by (simp add: log_pos_def dsum_numeral)
  have "flushed (Suc 124514) = log_pos 124514" using flush_chain_last [OF b a] by simp
  then show ?thesis by (rule flushed_between) (simp_all add: log_pos_def dsum_numeral)
qed

lemma safe_capacity: "safe_count DEFAULT_LSM_FILE_CAPACITY"
  using flushed_capacity by (simp add: safe_count_def DEFAULT_LSM_FILE_CAPACITY_def BIT_LEAF_LEN_def log_pos_def dsum_numeral)

lemma safe_small: "BIT_LEAF_LEN \<le> n \<Longrightarrow> n < 58592 \<Longrightarrow> safe_count n"
proof -
  assume n: "BIT_LEAF_LEN \<le> n" "n < 58592"
  then have "log_pos (n div BIT_LEAF_LEN) \<le> log_pos 7323" by (intro log_pos_mono) (simp add: BIT_LEAF_LEN_def)
  moreover have "log_pos 7323 \<le> 4189214" by (simp add: log_pos_def dsum_numeral)
  ultimately show ?thesis using n by (simp add: safe_count_def DEFAULT_LSM_FILE_CAPACITY_def)
qed

section \<open>The builder follows them\<close>

definition begin_at :: "nat \<Rightarrow> bit_builder \<Rightarrow> bool" where
  "begin_at lo this \<longleftrightarrow> bb_begin this = lo + flushed (wsum (bb_ctx this))"

lemma log_inv_log_pos:
  assumes "log_inv c f0 lo f this T p0"
  shows "bb_begin this + bb_cur this = lo + log_pos (wsum (bb_ctx this))"
  using assms log_inv_nsum [OF assms] by (auto simp: log_inv_def log_pos_def)

lemma full_iff:
  assumes "log_inv c f0 lo f this T p0" "begin_at lo this"
  shows "bit_builder_full this \<longleftrightarrow> log_pos (wsum (bb_ctx this)) - flushed (wsum (bb_ctx this)) > 4189214"
proof -
  have "bb_height this = 10" using assms(1) by (simp add: log_inv_def)
  then show ?thesis using log_inv_log_pos [OF assms(1)] assms(2)
    by (auto simp: bit_builder_full_def begin_at_def node_sizes DEFAULT_LSM_FILE_BUILDER_BUFFER_SIZE_def)
qed

lemma seal_leaf_begin:
  assumes "bit_builder_seal_leaf c this f r = Some (this', f', r')"
  shows "bb_begin this' = (if bit_builder_full this then bb_begin this + bb_cur this else bb_begin this)"
  using assms by (auto simp: bit_builder_seal_leaf_def Let_def bit_builder_buffer_flush_if_full_def bit_builder_full_def split_beta
      dest!: add_entry_loop_begin split: option.splits)

lemma add_entry_begin_at:
  assumes "bit_builder_add_entry c this f r e = Some (this', f', r')"
    and "binv c f0 lo flt i lv v f this es T p0" "binv c f0 lo flt i lv v f' this' (es @ [e]) T' p0" "begin_at lo this"
  shows "begin_at lo this'"
proof -
  define th where "th = bit_builder_note this (fst e) (snd e)"
  have n: "bb_begin th = bb_begin this" "bb_cur th = bb_cur this" "bb_ctx th = bb_ctx this" "bb_height th = bb_height this"
    "cur_leaf th = leaf_add (cur_leaf this) (fst e) (snd e)" by (simp_all add: th_def bit_builder_note_def)
  have l: "log_inv c f0 lo f this T p0" using assms(2) by (simp add: binv_def)
  have w: "wsum (bb_ctx this) = length es div BIT_LEAF_LEN" "wsum (bb_ctx this') = Suc (length es) div BIT_LEAF_LEN"
    using binv_count(2) [OF assms(2)] binv_count(2) [OF assms(3)] by simp_all
  have r: "nr_record (cur_leaf this) = length es mod BIT_LEAF_LEN" by (rule binv_count(3) [OF assms(2)])
  have nr: "nr_record (cur_leaf th) = Suc (nr_record (cur_leaf this))" by (simp add: n(5) leaf_add_def)
  show ?thesis
  proof (cases "nr_record (cur_leaf th) < BIT_LEAF_LEN")
    case True
    then have "this' = th" using assms(1) by (simp add: bit_builder_add_entry_def th_def Let_def)
    then show ?thesis using assms(4) n by (simp add: begin_at_def)
  next
    case False
    then have "bit_builder_seal_leaf c th f r = Some (this', f', r')"
      using assms(1) by (simp add: bit_builder_add_entry_def th_def Let_def)
    from seal_leaf_begin [OF this] have b: "bb_begin this' = (if bit_builder_full this then bb_begin this + bb_cur this else bb_begin this)"
      using n by (simp add: bit_builder_full_def)
    have "wsum (bb_ctx this') = Suc (wsum (bb_ctx this))" using w r nr False by (simp add: BIT_LEAF_LEN_def) presburger
    then show ?thesis using b assms(4) full_iff [OF l assms(4)] log_inv_log_pos [OF l] by (simp add: begin_at_def)
  qed
qed

lemma safe_not_full:
  assumes "binv c f0 lo flt i lv v f this es T p0" "begin_at lo this" "safe_count (length es)"
  shows "\<not> bit_builder_full this"
proof -
  have "log_inv c f0 lo f this T p0" using assms(1) by (simp add: binv_def)
  from full_iff [OF this assms(2)] show ?thesis using assms(3) binv_count(2) [OF assms(1)] by (simp add: safe_count_def)
qed

end
