(* ===== verification/Min_Heap.thy ===== *)
theory Min_Heap
  imports Kernel_Lib
begin

text \<open>
  The binary heap of \<open>linux/min_heap.h\<close> that the compaction merges with: the elements in use of its
  array as a list, sifting up after a push and down after a pop. It keeps the contract of a
  priority queue.
\<close>

section \<open>Operations\<close>

definition list_swap :: "nat \<Rightarrow> nat \<Rightarrow> 'a list \<Rightarrow> 'a list" where
  "list_swap i j xs = xs[i := xs ! j, j := xs ! i]"

lemma length_list_swap [simp]: "length (list_swap i j xs) = length xs"
  by (simp add: list_swap_def)

function min_heapify :: "('a \<Rightarrow> 'a \<Rightarrow> bool) \<Rightarrow> nat \<Rightarrow> 'a list \<Rightarrow> 'a list" where
  "min_heapify lt pos h =
     (if length h \<le> pos * 2 + 1 then h
      else let s1 = (if lt (h ! (pos * 2 + 1)) (h ! pos) then pos * 2 + 1 else pos);
               s2 = (if pos * 2 + 2 < length h \<and> lt (h ! (pos * 2 + 2)) (h ! s1) then pos * 2 + 2 else s1)
           in if s2 = pos then h else min_heapify lt s2 (list_swap pos s2 h))"
  by pat_completeness auto
termination
  by (relation "measure (\<lambda>(lt, pos, h). length h - pos)") (auto split: if_splits)

declare min_heapify.simps [simp del]

function sift_up :: "('a \<Rightarrow> 'a \<Rightarrow> bool) \<Rightarrow> nat \<Rightarrow> 'a list \<Rightarrow> 'a list" where
  "sift_up lt pos h =
     (if pos = 0 then h
      else let p = (pos - 1) div 2
           in if lt (h ! p) (h ! pos) then h else sift_up lt p (list_swap p pos h))"
  by pat_completeness auto
termination
  by (relation "measure (\<lambda>(lt, pos, h). pos)") auto

declare sift_up.simps [simp del]

text \<open>The warnings of both operations return without effect.\<close>

definition min_heap_push :: "('a \<Rightarrow> 'a \<Rightarrow> bool) \<Rightarrow> nat \<Rightarrow> 'a \<Rightarrow> 'a list \<Rightarrow> 'a list" where
  "min_heap_push lt cap x h = (if cap \<le> length h then h else sift_up lt (length h) (h @ [x]))"

definition min_heap_pop :: "('a \<Rightarrow> 'a \<Rightarrow> bool) \<Rightarrow> 'a list \<Rightarrow> 'a list" where
  "min_heap_pop lt h = (if h = [] then h else min_heapify lt 0 ((butlast h)[0 := last h]))"

section \<open>Heap order\<close>

definition parent :: "nat \<Rightarrow> nat" where "parent i = (i - 1) div 2"

definition is_heap :: "('a \<Rightarrow> 'k::linorder) \<Rightarrow> 'a list \<Rightarrow> bool" where
  "is_heap key h \<longleftrightarrow> (\<forall>i. 0 < i \<longrightarrow> i < length h \<longrightarrow> key (h ! parent i) \<le> key (h ! i))"

lemma parent_less: "0 < i \<Longrightarrow> parent i < i"
  by (simp add: parent_def)

lemma parent_cases: "0 < i \<Longrightarrow> parent i = p \<longleftrightarrow> i = p * 2 + 1 \<or> i = p * 2 + 2"
  by (auto simp: parent_def)

lemma heap_root_min: "is_heap key h \<Longrightarrow> i < length h \<Longrightarrow> key (h ! 0) \<le> key (h ! i)"
proof (induction i rule: less_induct)
  case (less i)
  show ?case
  proof (cases "i = 0")
    case False
    then have "parent i < i" using parent_less by simp
    with less have "key (h ! 0) \<le> key (h ! parent i)" by simp
    also have "\<dots> \<le> key (h ! i)" using less.prems False by (simp add: is_heap_def)
    finally show ?thesis .
  qed simp
qed

lemma mset_list_swap: "i < length xs \<Longrightarrow> j < length xs \<Longrightarrow> mset (list_swap i j xs) = mset xs"
  by (simp add: list_swap_def mset_swap)

lemma nth_list_swap:
  "i < length xs \<Longrightarrow> j < length xs \<Longrightarrow> k < length xs \<Longrightarrow>
   list_swap i j xs ! k = (if k = i then xs ! j else if k = j then xs ! i else xs ! k)"
  by (auto simp: list_swap_def nth_list_update)

lemma mset_sift_up: "pos < length h \<Longrightarrow> mset (sift_up lt pos h) = mset h"
proof (induction lt pos h rule: sift_up.induct)
  case (1 lt pos h)
  show ?case
  proof (cases "pos = 0 \<or> lt (h ! ((pos - 1) div 2)) (h ! pos)")
    case False
    then have "mset (sift_up lt ((pos - 1) div 2) (list_swap ((pos - 1) div 2) pos h)) = mset (list_swap ((pos - 1) div 2) pos h)"
      using "1.prems" by (intro "1.IH") auto
    also have "\<dots> = mset h" using "1.prems" by (intro mset_list_swap) auto
    finally show ?thesis using False by (simp add: sift_up.simps [of lt pos h] Let_def)
  qed (auto simp: sift_up.simps [of lt pos h] Let_def)
qed

definition min_child :: "('a \<Rightarrow> 'a \<Rightarrow> bool) \<Rightarrow> nat \<Rightarrow> 'a list \<Rightarrow> nat" where
  "min_child lt pos h =
     (let s1 = (if lt (h ! (pos * 2 + 1)) (h ! pos) then pos * 2 + 1 else pos)
      in if pos * 2 + 2 < length h \<and> lt (h ! (pos * 2 + 2)) (h ! s1) then pos * 2 + 2 else s1)"

lemma min_heapify_unfold:
  "min_heapify lt pos h =
     (if length h \<le> pos * 2 + 1 \<or> min_child lt pos h = pos then h
      else min_heapify lt (min_child lt pos h) (list_swap pos (min_child lt pos h) h))"
  by (subst min_heapify.simps) (simp add: min_child_def Let_def)

lemma min_child_less: "pos * 2 + 1 < length h \<Longrightarrow> min_child lt pos h < length h"
  by (simp add: min_child_def Let_def)

lemma min_child_cases: "min_child lt pos h \<noteq> pos \<Longrightarrow> min_child lt pos h = pos * 2 + 1 \<or> min_child lt pos h = pos * 2 + 2"
  by (simp add: min_child_def Let_def split: if_splits)

lemma min_heapify_induct:
  assumes "\<And>pos h. (pos * 2 + 1 < length h \<Longrightarrow> min_child lt pos h \<noteq> pos \<Longrightarrow> P (min_child lt pos h) (list_swap pos (min_child lt pos h) h))
     \<Longrightarrow> P pos h"
  shows "P pos h"
proof (induction "length h - pos" arbitrary: pos h rule: less_induct)
  case less
  show ?case
  proof (rule assms)
    assume "pos * 2 + 1 < length h" "min_child lt pos h \<noteq> pos"
    then have "length (list_swap pos (min_child lt pos h) h) - min_child lt pos h < length h - pos"
      using min_child_cases [of lt pos h] by auto
    then show "P (min_child lt pos h) (list_swap pos (min_child lt pos h) h)" by (rule less)
  qed
qed

lemma mset_min_heapify: "mset (min_heapify lt pos h) = mset h"
proof (induction pos h rule: min_heapify_induct [where lt = lt])
  case (1 pos h)
  show ?case
  proof (cases "length h \<le> pos * 2 + 1 \<or> min_child lt pos h = pos")
    case False
    then have "mset (list_swap pos (min_child lt pos h) h) = mset h"
      using min_child_less [of pos h lt] by (intro mset_list_swap) auto
    then show ?thesis using 1 False by (simp add: min_heapify_unfold [of lt pos h])
  qed (simp add: min_heapify_unfold [of lt pos h])
qed

text \<open>A heap but for the edge above \<open>pos\<close>, and a heap but for the edges below it.\<close>

definition heap_up :: "('a \<Rightarrow> 'k::linorder) \<Rightarrow> nat \<Rightarrow> 'a list \<Rightarrow> bool" where
  "heap_up key pos h \<longleftrightarrow>
     (\<forall>i. 0 < i \<longrightarrow> i < length h \<longrightarrow> i \<noteq> pos \<longrightarrow> key (h ! parent i) \<le> key (h ! i)) \<and>
     (0 < pos \<longrightarrow> (\<forall>i. 0 < i \<longrightarrow> i < length h \<longrightarrow> parent i = pos \<longrightarrow> key (h ! parent pos) \<le> key (h ! i)))"

definition heap_down :: "('a \<Rightarrow> 'k::linorder) \<Rightarrow> nat \<Rightarrow> 'a list \<Rightarrow> bool" where
  "heap_down key pos h \<longleftrightarrow>
     (\<forall>i. 0 < i \<longrightarrow> i < length h \<longrightarrow> parent i \<noteq> pos \<longrightarrow> key (h ! parent i) \<le> key (h ! i)) \<and>
     (0 < pos \<longrightarrow> (\<forall>i. 0 < i \<longrightarrow> i < length h \<longrightarrow> parent i = pos \<longrightarrow> key (h ! parent pos) \<le> key (h ! i)))"

lemma heap_up_step:
  assumes h: "heap_up key pos h" and pos: "0 < pos" "pos < length h" and le: "key (h ! pos) \<le> key (h ! parent pos)"
  shows "heap_up key (parent pos) (list_swap (parent pos) pos h)"
proof -
  let ?p = "parent pos" and ?h = "list_swap (parent pos) pos h"
  have p: "?p < pos" "?p < length h" using parent_less [OF pos(1)] pos(2) by auto
  note nth = nth_list_swap [OF p(2) pos(2)]
  have up: "key (h ! parent i) \<le> key (h ! i)" if "0 < i" "i < length h" "i \<noteq> pos" for i
    using h that by (simp add: heap_up_def)
  have ch: "key (h ! ?p) \<le> key (h ! i)" if "0 < i" "i < length h" "parent i = pos" for i
    using h that pos(1) by (simp add: heap_up_def)
  have "key (?h ! parent i) \<le> key (?h ! i)" if i: "0 < i" "i < length h" "i \<noteq> ?p" for i
  proof -
    have pi: "parent i < i" "parent i < length h" using parent_less [OF i(1)] i(2) by auto
    consider "i = pos" | "i \<noteq> pos" "parent i = ?p" | "i \<noteq> pos" "parent i = pos" | "i \<noteq> pos" "parent i \<noteq> ?p" "parent i \<noteq> pos" by blast
    then show ?thesis
    proof cases
      case 1 then show ?thesis using nth [OF pi(2)] nth [OF i(2)] p le by simp
    next
      case 2 then show ?thesis using nth [OF pi(2)] nth [OF i(2)] p le up [OF i(1,2)] i(3) by simp
    next
      case 3 then show ?thesis using nth [OF pi(2)] nth [OF i(2)] p ch [OF i(1,2)] i(3) by simp
    next
      case 4 then show ?thesis using nth [OF pi(2)] nth [OF i(2)] up [OF i(1,2)] i(3) by simp
    qed
  qed
  moreover have "key (?h ! parent ?p) \<le> key (?h ! i)" if pp: "0 < ?p" and i: "0 < i" "i < length h" "parent i = ?p" for i
  proof -
    have q: "parent ?p < ?p" "parent ?p < length h" using parent_less [OF pp] p by auto
    have "key (h ! parent ?p) \<le> key (h ! ?p)" using up [OF pp p(2)] p by simp
    moreover have "key (h ! ?p) \<le> key (h ! i)" if "i \<noteq> pos" using up [OF i(1,2) that] i(3) by simp
    moreover have "i \<noteq> ?p" using parent_less [OF i(1)] i(3) by auto
    ultimately show ?thesis using nth [OF q(2)] nth [OF i(2)] q p by (cases "i = pos") auto
  qed
  ultimately show ?thesis by (simp add: heap_up_def)
qed

lemma is_heap_sift_up:
  assumes lt: "\<And>a b. lt a b \<longleftrightarrow> key a < key b"
  shows "pos < length h \<Longrightarrow> heap_up key pos h \<Longrightarrow> is_heap key (sift_up lt pos h)"
proof (induction pos arbitrary: h rule: less_induct)
  case (less pos)
  show ?case
  proof (cases "pos = 0 \<or> lt (h ! parent pos) (h ! pos)")
    case True
    then have "sift_up lt pos h = h" by (auto simp: sift_up.simps [of lt pos h] Let_def parent_def)
    moreover have "key (h ! parent i) \<le> key (h ! i)" if "0 < i" "i < length h" for i
      using less.prems True that by (cases "i = pos") (auto simp: heap_up_def lt)
    then have "is_heap key h" by (simp add: is_heap_def)
    ultimately show ?thesis by simp
  next
    case False
    then have "sift_up lt pos h = sift_up lt (parent pos) (list_swap (parent pos) pos h)"
      by (simp add: sift_up.simps [of lt pos h] Let_def parent_def)
    moreover have "is_heap key (sift_up lt (parent pos) (list_swap (parent pos) pos h))"
      using False less.prems parent_less [of pos] heap_up_step [OF less.prems(2)] by (intro less.IH) (auto simp: lt)
    ultimately show ?thesis by simp
  qed
qed

lemma min_child_min:
  fixes key :: "'a \<Rightarrow> 'k::linorder"
  assumes lt: "\<And>a b. lt a b \<longleftrightarrow> key a < key b" and i: "0 < i" "i < length h" "parent i = pos"
  shows "key (h ! min_child lt pos h) \<le> key (h ! i)" "key (h ! min_child lt pos h) \<le> key (h ! pos)"
    "min_child lt pos h \<noteq> pos \<Longrightarrow> key (h ! min_child lt pos h) < key (h ! pos)"
proof -
  have "i = pos * 2 + 1 \<or> i = pos * 2 + 2" using parent_cases [OF i(1), of pos] i(3) by simp
  then show "key (h ! min_child lt pos h) \<le> key (h ! i)" using i(2) by (auto simp: min_child_def lt Let_def)
  show "key (h ! min_child lt pos h) \<le> key (h ! pos)" by (auto simp: min_child_def lt Let_def)
  show "min_child lt pos h \<noteq> pos \<Longrightarrow> key (h ! min_child lt pos h) < key (h ! pos)"
    by (auto simp: min_child_def lt Let_def split: if_splits)
qed

lemma heap_down_step:
  fixes h :: "'a list"
  assumes lt: "\<And>a b. lt a b \<longleftrightarrow> key a < key b" and h: "heap_down key pos h"
    and m: "m = min_child lt pos h" "m \<noteq> pos" "pos * 2 + 1 < length h"
  shows "heap_down key m (list_swap pos m h)"
proof -
  have ml: "m < length h" "pos < length h" "parent m = pos" "0 < m"
    using min_child_less [OF m(3), of lt] min_child_cases [of lt pos h] m parent_cases [of m pos] by auto
  note nth = nth_list_swap [OF ml(2,1)]
  note mn = min_child_min [where lt = lt and key = key and pos = pos and h = h, OF lt, folded m(1)]
  have up: "key (h ! parent i) \<le> key (h ! i)" if "0 < i" "i < length h" "parent i \<noteq> pos" for i
    using h that by (simp add: heap_down_def)
  have "key (list_swap pos m h ! parent i) \<le> key (list_swap pos m h ! i)" if i: "0 < i" "i < length h" "parent i \<noteq> m" for i
  proof -
    have pi: "parent i < i" "parent i < length h" using parent_less [OF i(1)] i(2) by auto
    consider "i = m" | "i \<noteq> m" "i \<noteq> pos" "parent i = pos" | "i = pos" | "i \<noteq> m" "i \<noteq> pos" "parent i \<noteq> pos" by blast
    then show ?thesis
    proof cases
      case 1 then show ?thesis using nth [OF pi(2)] nth [OF i(2)] ml m(2) mn(2) [of m] by simp
    next
      case 2 then show ?thesis using nth [OF pi(2)] nth [OF i(2)] mn(1) [OF i(1,2)] by simp
    next
      case 3
      then have "key (h ! parent pos) \<le> key (h ! m)" using h ml i by (simp add: heap_down_def)
      then show ?thesis using 3 nth [OF pi(2)] nth [OF i(2)] pi i(3) by simp
    next
      case 4 then show ?thesis using nth [OF pi(2)] nth [OF i(2)] up [OF i(1,2)] i(3) by simp
    qed
  qed
  moreover have "key (list_swap pos m h ! parent m) \<le> key (list_swap pos m h ! i)"
    if i: "0 < i" "i < length h" "parent i = m" for i
  proof -
    have "i \<noteq> m" "i \<noteq> pos" using parent_less [OF i(1)] parent_less [OF ml(4)] i(3) ml(3) by auto
    then show ?thesis using nth [OF ml(2)] nth [OF i(2)] up [OF i(1,2)] i(3) ml m(2) by simp
  qed
  ultimately show ?thesis by (simp add: heap_down_def)
qed

lemma is_heap_min_heapify:
  assumes lt: "\<And>a b. lt a b \<longleftrightarrow> key a < key b"
  shows "heap_down key pos h \<Longrightarrow> is_heap key (min_heapify lt pos h)"
proof (induction pos h rule: min_heapify_induct [where lt = lt])
  case (1 pos h)
  show ?case
  proof (cases "length h \<le> pos * 2 + 1 \<or> min_child lt pos h = pos")
    case True
    have "key (h ! parent i) \<le> key (h ! i)" if "0 < i" "i < length h" for i
    proof (cases "parent i = pos")
      case pi: True
      then show ?thesis
        using True that parent_cases [OF that(1), of pos] min_child_min(1) [of lt key, OF lt that pi] by auto
    qed (use 1(2) that in \<open>simp add: heap_down_def\<close>)
    then show ?thesis using True by (simp add: min_heapify_unfold [of lt pos h] is_heap_def)
  next
    case False
    then show ?thesis using 1 heap_down_step [of lt key, OF lt 1(2) refl] by (simp add: min_heapify_unfold [of lt pos h])
  qed
qed

section \<open>A priority queue\<close>

text \<open>The contract: pushing adds an element while there is room, popping removes the element at the
  top, which has the least key.\<close>

locale priority_queue =
  fixes push :: "'a \<Rightarrow> 'q \<Rightarrow> 'q" and pop :: "'q \<Rightarrow> 'q" and top :: "'q \<Rightarrow> 'a"
    and content :: "'q \<Rightarrow> 'a multiset" and cap :: nat and key :: "'a \<Rightarrow> 'k::linorder" and invar :: "'q \<Rightarrow> bool"
  assumes push_ok: "invar q \<Longrightarrow> size (content q) < cap \<Longrightarrow> invar (push x q) \<and> content (push x q) = add_mset x (content q)"
    and pop_ok: "invar q \<Longrightarrow> content q \<noteq> {#} \<Longrightarrow> invar (pop q) \<and> content (pop q) = content q - {#top q#}"
    and top_ok: "invar q \<Longrightarrow> content q \<noteq> {#} \<Longrightarrow> top q \<in># content q \<and> (\<forall>x \<in># content q. key (top q) \<le> key x)"
begin

lemma replace_top:
  assumes "invar q" "content q \<noteq> {#}" "size (content q) \<le> cap"
  shows "invar (push x (pop q))" "content (push x (pop q)) = add_mset x (content q - {#top q#})"
proof -
  have "size (content q - {#top q#}) < cap"
    using assms(3) top_ok [OF assms(1,2)] by (metis Suc_le_eq insert_DiffM size_add_mset)
  then show "invar (push x (pop q))" "content (push x (pop q)) = add_mset x (content q - {#top q#})"
    using pop_ok [OF assms(1,2)] push_ok [of "pop q" x] by simp_all
qed

end

lemma heap_push_ok:
  assumes "is_heap key h" "length h < cap"
  shows "is_heap key (min_heap_push (\<lambda>a b. key a < key b) cap x h)" "mset (min_heap_push (\<lambda>a b. key a < key b) cap x h) = add_mset x (mset h)"
proof -
  have p: "parent i < length h" if "0 < i" "i < Suc (length h)" for i using parent_less [OF that(1)] that(2) by simp
  have "key ((h @ [x]) ! parent i) \<le> key ((h @ [x]) ! i)" if "0 < i" "i < Suc (length h)" "i \<noteq> length h" for i
    using assms(1) that p [OF that(1,2)] by (simp add: is_heap_def nth_append)
  moreover have "parent i \<noteq> length h" if "0 < i" "i < Suc (length h)" for i using p [OF that] by simp
  ultimately have "heap_up key (length h) (h @ [x])" by (auto simp: heap_up_def)
  then show "is_heap key (min_heap_push (\<lambda>a b. key a < key b) cap x h)"
    using assms(2) by (simp add: min_heap_push_def is_heap_sift_up)
  show "mset (min_heap_push (\<lambda>a b. key a < key b) cap x h) = add_mset x (mset h)"
    using assms(2) by (simp add: min_heap_push_def mset_sift_up)
qed

lemma heap_pop_ok:
  assumes "is_heap key h" "h \<noteq> []"
  shows "is_heap key (min_heap_pop (\<lambda>a b. key a < key b) h)" "mset (min_heap_pop (\<lambda>a b. key a < key b) h) = mset h - {#h ! 0#}"
proof -
  let ?b = "(butlast h)[0 := last h]"
  have "heap_down key 0 ?b"
    unfolding heap_down_def
  proof (intro conjI allI impI)
    fix i assume i: "0 < i" "i < length ?b" "parent i \<noteq> 0"
    then have "parent i < length ?b" using parent_less [OF i(1)] by simp
    then show "key (?b ! parent i) \<le> key (?b ! i)" using assms(1) i by (simp add: is_heap_def nth_butlast)
  qed simp
  then show "is_heap key (min_heap_pop (\<lambda>a b. key a < key b) h)"
    using assms(2) by (simp add: min_heap_pop_def is_heap_min_heapify)
  obtain x xs where h: "h = x # xs" using assms(2) by (cases h) auto
  have "mset ?b = mset h - {#h ! 0#}"
  proof (cases xs rule: rev_cases)
    case (snoc ys y)
    then show ?thesis by (simp add: h)
  qed (simp add: h)
  then show "mset (min_heap_pop (\<lambda>a b. key a < key b) h) = mset h - {#h ! 0#}"
    using assms(2) by (simp add: min_heap_pop_def mset_min_heapify)
qed

interpretation mh: priority_queue "min_heap_push (\<lambda>a b. key a < key b) cap" "min_heap_pop (\<lambda>a b. key a < key b)" "\<lambda>h. h ! 0"
  mset cap key "is_heap key" for key :: "'a \<Rightarrow> 'k::linorder" and cap
proof
  fix h :: "'a list" and x assume h: "is_heap key h"
  show "size (mset h) < cap \<Longrightarrow> is_heap key (min_heap_push (\<lambda>a b. key a < key b) cap x h) \<and>
      mset (min_heap_push (\<lambda>a b. key a < key b) cap x h) = add_mset x (mset h)" using heap_push_ok [OF h] by simp
  show "mset h \<noteq> {#} \<Longrightarrow> is_heap key (min_heap_pop (\<lambda>a b. key a < key b) h) \<and>
      mset (min_heap_pop (\<lambda>a b. key a < key b) h) = mset h - {#h ! 0#}" using heap_pop_ok [OF h] by simp
  show "mset h \<noteq> {#} \<Longrightarrow> h ! 0 \<in># mset h \<and> (\<forall>x \<in># mset h. key (h ! 0) \<le> key x)"
    using heap_root_min [OF h] by (auto simp: in_set_conv_nth nth_mem)
qed

end
