(* ===== verification/Compaction.thy ===== *)
theory Compaction
  imports Bit_Level Bit_Flush Catalogue Min_Heap
begin

text \<open>
  The compaction job (\<open>kway_merge_node_*\<close> and \<open>compaction_job_*\<close> of \<open>lsm_tree.c\<close>): the demoted
  files of one level are merged with the files of the next level they overlap, through a heap of
  iterators, into new files of the next level; a record with the same key in several files
  survives from the file with the greatest version. \<open>None\<close> is a run that does not return: a null
  pointer is followed, an array access is out of bounds, or a loop does not end.
\<close>

section \<open>State\<close>

text \<open>What every call of the tree has at hand: the cipher, whether the allocations of builders, files
  and iterators succeed, the Bloom filter the allocator produces, the contents of fresh memory, and
  the value an uninitialised file number has.\<close>

record lsm_env =
  le_cipher :: aead
  le_ok :: bool
  le_filter :: bloom_filter
  le_junk :: "byte list"
  le_leaf :: bit_leaf
  le_fd :: nat

text \<open>What they change: the index file, the random generator, and the catalogue on its device.\<close>

record lsm_disk =
  ld_file :: bfile
  ld_rng :: rng
  ld_cat :: bit_catalogue
  ld_bm :: block_manager

record kway_merge_node =
  kw_iter :: nat
  kw_key :: u32
  kw_val :: index_record

definition kway_node :: "nat \<Rightarrow> u32 \<times> index_record \<Rightarrow> kway_merge_node" where
  "kway_node i e = \<lparr>kw_iter = i, kw_key = fst e, kw_val = snd e\<rparr>"

definition kway_merge_node_less :: "kway_merge_node \<Rightarrow> kway_merge_node \<Rightarrow> bool" where
  "kway_merge_node_less node1 node2 \<longleftrightarrow> kw_key node1 < kw_key node2"

definition interval_overlapping :: "int \<Rightarrow> int \<Rightarrow> int \<Rightarrow> int \<Rightarrow> bool" where
  "interval_overlapping begin1 end1 begin2 end2 \<longleftrightarrow> \<not> (end1 < begin2 \<or> begin1 > end2)"

definition lsm_file_overlapping :: "bit_file list \<Rightarrow> bool" where
  "lsm_file_overlapping files \<longleftrightarrow>
     (\<exists>f1 \<in> set files. \<exists>f2 \<in> set files. bf_id f1 \<noteq> bf_id f2 \<and>
        interval_overlapping (uint (bf_first_key f1)) (uint (bf_last_key f1)) (uint (bf_first_key f2)) (uint (bf_last_key f2)))"

section \<open>The job\<close>

text \<open>Moving files that overlap nothing: only their version, level and statistics change. The
  results of the calls are ignored.\<close>

definition move_file :: "bit_file \<Rightarrow> bit_level \<times> bit_level \<times> lsm_disk \<Rightarrow> bit_level \<times> bit_level \<times> lsm_disk" where
  "move_file file s =
     (case s of (level1, level2, disk) \<Rightarrow>
        let (version, cat) = bitc_get_next_version (ld_cat disk);
            file' = file\<lparr>bf_version := version, bf_level := lv_level level2\<rparr>;
            bm = snd (bitc_set_file_stats cat (ld_bm disk) (bf_id file') (bit_file_get_stats file'))
        in (snd (bit_level_remove_file level1 (bf_id file')), snd (bit_level_add_file level2 file'),
            disk\<lparr>ld_cat := cat, ld_bm := bm\<rparr>))"

text \<open>A new builder for the next file. When no number is free, \<open>fd\<close> keeps its value.\<close>

definition next_builder :: "lsm_env \<Rightarrow> nat \<Rightarrow> nat \<Rightarrow> lsm_disk \<Rightarrow> (bit_builder \<times> nat \<times> lsm_disk) option" where
  "next_builder env level fd disk =
     (let (r, cat, bm) = bitc_alloc_file (ld_cat disk) (ld_bm disk);
          fd' = (case r of Inl _ \<Rightarrow> fd | Inr x \<Rightarrow> x);
          (version, cat') = bitc_get_next_version cat
      in case bit_builder_create (le_ok env) (le_ok env) (le_ok env) (le_filter env) (le_junk env)
                (cat_start cat' + fd' * cat_file_size cat') fd' level version (ld_rng disk) of
           (None, _) \<Rightarrow> None
         | (Some builder, rng) \<Rightarrow> Some (builder, fd', disk\<lparr>ld_rng := rng, ld_cat := cat', ld_bm := bm\<rparr>))"

text \<open>Completing a file and registering it in the catalogue and in its level.\<close>

definition finish_file :: "lsm_env \<Rightarrow> bit_builder \<Rightarrow> bit_level \<Rightarrow> lsm_disk \<Rightarrow> (bit_level \<times> lsm_disk) option" where
  "finish_file env builder level disk =
     (case bit_builder_complete (le_cipher env) (le_ok env) (le_filter env) (le_leaf env) builder (ld_file disk) (ld_rng disk) of
        (None, _) \<Rightarrow> None
      | (Some file, g, rng) \<Rightarrow>
          let bm = snd (bitc_set_file_stats (ld_cat disk) (ld_bm disk) (bf_id file) (bit_file_get_stats file))
          in Some (snd (bit_level_add_file level file), disk\<lparr>ld_file := g, ld_rng := rng, ld_bm := bm\<rparr>))"

text \<open>The iterators, newest first as \<open>list_add\<close> leaves them.\<close>

fun create_iters :: "lsm_env \<Rightarrow> bfile \<Rightarrow> bit_file list \<Rightarrow> bit_iterator list \<Rightarrow> bit_iterator list option" where
  "create_iters env g [] iters = Some iters"
| "create_iters env g (f # fs) iters =
     (case bit_file_iterator (le_cipher env) (le_ok env) g f of
        Some (Some it) \<Rightarrow> create_iters env g fs (it # iters)
      | _ \<Rightarrow> None)"

record merge_state =
  mg_iters :: "bit_iterator list"
  mg_heap :: "kway_merge_node list"
  mg_distinct :: kway_merge_node
  mg_builder :: bit_builder
  mg_fd :: nat
  mg_level2 :: bit_level
  mg_disk :: lsm_disk

text \<open>Taking the next entry of iterator \<open>i\<close> into the heap, if there is one. \<open>bit_iterator_next\<close> fails
  only when there is none.\<close>

definition feed_heap ::
  "lsm_env \<Rightarrow> bfile \<Rightarrow> nat \<Rightarrow> nat \<Rightarrow> bit_iterator list \<times> kway_merge_node list \<Rightarrow> bit_iterator list \<times> kway_merge_node list" where
  "feed_heap env g cap i s =
     (case s of (iters, hp) \<Rightarrow>
        if bit_iterator_has_next (iters ! i) then
          (case bit_iterator_next (le_cipher env) g (iters ! i) of
             (Inl _, it) \<Rightarrow> (iters[i := it], hp)
           | (Inr e, it) \<Rightarrow> (iters[i := it], min_heap_push kway_merge_node_less cap (kway_node i e) hp))
        else (iters, hp))"

definition node_version :: "bit_iterator list \<Rightarrow> kway_merge_node \<Rightarrow> nat" where
  "node_version iters node = bf_version (it_file (iters ! kw_iter node))"

text \<open>One round of the loop on a heap that is not empty.\<close>

definition merge_step :: "lsm_env \<Rightarrow> merge_state \<Rightarrow> merge_state option" where
  "merge_step env st =
     (let first = mg_heap st ! 0;
          (iters, hp) = feed_heap env (ld_file (mg_disk st)) (length (mg_iters st)) (kw_iter first)
                            (mg_iters st, min_heap_pop kway_merge_node_less (mg_heap st));
          st1 = st\<lparr>mg_iters := iters, mg_heap := hp\<rparr>;
          distinct = mg_distinct st
      in if kw_key distinct = kw_key first then
           Some (if node_version iters distinct < node_version iters first then st1\<lparr>mg_distinct := first\<rparr> else st1)
         else
           case bit_builder_add_entry (le_cipher env) (mg_builder st) (ld_file (mg_disk st)) (ld_rng (mg_disk st))
                  (kw_key distinct, kw_val distinct) of
             None \<Rightarrow> None
           | Some (builder, g, rng) \<Rightarrow>
               let disk = (mg_disk st)\<lparr>ld_file := g, ld_rng := rng\<rparr>;
                   st2 = st1\<lparr>mg_distinct := first, mg_builder := builder, mg_disk := disk\<rparr>
               in if bb_size builder < DEFAULT_LSM_FILE_CAPACITY then Some st2
                  else case finish_file env builder (mg_level2 st) disk of
                         None \<Rightarrow> None
                       | Some (level2, disk') \<Rightarrow>
                           map_option (\<lambda>(builder', fd, disk''). st2\<lparr>mg_builder := builder', mg_fd := fd, mg_level2 := level2, mg_disk := disk''\<rparr>)
                             (next_builder env (lv_level level2) (mg_fd st) disk'))"

partial_function (option) merge_loop :: "lsm_env \<Rightarrow> merge_state \<Rightarrow> merge_state option" where
  "merge_loop env st =
     (if mg_heap st = [] then Some st
      else case merge_step env st of None \<Rightarrow> None | Some st' \<Rightarrow> merge_loop env st')"

definition drop_file :: "bit_file \<Rightarrow> bit_level \<times> lsm_disk \<Rightarrow> bit_level \<times> lsm_disk" where
  "drop_file file s =
     (case s of (level, disk) \<Rightarrow>
        (snd (bit_level_remove_file level (bf_id file)),
         disk\<lparr>ld_bm := snd (bitc_release_file (ld_cat disk) (ld_bm disk) (bf_id file))\<rparr>))"

text \<open>\<open>ok_heap\<close> is the allocation of the heap.\<close>

definition merge_files ::
  "lsm_env \<Rightarrow> bool \<Rightarrow> bit_file list \<Rightarrow> bit_file list \<Rightarrow> bit_level \<times> bit_level \<times> lsm_disk \<Rightarrow>
   (unit result \<times> bit_level \<times> bit_level \<times> lsm_disk) option" where
  "merge_files env ok_heap demoted relative s =
     (case s of (level1, level2, disk) \<Rightarrow>
        case create_iters env (ld_file disk) (demoted @ relative) [] of
          None \<Rightarrow> None
        | Some iters \<Rightarrow>
            if \<not> ok_heap then Some (Inl ENOMEM, level1, level2, disk)
            else let (iters', hp) = fold (feed_heap env (ld_file disk) (length iters)) [0..<length iters] (iters, [])
                 in if hp = [] then None
                    else case next_builder env (lv_level level2) (le_fd env) disk of
                           None \<Rightarrow> None
                         | Some (builder, fd', disk1) \<Rightarrow>
                             (case merge_loop env \<lparr>mg_iters = iters', mg_heap = hp, mg_distinct = hp ! 0, mg_builder = builder,
                                                   mg_fd = fd', mg_level2 = level2, mg_disk = disk1\<rparr> of
                                None \<Rightarrow> None
                              | Some st \<Rightarrow>
                                  (case bit_builder_add_entry (le_cipher env) (mg_builder st) (ld_file (mg_disk st)) (ld_rng (mg_disk st))
                                          (kw_key (mg_distinct st), kw_val (mg_distinct st)) of
                                     None \<Rightarrow> None
                                   | Some (builder', g, rng) \<Rightarrow>
                                       (case finish_file env builder' (mg_level2 st) ((mg_disk st)\<lparr>ld_file := g, ld_rng := rng\<rparr>) of
                                          None \<Rightarrow> None
                                        | Some (level2', disk2) \<Rightarrow>
                                            let (level1', disk3) = fold drop_file demoted (level1, disk2);
                                                (level2'', disk4) = fold drop_file relative (level2', disk3)
                                            in Some (Inr (), level1', level2'', disk4)))))"

definition compaction_job_run ::
  "lsm_env \<Rightarrow> bool \<Rightarrow> bit_level \<times> bit_level \<times> lsm_disk \<Rightarrow> (unit result \<times> bit_level \<times> bit_level \<times> lsm_disk) option" where
  "compaction_job_run env ok_heap s =
     (case s of (level1, level2, disk) \<Rightarrow>
        let demoted = bit_level_pick_demoted_files level1;
            relative = bit_level_find_relative_files level2 demoted
        in if relative = [] \<and> \<not> lsm_file_overlapping demoted
           then (case fold move_file demoted s of s' \<Rightarrow> Some (Inr (), s'))
           else merge_files env ok_heap demoted relative s)"

end
