(* ===== verification/Index_Disk.thy ===== *)
theory Index_Disk
  imports Compaction
begin

text \<open>
  Files on the index device: every number of the catalogue has a region of the device, a file that
  is built under a number stays in its region, and the files of other numbers keep what they hold.
\<close>

section \<open>Regions\<close>

definition region_lo :: "bit_catalogue \<Rightarrow> nat \<Rightarrow> nat" where
  "region_lo cat fd = cat_start cat + fd * cat_file_size cat"

definition region :: "bit_catalogue \<Rightarrow> nat \<Rightarrow> nat set" where
  "region cat fd = {region_lo cat fd ..< region_lo cat fd + cat_file_size cat}"

definition same_regions :: "bit_catalogue \<Rightarrow> bit_catalogue \<Rightarrow> bool" where
  "same_regions cat cat' \<longleftrightarrow> cat_start cat' = cat_start cat \<and> cat_file_size cat' = cat_file_size cat \<and> cat_len cat' = cat_len cat"

text \<open>The records a search finds: those of the full leaves.\<close>

definition indexed :: "(u32 \<times> index_record) list \<Rightarrow> (u32 \<times> index_record) list" where
  "indexed es = take (BIT_LEAF_LEN * (length es div BIT_LEAF_LEN)) es"

definition file_at :: "lsm_env \<Rightarrow> lsm_disk \<Rightarrow> bit_file \<Rightarrow> (u32 \<times> index_record) list \<Rightarrow> bool" where
  "file_at env d f es \<longleftrightarrow>
     (\<exists>hi t tls. bit_file_holds (le_cipher env) (ld_file d) (region_lo (ld_cat d) (bf_id f)) hi f t tls es \<and>
        hi \<le> region_lo (ld_cat d) (bf_id f) + cat_file_size (ld_cat d) \<and> leaves_recs (bt_leaves t) = indexed es)"

definition env_ok :: "lsm_env \<Rightarrow> bool" where
  "env_ok env \<longleftrightarrow> aead_ok (le_cipher env) \<and> le_ok env \<and> bloom_wf (le_filter env) \<and> bsize (le_filter env) = BIT_BLOOM_FILTER_SIZE \<and>
     length (le_junk env) = DEFAULT_LSM_FILE_BUILDER_BUFFER_SIZE"

definition disk_ok :: "lsm_disk \<Rightarrow> bool" where
  "disk_ok d \<longleftrightarrow> cat_inv (ld_cat d, ld_bm d) \<and> cat_file_size (ld_cat d) = lsm_file_size \<and>
     region_lo (ld_cat d) (cat_len (ld_cat d)) + 2 ^ 40 \<le> 2 ^ 64"

definition cat_span :: "bit_catalogue \<Rightarrow> nat set" where
  "cat_span cat = da_span (cat_bits cat) \<union> da_span (file_stats cat)"

text \<open>A change of the disk that leaves the regions where they are and writes no metadata block outside
  the catalogue.\<close>

definition disk_frame :: "lsm_disk \<Rightarrow> lsm_disk \<Rightarrow> bool" where
  "disk_frame d d' \<longleftrightarrow> same_regions (ld_cat d) (ld_cat d') \<and> cat_bits (ld_cat d') = cat_bits (ld_cat d) \<and>
     file_stats (ld_cat d') = file_stats (ld_cat d) \<and> (\<forall>b. b \<notin> cat_span (ld_cat d) \<longrightarrow> bm_buf (ld_bm d') b = bm_buf (ld_bm d) b)"

abbreviation "ld_used d \<equiv> cat_used (ld_cat d, ld_bm d)"

lemma region_lo_same: "same_regions cat cat' \<Longrightarrow> region_lo cat' = region_lo cat" "same_regions cat cat' \<Longrightarrow> region cat' = region cat"
  by (simp_all add: fun_eq_iff region_lo_def region_def same_regions_def)

lemma same_regions_refl [simp]: "same_regions cat cat"
  by (simp add: same_regions_def)

lemma same_regions_trans: "same_regions a b \<Longrightarrow> same_regions b c \<Longrightarrow> same_regions a c"
  by (simp add: same_regions_def)

lemma disk_frame_trans: "disk_frame a b \<Longrightarrow> disk_frame b c \<Longrightarrow> disk_frame a c"
  using same_regions_trans by (auto simp: disk_frame_def cat_span_def)

lemma disk_frame_refl [simp]: "ld_cat d' = ld_cat d \<Longrightarrow> ld_bm d' = ld_bm d \<Longrightarrow> disk_frame d d'"
  by (simp add: disk_frame_def)

lemma regions_disjoint: "i \<noteq> j \<Longrightarrow> region cat i \<inter> region cat j = {}"
proof -
  have "region cat i \<inter> region cat j = {}" if "i < j" for i j
  proof -
    have "Suc i * cat_file_size cat \<le> j * cat_file_size cat" using that by (intro mult_le_mono1) simp
    then show ?thesis by (auto simp: region_def region_lo_def)
  qed
  then show "i \<noteq> j \<Longrightarrow> region cat i \<inter> region cat j = {}" by (metis Int_commute nat_neq_iff)
qed

lemma region_bound:
  assumes "disk_ok d" "fd < cat_len (ld_cat d)"
  shows "region_lo (ld_cat d) fd + 2 ^ 40 \<le> 2 ^ 64" "fd < 2 ^ 64" "region_lo (ld_cat d) fd + cat_file_size (ld_cat d) \<le> 2 ^ 64"
proof -
  have e: "cat_file_size (ld_cat d) = lsm_file_size" using assms(1) by (simp add: disk_ok_def)
  then have b: "cat_start (ld_cat d) + cat_len (ld_cat d) * lsm_file_size + 2 ^ 40 \<le> 2 ^ 64" using assms(1) by (simp add: disk_ok_def region_lo_def)
  have "fd * lsm_file_size + lsm_file_size \<le> cat_len (ld_cat d) * lsm_file_size"
    using mult_le_mono1 [of "Suc fd" "cat_len (ld_cat d)" lsm_file_size] assms(2) by simp
  moreover have "fd \<le> fd * lsm_file_size" by (simp add: lsm_file_size_value)
  ultimately show "region_lo (ld_cat d) fd + 2 ^ 40 \<le> 2 ^ 64" "fd < 2 ^ 64" "region_lo (ld_cat d) fd + cat_file_size (ld_cat d) \<le> 2 ^ 64"
    using e b by (simp_all add: region_lo_def lsm_file_size_value)
qed

lemma file_at_frame:
  assumes "file_at env d f es" "same_regions (ld_cat d) (ld_cat d')" "\<And>a. a \<in> region (ld_cat d) (bf_id f) \<Longrightarrow> ld_file d' a = ld_file d a"
  shows "file_at env d' f es"
proof -
  obtain hi t tls where h: "bit_file_holds (le_cipher env) (ld_file d) (region_lo (ld_cat d) (bf_id f)) hi f t tls es"
    "hi \<le> region_lo (ld_cat d) (bf_id f) + cat_file_size (ld_cat d)" "leaves_recs (bt_leaves t) = indexed es"
    using assms(1) by (auto simp: file_at_def)
  have "bit_file_holds (le_cipher env) (ld_file d') (region_lo (ld_cat d) (bf_id f)) hi f t tls es"
    by (rule bit_file_holds_frame [OF h(1)]) (use h(2) assms(3) in \<open>simp add: region_def\<close>)
  then show ?thesis using h assms(2) unfolding file_at_def region_lo_same [OF assms(2)] by (auto simp: same_regions_def)
qed

lemma file_at_search:
  assumes "aead_ok (le_cipher env)" "file_at env d f es"
  shows "\<exists>f'. bit_file_search (le_cipher env) (ld_file d) f key = Some (found (map_of (indexed es) key), f') \<and> file_at env d f' es \<and> same_file f f'"
proof -
  obtain hi t tls where h: "bit_file_holds (le_cipher env) (ld_file d) (region_lo (ld_cat d) (bf_id f)) hi f t tls es"
    "hi \<le> region_lo (ld_cat d) (bf_id f) + cat_file_size (ld_cat d)" "leaves_recs (bt_leaves t) = indexed es"
    using assms(2) by (auto simp: file_at_def)
  then have "file_view (le_cipher env) (ld_file d) f ((region_lo (ld_cat d) (bf_id f), hi), t, tls, es)" using assms(1) by (simp add: file_view_def)
  from file_view_search [OF this, of key] obtain f' where
    f': "bit_file_search (le_cipher env) (ld_file d) f key = Some (found (map_of (indexed es) key), f')" "same_file f f'"
    "bit_file_holds (le_cipher env) (ld_file d) (region_lo (ld_cat d) (bf_id f)) hi f' t tls es"
    by (auto simp: file_view_def view_map_def h(3))
  then show ?thesis using h same_file_fields(1) [OF f'(2)] by (auto simp: file_at_def)
qed

lemma file_at_range:
  assumes "aead_ok (le_cipher env)" "file_at env d f es" "map_of (indexed es) k = Some v"
  shows "bf_first_key f \<le> k \<and> k \<le> bf_last_key f"
proof -
  obtain hi t tls where h: "bit_file_holds (le_cipher env) (ld_file d) (region_lo (ld_cat d) (bf_id f)) hi f t tls es"
    "leaves_recs (bt_leaves t) = indexed es" using assms(2) by (auto simp: file_at_def)
  then have "file_view (le_cipher env) (ld_file d) f ((region_lo (ld_cat d) (bf_id f), hi), t, tls, es)" using assms(1) by (simp add: file_view_def)
  from file_view_range [OF this, of k v] show ?thesis using h(2) assms(3) by (simp add: view_map_def)
qed

interpretation disk_files: file_search "le_cipher env" "ld_file d" "\<lambda>f es. aead_ok (le_cipher env) \<and> file_at env d f es" "\<lambda>es. map_of (indexed es)"
  by unfold_locales (auto intro: file_at_search dest: file_at_range)

lemma file_at_facts:
  assumes "file_at env d f es"
  shows "sorted_wrt (<) (map fst es)" "es \<noteq> []" "bf_first_key f = fst (hd es)" "bf_last_key f = fst (last es)"
proof -
  obtain hi t tls where h: "bit_file_holds (le_cipher env) (ld_file d) (region_lo (ld_cat d) (bf_id f)) hi f t tls es"
    using assms by (auto simp: file_at_def)
  then have "bt_recs t \<noteq> []" using bt_recs_nonempty by (auto simp: bit_file_holds_def bit_file_ok_def)
  then show "sorted_wrt (<) (map fst es)" "es \<noteq> []" "bf_first_key f = fst (hd es)" "bf_last_key f = fst (last es)"
    using h by (auto simp: bit_file_holds_def bt_recs_leaves)
qed

section \<open>Starting a file\<close>

lemma next_builder_ok:
  assumes env: "env_ok env" and d: "disk_ok d" and free: "ld_used d \<noteq> {..<cat_len (ld_cat d)}"
  obtains builder fd d' p0 where "next_builder env lv fd0 d = Some (builder, fd, d')" "disk_ok d'" "disk_frame d d'"
    "fd < cat_len (ld_cat d)" "fd \<notin> ld_used d" "ld_used d' = insert fd (ld_used d)" "ld_file d' = ld_file d"
    "max_version (ld_cat d') = Suc (max_version (ld_cat d))" "begin_at (region_lo (ld_cat d) fd) builder"
    "binv (le_cipher env) (ld_file d) (region_lo (ld_cat d) fd) (le_filter env) fd lv (max_version (ld_cat d)) (ld_file d) builder [] (replicate 10 []) p0"
proof -
  obtain r cat bm where a: "bitc_alloc_file (ld_cat d) (ld_bm d) = (r, cat, bm)" by (metis prod.collapse)
  have inv: "cat_inv (ld_cat d, ld_bm d)" using d by (simp add: disk_ok_def)
  note A = cat_alloc_ok [OF inv a]
  obtain fd where r: "r = Inr fd" using A(4) free by (cases r) auto
  have "\<exists>vt. cat = (ld_cat d)\<lparr>bit_validity_table := vt\<rparr>" using a by (auto simp: bitc_alloc_file_def split: prod.splits)
  then have c: "cat_start cat = cat_start (ld_cat d)" "cat_file_size cat = cat_file_size (ld_cat d)" "max_version cat = max_version (ld_cat d)"
    by auto
  define cat' where "cat' = cat\<lparr>max_version := max_version cat + 1\<rparr>"
  have c': "same_regions (ld_cat d) cat'" "cat_inv (cat', bm)" "cat_used (cat', bm) = cat_used (cat, bm)"
    using c A(1,2) by (auto simp: cat'_def same_regions_def cat_inv_def cat_bits_def cat_len_def cat_used_def)
  have j: "length (le_junk env) = BUF" using env by (simp add: env_ok_def BUF_def)
  obtain this r1 where b: "bit_builder_create True True True (le_filter env) (le_junk env) (region_lo (ld_cat d) fd) fd lv (max_version cat) (ld_rng d) = (Some this, r1)"
    "binv (le_cipher env) (ld_file d) (region_lo (ld_cat d) fd) (le_filter env) fd lv (max_version cat) (ld_file d) this [] (replicate 10 []) (next_pointer this)"
    by (rule builder_created [OF j]) (rule that)
  have nb: "next_builder env lv fd0 d = Some (this, fd, d\<lparr>ld_rng := r1, ld_cat := cat', ld_bm := bm\<rparr>)"
    using a b(1) r env c by (simp add: next_builder_def bitc_get_next_version_def cat'_def env_ok_def region_lo_def)
  have bb: "begin_at (region_lo (ld_cat d) fd) this"
    using b(1) binv_count(2) [OF b(2)]
    by (auto simp: begin_at_def bit_builder_create_def bit_builder_init_def bit_height_capacity Let_def split: prod.splits if_splits)
  have dk: "disk_ok (d\<lparr>ld_rng := r1, ld_cat := cat', ld_bm := bm\<rparr>)"
    using d c'(1,2) region_lo_same(1) [OF c'(1)] by (simp add: disk_ok_def same_regions_def)
  have fr: "disk_frame d (d\<lparr>ld_rng := r1, ld_cat := cat', ld_bm := bm\<rparr>)"
  proof -
    obtain vt where v: "seg_validator_alloc (bit_validity_table (ld_cat d), ld_bm d) = (r, vt, bm)" "cat = (ld_cat d)\<lparr>bit_validity_table := vt\<rparr>"
      using a by (auto simp: bitc_alloc_file_def split: prod.splits)
    have "sv_inv (bit_validity_table (ld_cat d), ld_bm d)" using inv by (simp add: cat_inv_def)
    from sv_alloc_frame(1,3) [OF this v(1)] show ?thesis
      using c'(1) by (auto simp: disk_frame_def cat_span_def cat_bits_def cat'_def v(2))
  qed
  have mv: "max_version cat' = Suc (max_version (ld_cat d))" using c by (simp add: cat'_def)
  show thesis
    by (rule that [OF nb dk fr _ _ _ _ _ bb]) (use A(4) r c(3) c'(1,3) b(2) mv in auto)
qed

section \<open>Filling and finishing a file\<close>

text \<open>A builder at work on the file of number \<open>fd\<close>; \<open>f0\<close> is the device as it was at its start.\<close>

definition building :: "lsm_env \<Rightarrow> lsm_disk \<Rightarrow> bfile \<Rightarrow> nat \<Rightarrow> nat \<Rightarrow> nat \<Rightarrow> bit_builder \<Rightarrow> (u32 \<times> index_record) list \<Rightarrow> bool" where
  "building env d f0 fd lv v builder es \<longleftrightarrow>
     (\<exists>T p0. binv (le_cipher env) f0 (region_lo (ld_cat d) fd) (le_filter env) fd lv v (ld_file d) builder es T p0) \<and>
     begin_at (region_lo (ld_cat d) fd) builder"

lemma building_size: "building env d f0 fd lv v builder es \<Longrightarrow> bb_size builder = length es"
  by (auto simp: building_def binv_def meta_inv_def bb_meta_def)

lemma building_outside:
  assumes "building env d f0 fd lv v builder es" "disk_ok d" "length es \<le> DEFAULT_LSM_FILE_CAPACITY" "a \<notin> region (ld_cat d) fd"
  shows "ld_file d a = f0 a"
proof -
  obtain T p0 where b: "binv (le_cipher env) f0 (region_lo (ld_cat d) fd) (le_filter env) fd lv v (ld_file d) builder es T p0"
    using assms(1) by (auto simp: building_def)
  then have l: "log_inv (le_cipher env) f0 (region_lo (ld_cat d) fd) (ld_file d) builder T p0" by (simp add: binv_def)
  have "wsum (bb_ctx builder) \<le> NLEAF"
    using binv_count(2) [OF b] assms(3) by (simp add: NLEAF_def BIT_LEAF_LEN_def DEFAULT_LSM_FILE_CAPACITY_def)
  from log_inv_pos [OF l this] show ?thesis
    using l assms(2,4) by (auto simp: log_inv_def region_def disk_ok_def lsm_file_size_value)
qed

lemma building_add:
  assumes env: "env_ok env" and d: "disk_ok d" "fd < cat_len (ld_cat d)" and b: "building env d f0 fd lv v builder es"
    and e: "wf_record (snd e)" "length es < DEFAULT_LSM_FILE_CAPACITY"
  obtains builder' g r where "bit_builder_add_entry (le_cipher env) builder (ld_file d) (ld_rng d) e = Some (builder', g, r)"
    "building env (d\<lparr>ld_file := g, ld_rng := r\<rparr>) f0 fd lv v builder' (es @ [e])"
proof -
  let ?lo = "region_lo (ld_cat d) fd"
  obtain T p0 where i: "binv (le_cipher env) f0 ?lo (le_filter env) fd lv v (ld_file d) builder es T p0" and bg: "begin_at ?lo builder"
    using b by (auto simp: building_def)
  have c: "aead_ok (le_cipher env)" using env by (simp add: env_ok_def)
  obtain builder' g r T' where a: "bit_builder_add_entry (le_cipher env) builder (ld_file d) (ld_rng d) e = Some (builder', g, r)"
    "binv (le_cipher env) f0 ?lo (le_filter env) fd lv v g builder' (es @ [e]) T' p0"
    using add_entry_ok [OF c region_bound(1) [OF d] i, of "snd e" "ld_rng d" "fst e"] e by auto
  from add_entry_begin_at [OF a(1) i a(2) bg] show thesis
    using a by (intro that [of builder' g r]) (auto simp: building_def)
qed

lemma finish_file_ok:
  assumes env: "env_ok env" and d: "disk_ok d" "fd < cat_len (ld_cat d)" and b: "building env d f0 fd lv v builder es"
    and es: "safe_count (length es)" "sorted_wrt (<) (map fst es)" and lv: "lv < 2 ^ 64" "v < 2 ^ 64"
  obtains f d' where "finish_file env builder level d = Some (snd (bit_level_add_file level f), d')" "disk_ok d'" "ld_cat d' = ld_cat d" "disk_frame d d'"
    "ld_used d' = ld_used d" "file_at env d' f es" "bf_id f = fd" "bf_level f = lv" "bf_version f = v"
    "\<And>a. a \<notin> region (ld_cat d) fd \<Longrightarrow> ld_file d' a = f0 a"
proof -
  let ?lo = "region_lo (ld_cat d) fd"
  obtain T p0 where i: "binv (le_cipher env) f0 ?lo (le_filter env) fd lv v (ld_file d) builder es T p0" and bg: "begin_at ?lo builder"
    using b by (auto simp: building_def)
  have c: "aead_ok (le_cipher env)" "le_ok env" "bloom_wf (le_filter env)" "bsize (le_filter env) = BIT_BLOOM_FILTER_SIZE"
    using env by (simp_all add: env_ok_def)
  have n: "BIT_LEAF_LEN \<le> length es" "length es \<le> DEFAULT_LSM_FILE_CAPACITY" using es(1) by (simp_all add: safe_count_def)
  obtain f g r t tls hi where C: "bit_builder_complete (le_cipher env) True (le_filter env) (le_leaf env) builder (ld_file d) (ld_rng d) = (Some f, g, r)"
    "bit_file_holds (le_cipher env) g ?lo hi f t tls es" "leaves_recs (bt_leaves t) = indexed es"
    "(bf_id f, bf_level f, bf_version f) = (fd, lv, v)" "hi \<le> ?lo + 572 * (length es div BIT_LEAF_LEN) + 2210"
    "\<forall>a. a < ?lo \<or> hi + bsize (le_filter env) \<le> a \<longrightarrow> g a = f0 a" "wf_pointer (root_pointer f)"
    using complete_ok [OF c(1) region_bound(1) [OF d] i n safe_not_full [OF i bg es(1)] es(2) c(3), of "le_leaf env" "ld_rng d"]
    unfolding indexed_def by blast
  have hi: "hi + bsize (le_filter env) \<le> ?lo + lsm_file_size"
    using C(5) n(2) by (simp add: c(4) BIT_BLOOM_FILTER_SIZE_def DEFAULT_LSM_FILE_CAPACITY_def BIT_LEAF_LEN_def lsm_file_size_value)
  have sz: "cat_file_size (ld_cat d) = lsm_file_size" and inv: "cat_inv (ld_cat d, ld_bm d)" using d(1) by (simp_all add: disk_ok_def)
  have fb: "bf_filter_begin f = bf_root f + BIT_INNER_NODE_SIZE"
    using C(1) by (auto simp: bit_builder_complete_def bit_file_create_def bit_file_init_def Let_def split: prod.splits)
  have "bt_ok (le_cipher env) g ?lo hi t" "\<not> bt_is_leaf t" "bt_ptr t = root_pointer f" using C(2) by (auto simp: bit_file_holds_def bit_file_ok_def)
  then have "bf_root f + BIT_INNER_NODE_SIZE \<le> hi" by (cases t) (simp_all add: root_pointer_def)
  then have st: "fs_ok (bit_file_get_stats f)"
    using C(4,7) fb hi lv region_bound [OF d] sz c(4)
    by (simp add: fs_ok_def bit_file_get_stats_def root_pointer_def wf_pointer_def BIT_BLOOM_FILTER_SIZE_def DEFAULT_LSM_FILE_CAPACITY_def)
  obtain r' bm where s: "bitc_set_file_stats (ld_cat d) (ld_bm d) fd (bit_file_get_stats f) = (r', bm)" by (metis prod.collapse)
  note S = cat_set_ok [OF inv d(2) st s]
  let ?d = "d\<lparr>ld_file := g, ld_rng := r, ld_bm := bm\<rparr>"
  have ff: "finish_file env builder level d = Some (snd (bit_level_add_file level f), ?d)"
    using C(1,4) s c(2) by (simp add: finish_file_def)
  have fa: "file_at env ?d f es" unfolding file_at_def using C(2,3,4) hi sz by (intro exI [of _ hi] exI [of _ t] exI [of _ tls]) auto
  have fr: "g a = f0 a" if "a \<notin> region (ld_cat d) fd" for a
  proof -
    have "a < ?lo \<or> ?lo + lsm_file_size \<le> a" using that sz by (auto simp: region_def)
    then show ?thesis using C(6) hi by auto
  qed
  have da: "da_inv (file_stats (ld_cat d)) (ld_bm d)" "length (fs_enc (bit_file_get_stats f)) = da_entry_size (file_stats (ld_cat d))"
    using inv length_fs_enc [OF st] by (simp_all add: cat_inv_def da_sized_def)
  have df: "disk_frame d ?d"
    using disk_array_set_span [OF da] s by (auto simp: disk_frame_def cat_span_def bitc_set_file_stats_def)
  show thesis by (rule that [OF ff _ _ df _ fa]) (use S d(1) C(4) fr in \<open>simp_all add: disk_ok_def\<close>)
qed

end
