(* ===== verification/Lsm_Tree.thy ===== *)
theory Lsm_Tree
  imports Index_Disk Memtable
begin

text \<open>
  The log-structured merge tree (\<open>lsm_tree_*\<close> of \<open>lsm_tree.c\<close>): a memtable in front of the levels
  of files. \<open>None\<close> is a call that does not return, as in the compaction.
\<close>

section \<open>The tree\<close>

definition DEFAULT_MEMTABLE_CAPACITY :: nat where "DEFAULT_MEMTABLE_CAPACITY = DEFAULT_LSM_FILE_CAPACITY"

record lsm_tree =
  tr_memtable :: "index_record rbtree_memtable"
  tr_levels :: "bit_level list"
  tr_disk :: lsm_disk

text \<open>\<open>ok_job\<close> and \<open>ok_heap\<close> are the allocations of the job and of its heap. The result of the inner
  call is ignored.\<close>

function lsm_tree_major_compaction ::
  "lsm_env \<Rightarrow> bool \<Rightarrow> bool \<Rightarrow> nat \<Rightarrow> bit_level list \<Rightarrow> lsm_disk \<Rightarrow> (unit result \<times> bit_level list \<times> lsm_disk) option" where
  "lsm_tree_major_compaction env ok_job ok_heap level levels disk =
     (if length levels \<le> level + 1 then None
      else case (if bit_level_is_full (levels ! (level + 1))
                 then map_option snd (lsm_tree_major_compaction env ok_job ok_heap (level + 1) levels disk)
                 else Some (levels, disk)) of
             None \<Rightarrow> None
           | Some (levels', disk') \<Rightarrow>
               if \<not> ok_job then None
               else map_option (\<lambda>(r, level1, level2, disk''). (r, levels'[level := level1, level + 1 := level2], disk''))
                      (compaction_job_run env ok_heap (levels' ! level, levels' ! (level + 1), disk')))"
  by pat_completeness auto
termination by (relation "measure (\<lambda>(_, _, _, level, levels, _). length levels - level)") auto

declare lsm_tree_major_compaction.simps [simp del]

definition lsm_tree_minor_compaction :: "lsm_env \<Rightarrow> bool \<Rightarrow> bool \<Rightarrow> lsm_tree \<Rightarrow> lsm_tree option" where
  "lsm_tree_minor_compaction env ok_job ok_heap this =
     (case (if bit_level_is_full (tr_levels this ! 0)
            then map_option snd (lsm_tree_major_compaction env ok_job ok_heap 0 (tr_levels this) (tr_disk this))
            else Some (tr_levels this, tr_disk this)) of
        None \<Rightarrow> None
      | Some (levels, disk) \<Rightarrow>
          let entries = rbtree_memtable_get_all_entry (tr_memtable this)
          in case next_builder env 0 (le_fd env) disk of
               None \<Rightarrow> None
             | Some (builder, _, disk1) \<Rightarrow>
                 (case add_entries (le_cipher env) builder (ld_file disk1) (ld_rng disk1)
                         (map (\<lambda>e. (me_key e, me_val e)) entries) of
                    None \<Rightarrow> None
                  | Some (builder', g, rng) \<Rightarrow>
                      map_option
                        (\<lambda>(level0, disk2). \<lparr>tr_memtable = snd (rbtree_memtable_clear (tr_memtable this)),
                                            tr_levels = levels[0 := level0], tr_disk = disk2\<rparr>)
                        (finish_file env builder' (levels ! 0) (disk1\<lparr>ld_file := g, ld_rng := rng\<rparr>))))"

text \<open>The loop over the levels, from the memtable down.\<close>

fun search_levels :: "aead \<Rightarrow> bfile \<Rightarrow> u32 \<Rightarrow> bit_level list \<Rightarrow> (index_record result \<times> bit_level list) option" where
  "search_levels c g key [] = Some (Inl ENODATA, [])"
| "search_levels c g key (level # levels) =
     (case bit_level_search c g level key of
        None \<Rightarrow> None
      | Some (Inr val, level') \<Rightarrow> Some (Inr val, level' # levels)
      | Some (Inl _, level') \<Rightarrow> map_option (\<lambda>(r, levels'). (r, level' # levels')) (search_levels c g key levels))"

definition lsm_tree_search :: "lsm_env \<Rightarrow> lsm_tree \<Rightarrow> u32 \<Rightarrow> (index_record result \<times> lsm_tree) option" where
  "lsm_tree_search env this key =
     (case rbtree_memtable_get (tr_memtable this) key of
        Inr record \<Rightarrow> Some (Inr record, this)
      | Inl _ \<Rightarrow> map_option (\<lambda>(r, levels). (r, this\<lparr>tr_levels := levels\<rparr>))
                   (search_levels (le_cipher env) (ld_file (tr_disk this)) key (tr_levels this)))"

text \<open>\<open>ok\<close> is the allocation of the memtable entry.\<close>

definition lsm_tree_put :: "lsm_env \<Rightarrow> bool \<Rightarrow> bool \<Rightarrow> bool \<Rightarrow> lsm_tree \<Rightarrow> u32 \<Rightarrow> index_record \<Rightarrow> lsm_tree option" where
  "lsm_tree_put env ok ok_job ok_heap this key val =
     (let this' = this\<lparr>tr_memtable := snd (rbtree_memtable_put ok (tr_memtable this) key val True)\<rparr>
      in if rt_size (tr_memtable this') \<ge> DEFAULT_MEMTABLE_CAPACITY then lsm_tree_minor_compaction env ok_job ok_heap this'
         else Some this')"

text \<open>Destroying the tree writes the memtable out; what remains is the disk.\<close>

definition lsm_tree_destroy :: "lsm_env \<Rightarrow> bool \<Rightarrow> bool \<Rightarrow> lsm_tree \<Rightarrow> lsm_disk option" where
  "lsm_tree_destroy env ok_job ok_heap this =
     (if rt_size (tr_memtable this) \<noteq> 0
      then map_option tr_disk (lsm_tree_minor_compaction env ok_job ok_heap this)
      else Some (tr_disk this))"

section \<open>Creation\<close>

text \<open>The deep levels, from the last one up: the capacity shrinks by the common ratio. \<open>junk\<close> is the
  content of the new arrays.\<close>

fun deep_levels :: "bit_file list \<Rightarrow> nat \<Rightarrow> nat \<Rightarrow> nat \<Rightarrow> bit_level list option" where
  "deep_levels junk ratio 0 cap = Some []"
| "deep_levels junk ratio (Suc i) cap =
     (case bit_level_create True True junk (Suc i) cap of
        None \<Rightarrow> None
      | Some level \<Rightarrow> map_option (\<lambda>levels. levels @ [level]) (deep_levels junk ratio i (cap div ratio)))"

definition load_file :: "lsm_env \<Rightarrow> bfile \<Rightarrow> bit_level list option \<Rightarrow> file_stat \<Rightarrow> bit_level list option" where
  "load_file env g levels stat =
     (case levels of
        None \<Rightarrow> None
      | Some ls \<Rightarrow>
          if length ls \<le> fs_level stat then None
          else map_option (\<lambda>file. ls[fs_level stat := snd (bit_level_add_file (ls ! fs_level stat) file)])
                 (bit_file_create (le_ok env) (le_filter env) (le_leaf env) g (fs_root stat) (fs_id stat) (fs_level stat)
                    (fs_version stat) (fs_first_key stat) (fs_last_key stat) (fs_root_key stat) (fs_root_iv stat)
                    (fs_filter_begin stat)))"

text \<open>\<open>ok_file\<close> and \<open>ok_levels\<close> say whether the index device opens and the array of levels is
  allocated; a memtable or a level that is not allocated is a null pointer the next call follows.\<close>

definition lsm_tree_init ::
  "lsm_env \<Rightarrow> bool \<Rightarrow> bool \<Rightarrow> bit_file list \<Rightarrow> (nat \<Rightarrow> bool) \<Rightarrow> lsm_disk \<Rightarrow> lsm_tree result option" where
  "lsm_tree_init env ok_file ok_levels junk oks disk =
     (let cat = ld_cat disk
      in if \<not> ok_file then Some (Inl EINVAL)
         else if \<not> ok_levels then Some (Inl ENOMEM)
         else if cat_nr_disk_level cat = 0 then None
         else case rbtree_memtable_create (le_ok env) of
           None \<Rightarrow> None
         | Some memtable \<Rightarrow>
             (case deep_levels junk (cat_common_ratio cat) (cat_nr_disk_level cat - 1) (cat_max_level_nr_file cat) of
                None \<Rightarrow> None
              | Some deep \<Rightarrow>
                  (case bit_level_create True True junk 0 DEFAULT_LSM_LEVEL0_NR_FILE of
                     None \<Rightarrow> None
                   | Some level0 \<Rightarrow>
                       map_option (\<lambda>levels. Inr \<lparr>tr_memtable = memtable, tr_levels = levels, tr_disk = disk\<rparr>)
                         (foldl (load_file env (ld_file disk)) (Some (level0 # deep))
                            (snd (bitc_get_all_file_stats oks cat (ld_bm disk)))))))"

definition lsm_tree_create ::
  "lsm_env \<Rightarrow> bool \<Rightarrow> bool \<Rightarrow> bool \<Rightarrow> bit_file list \<Rightarrow> (nat \<Rightarrow> bool) \<Rightarrow> lsm_disk \<Rightarrow> lsm_tree option option" where
  "lsm_tree_create env ok ok_file ok_levels junk oks disk =
     (if \<not> ok then Some None
      else map_option (\<lambda>r. case r of Inl _ \<Rightarrow> None | Inr this \<Rightarrow> Some this)
             (lsm_tree_init env ok_file ok_levels junk oks disk))"

section \<open>What the tree holds\<close>

text \<open>A level whose files hold \<open>ess\<close>. In level 0 the files have different versions, in the others their
  key ranges follow one another.\<close>

definition level_at :: "lsm_env \<Rightarrow> lsm_disk \<Rightarrow> nat \<Rightarrow> bit_level \<Rightarrow> (u32 \<times> index_record) list list \<Rightarrow> bool" where
  "level_at env d i lv ess \<longleftrightarrow> level_ok lv \<and> lv_level lv = i \<and> lv_capacity lv \<le> lv_max_size lv \<and>
     sorted (map file_rank (level_files lv)) \<and>
     list_all2 (file_at env d) (level_files lv) ess \<and>
     (\<forall>f \<in> set (level_files lv). bf_id f \<in> ld_used d \<and> bf_version f < max_version (ld_cat d)) \<and>
     (if i = 0 then distinct (level_versions lv) else disjoint_files (level_files lv))"

definition level_map :: "bit_level \<Rightarrow> (u32 \<times> index_record) list list \<Rightarrow> u32 \<rightharpoonup> index_record" where
  "level_map lv ess = newest (zip (level_versions lv) (map (map_of \<circ> indexed) ess))"

fun levels_map :: "bit_level list \<Rightarrow> (u32 \<times> index_record) list list list \<Rightarrow> u32 \<rightharpoonup> index_record" where
  "levels_map (lv # lvs) (ess # esss) = levels_map lvs esss ++ level_map lv ess"
| "levels_map _ _ = Map.empty"

definition lsm_map :: "lsm_tree \<Rightarrow> (u32 \<times> index_record) list list list \<Rightarrow> u32 \<rightharpoonup> index_record" where
  "lsm_map this esss = levels_map (tr_levels this) esss ++ rt_map (tr_memtable this)"

definition level_id_list :: "bit_level \<Rightarrow> nat list" where
  "level_id_list lv = map bf_id (level_files lv)"

definition levels_at :: "lsm_env \<Rightarrow> lsm_disk \<Rightarrow> bit_level list \<Rightarrow> (u32 \<times> index_record) list list list \<Rightarrow> bool" where
  "levels_at env d lvs esss \<longleftrightarrow> length esss = length lvs \<and> (\<forall>i < length lvs. level_at env d i (lvs ! i) (esss ! i)) \<and>
     distinct (concat (map level_id_list lvs))"

definition tree_inv :: "lsm_env \<Rightarrow> lsm_tree \<Rightarrow> (u32 \<times> index_record) list list list \<Rightarrow> bool" where
  "tree_inv env this esss \<longleftrightarrow> env_ok env \<and> disk_ok (tr_disk this) \<and> tr_levels this \<noteq> [] \<and>
     rt_inv (tr_memtable this) \<and> rt_size (tr_memtable this) < DEFAULT_MEMTABLE_CAPACITY \<and>
     (\<forall>r \<in> ran (rt_map (tr_memtable this)). wf_record r) \<and> levels_at env (tr_disk this) (tr_levels this) esss"

section \<open>Searching\<close>

lemma level_search_ok:
  assumes c: "aead_ok (le_cipher env)" and lv: "level_at env d i lv ess"
  obtains lv' where "bit_level_search (le_cipher env) (ld_file d) lv key = Some (found (level_map lv ess key), lv')"
    "level_at env d i lv' ess" "level_map lv' ess = level_map lv ess" "same_level lv lv'"
proof -
  let ?V = "\<lambda>f es. aead_ok (le_cipher env) \<and> file_at env d f es"
  have L: "level_ok lv" "lv_level lv = i" and v: "level_view ?V lv ess"
    using c lv by (auto simp: level_at_def level_view_def list_all2_conv_all_nth)
  obtain lv' where r: "bit_level_search (le_cipher env) (ld_file d) lv key = Some (found (level_map lv ess key), lv')"
    "same_level lv lv'" "level_view ?V lv' ess"
  proof (cases "i = 0")
    case True
    then have "distinct (level_versions lv)" using lv by (simp add: level_at_def)
    from disk_files.linear_search_ok [OF L(1) v this, of key] show thesis
      using that True L(2) by (auto simp: bit_level_search_def level_map_def comp_def)
  next
    case False
    then have "disjoint_files (level_files lv)" "lv_level lv \<noteq> 0" using lv L(2) by (simp_all add: level_at_def)
    from disk_files.deep_search_ok [OF L(1) v this, of key] show thesis using that by (auto simp: level_map_def comp_def)
  qed
  note S = same_level_facts [OF r(2)]
  have ids: "bf_id f \<in> ld_used d \<and> bf_version f < max_version (ld_cat d)" if f: "f \<in> set (level_files lv')" for f
  proof -
    have "bf_id f \<in> bf_id ` set (level_files lv)" "bf_version f \<in> bf_version ` set (level_files lv)"
      using f S(4,7) by (metis image_eqI list.set_map, metis image_eqI level_versions_def list.set_map)
    then show ?thesis using lv by (auto simp: level_at_def)
  qed
  have "level_at env d i lv' ess"
    using lv r(3) S ids r(2) by (auto simp: level_at_def level_view_def list_all2_conv_all_nth same_level_def)
  moreover have "level_map lv' ess = level_map lv ess" using S(4) by (simp add: level_map_def)
  ultimately show thesis using r(1,2) by (intro that)
qed

text \<open>Replacing levels by levels with the same files.\<close>

lemma levels_map_cong:
  "length lvs' = length lvs \<Longrightarrow> (\<And>i. i < length lvs \<Longrightarrow> level_map (lvs' ! i) (esss ! i) = level_map (lvs ! i) (esss ! i)) \<Longrightarrow>
   length esss = length lvs \<Longrightarrow> levels_map lvs' esss = levels_map lvs esss"
proof (induction lvs arbitrary: lvs' esss)
  case (Cons lv lvs)
  obtain lv' lvs'' where a: "lvs' = lv' # lvs''" using Cons.prems(1) by (cases lvs') auto
  obtain ess esss' where b: "esss = ess # esss'" using Cons.prems(3) by (cases esss) auto
  have "level_map lv' ess = level_map lv ess" using Cons.prems(2) [of 0] by (simp add: a b)
  moreover have "levels_map lvs'' esss' = levels_map lvs esss'"
    using Cons.prems(1,3) Cons.prems(2) [of "Suc _"] by (intro Cons.IH) (auto simp: a b)
  ultimately show ?case by (simp add: a b)
qed simp

lemma search_levels_ok:
  assumes c: "aead_ok (le_cipher env)"
  shows "length esss = length lvs \<Longrightarrow> (\<And>i. i < length lvs \<Longrightarrow> level_at env d (k + i) (lvs ! i) (esss ! i)) \<Longrightarrow>
    \<exists>lvs'. search_levels (le_cipher env) (ld_file d) key lvs = Some (found (levels_map lvs esss key), lvs') \<and> list_all2 same_level lvs lvs' \<and>
      (\<forall>i < length lvs. level_at env d (k + i) (lvs' ! i) (esss ! i) \<and> level_map (lvs' ! i) (esss ! i) = level_map (lvs ! i) (esss ! i))"
proof (induction lvs arbitrary: esss k)
  case Nil
  then show ?case by (simp add: found_def)
next
  case (Cons lv lvs)
  obtain ess esss' where e: "esss = ess # esss'" using Cons.prems(1) by (cases esss) auto
  have l0: "level_at env d k lv ess" using Cons.prems(2) [of 0] by (simp add: e)
  have ls: "level_at env d (Suc k + i) (lvs ! i) (esss' ! i)" if "i < length lvs" for i using Cons.prems(2) [of "Suc i"] that by (simp add: e)
  obtain lv' where r: "bit_level_search (le_cipher env) (ld_file d) lv key = Some (found (level_map lv ess key), lv')"
    "level_at env d k lv' ess" "level_map lv' ess = level_map lv ess" "same_level lv lv'" by (rule level_search_ok [OF c l0]) (rule that)
  have refl: "same_level (lvs ! i) (lvs ! i)" if "i < length lvs" for i using ls [OF that] by (auto simp: level_at_def intro: same_level_refl)
  show ?case
  proof (cases "level_map lv ess key")
    case None
    obtain lvs' where IH: "search_levels (le_cipher env) (ld_file d) key lvs = Some (found (levels_map lvs esss' key), lvs')" "list_all2 same_level lvs lvs'"
      "\<forall>i < length lvs. level_at env d (Suc k + i) (lvs' ! i) (esss' ! i) \<and> level_map (lvs' ! i) (esss' ! i) = level_map (lvs ! i) (esss' ! i)"
      using Cons.IH [of esss' "Suc k"] ls Cons.prems(1) by (auto simp: e)
    then show ?thesis using None r
      by (intro exI [of _ "lv' # lvs'"]) (auto simp: e found_def map_add_at less_Suc_eq_0_disj)
  next
    case (Some v)
    then show ?thesis using r ls refl
      by (intro exI [of _ "lv' # lvs"]) (auto simp: e found_def map_add_at less_Suc_eq_0_disj list_all2_conv_all_nth)
  qed
qed

lemma lsm_search_ok:
  assumes "tree_inv env this esss"
  obtains this' where "lsm_tree_search env this key = Some (found (lsm_map this esss key), this')" "tree_inv env this' esss"
    "lsm_map this' esss = lsm_map this esss" "tr_memtable this' = tr_memtable this" "tr_disk this' = tr_disk this"
    "list_all2 same_level (tr_levels this) (tr_levels this')"
proof -
  let ?lvs = "tr_levels this" and ?d = "tr_disk this"
  have c: "aead_ok (le_cipher env)" and rt: "rt_inv (tr_memtable this)" using assms by (simp_all add: tree_inv_def env_ok_def)
  have L: "length esss = length ?lvs" "\<And>i. i < length ?lvs \<Longrightarrow> level_at env ?d (0 + i) (?lvs ! i) (esss ! i)"
    using assms by (simp_all add: tree_inv_def levels_at_def)
  have g: "rbtree_memtable_get (tr_memtable this) key = found (rt_map (tr_memtable this) key)"
    using rt by (simp add: rbtree_memtable_get_def rt_map_def rt_inv_def tree_ok_def search_tree_map found_def)
  obtain lvs' where S: "search_levels (le_cipher env) (ld_file ?d) key ?lvs = Some (found (levels_map ?lvs esss key), lvs')"
    "list_all2 same_level ?lvs lvs'"
    "\<forall>i < length ?lvs. level_at env ?d i (lvs' ! i) (esss ! i) \<and> level_map (lvs' ! i) (esss ! i) = level_map (?lvs ! i) (esss ! i)"
    using search_levels_ok [OF c L, of key] by auto
  have len: "length lvs' = length ?lvs" using S(2) by (simp add: list_all2_lengthD)
  show thesis
  proof (cases "rt_map (tr_memtable this) key")
    case None
    have "map level_id_list lvs' = map level_id_list ?lvs"
      using S(2) same_level_facts(7) by (auto simp: list_all2_conv_all_nth level_id_list_def intro!: nth_equalityI)
    then have "tree_inv env (this\<lparr>tr_levels := lvs'\<rparr>) esss"
      using assms len S(3) by (auto simp: tree_inv_def levels_at_def)
    moreover have "lsm_map (this\<lparr>tr_levels := lvs'\<rparr>) esss = lsm_map this esss"
      using levels_map_cong [OF len, of esss] S(3) L(1) by (simp add: lsm_map_def)
    ultimately show thesis using None g S(1,2)
      by (intro that [of "this\<lparr>tr_levels := lvs'\<rparr>"]) (simp_all add: lsm_tree_search_def lsm_map_def map_add_at found_def)
  next
    case (Some v)
    have "list_all2 same_level ?lvs ?lvs" using L(2) by (auto simp: list_all2_conv_all_nth level_at_def intro: same_level_refl)
    then show thesis using Some g assms
      by (intro that [of this]) (simp_all add: lsm_tree_search_def lsm_map_def map_add_at found_def)
  qed
qed

section \<open>Writing out the memtable\<close>

lemma list_all2_insert_nth: "list_all2 P xs ys \<Longrightarrow> P x y \<Longrightarrow> list_all2 P (insert_nth i x xs) (insert_nth i y ys)"
  by (simp add: insert_nth_def list_all2_appendI list_all2_takeI list_all2_dropI)

lemma zip_insert_nth: "length xs = length ys \<Longrightarrow> zip (insert_nth i x xs) (insert_nth i y ys) = insert_nth i (x, y) (zip xs ys)"
  by (simp add: insert_nth_def zip_append take_zip drop_zip)

lemma map_insert_nth: "map h (insert_nth i x xs) = insert_nth i (h x) (map h xs)"
  by (simp add: insert_nth_def take_map drop_map)

lemma distinct_insert_nth: "distinct (insert_nth i x xs) \<longleftrightarrow> x \<notin> set xs \<and> distinct xs"
  using mset_insert_nth [of i x xs] by (metis distinct.simps(2) mset.simps(2) mset_eq_imp_distinct_iff)

text \<open>A file with a newer version than all others decides first.\<close>

lemma newest_insert:
  assumes d: "distinct (map fst ps)" and v: "\<forall>p \<in> set ps. fst p < v"
  shows "newest (insert_nth i (v, m) ps) = newest ps ++ m"
proof
  fix k
  let ?qs = "insert_nth i (v, m) ps"
  have dq: "distinct (map fst ?qs)" using d v by (auto simp: map_insert_nth distinct_insert_nth)
  have iff: "newest ?qs k = Some x \<longleftrightarrow> (newest ps ++ m) k = Some x" for x
  proof (cases "m k")
    case None
    then show ?thesis using v by (auto simp: newest_iff [OF dq] newest_iff [OF d] map_add_at)
  next
    case (Some y)
    then show ?thesis using v by (fastforce simp: newest_iff [OF dq] map_add_at)
  qed
  show "newest ?qs k = (newest ps ++ m) k" using iff by (metis not_None_eq)
qed

lemma level_at_frame:
  assumes "level_at env d i lv ess" "same_regions (ld_cat d) (ld_cat d')" "ld_used d \<subseteq> ld_used d'" "max_version (ld_cat d) \<le> max_version (ld_cat d')"
    and "\<And>f a. f \<in> set (level_files lv) \<Longrightarrow> a \<in> region (ld_cat d) (bf_id f) \<Longrightarrow> ld_file d' a = ld_file d a"
  shows "level_at env d' i lv ess"
proof -
  have "file_at env d' f es" if "f \<in> set (level_files lv)" "file_at env d f es" for f es
    using that(2) assms(2) by (rule file_at_frame) (rule assms(5) [OF that(1)])
  then have "list_all2 (file_at env d') (level_files lv) ess" using assms(1) by (auto simp: level_at_def list_all2_conv_all_nth)
  then show ?thesis using assms(1,3,4) by (auto simp: level_at_def)
qed

text \<open>A new file in level 0.\<close>

lemma level0_add:
  assumes lv: "level_at env d 0 lv ess" and room: "lv_size lv < lv_max_size lv"
    and f: "file_at env d f es" "bf_id f \<in> ld_used d" "\<forall>f' \<in> set (level_files lv). bf_version f' < bf_version f"
      "bf_version f < max_version (ld_cat d)"
  obtains lv' ess' where "snd (bit_level_add_file lv f) = lv'" "level_at env d 0 lv' ess'"
    "level_map lv' ess' = level_map lv ess ++ map_of (indexed es)" "lv_size lv' = Suc (lv_size lv)" "lv_capacity lv' = lv_capacity lv"
    "mset (level_id_list lv') = add_mset (bf_id f) (mset (level_id_list lv))"
proof -
  have ok: "level_ok lv" "sorted (map file_rank (level_files lv))" using lv by (simp_all add: level_at_def)
  obtain lv' pos where a: "bit_level_add_file lv f = (Inr (), lv')" "level_ok lv'" "lv_level lv' = lv_level lv"
    "lv_capacity lv' = lv_capacity lv" "lv_max_size lv' = lv_max_size lv" "lv_size lv' = Suc (lv_size lv)"
    "level_files lv' = insert_nth pos f (level_files lv)" "sorted (map file_rank (level_files lv'))"
    by (rule add_file_ok [OF ok(1) room ok(2), of f]) (rule that)
  let ?e = "insert_nth pos es ess"
  have l2: "list_all2 (file_at env d) (level_files lv) ess" using lv by (simp add: level_at_def)
  have vs: "level_versions lv' = insert_nth pos (bf_version f) (level_versions lv)" by (simp add: level_versions_def a(7) map_insert_nth)
  have dv: "distinct (level_versions lv)" using lv by (simp add: level_at_def)
  have dv': "distinct (level_versions lv')" unfolding vs distinct_insert_nth using dv f(3) by (auto simp: level_versions_def)
  have len: "length (level_versions lv) = length (map (map_of \<circ> indexed) ess)" using l2 by (simp add: level_versions_def list_all2_lengthD)
  have la: "list_all2 (file_at env d) (level_files lv') ?e" unfolding a(7) by (rule list_all2_insert_nth [OF l2 f(1)])
  have "\<forall>g \<in> set (level_files lv'). bf_id g \<in> ld_used d \<and> bf_version g < max_version (ld_cat d)"
    using lv f(2,4) unfolding a(7) by (simp add: level_at_def)
  then have "level_at env d 0 lv' ?e" using lv a(2-5,8) dv' la by (simp add: level_at_def)
  moreover have "level_map lv' ?e = level_map lv ess ++ map_of (indexed es)"
  proof -
    let ?ps = "zip (level_versions lv) (map (map_of \<circ> indexed) ess)"
    have "\<forall>p \<in> set ?ps. fst p < bf_version f" using f(3) by (auto simp: level_versions_def dest!: set_zip_leftD)
    moreover have "distinct (map fst ?ps)" using dv len by (simp only: map_fst_zip)
    ultimately have "newest (insert_nth pos (bf_version f, map_of (indexed es)) ?ps) = newest ?ps ++ map_of (indexed es)" by (intro newest_insert)
    then show ?thesis unfolding level_map_def vs map_insert_nth zip_insert_nth [OF len] by simp
  qed
  moreover have "mset (level_id_list lv') = add_mset (bf_id f) (mset (level_id_list lv))"
    by (simp add: level_id_list_def a(7) mset_insert_nth)
  ultimately show thesis using a by (intro that) simp_all
qed

lemma building_adds:
  assumes env: "env_ok env" and d: "disk_ok d" "fd < cat_len (ld_cat d)"
  shows "building env d f0 fd lv v builder es \<Longrightarrow> \<forall>e \<in> set xs. wf_record (snd e) \<Longrightarrow> length es + length xs \<le> DEFAULT_LSM_FILE_CAPACITY \<Longrightarrow>
    \<exists>builder' g r. add_entries (le_cipher env) builder (ld_file d) (ld_rng d) xs = Some (builder', g, r) \<and>
      building env (d\<lparr>ld_file := g, ld_rng := r\<rparr>) f0 fd lv v builder' (es @ xs)"
  using d
proof (induction xs arbitrary: d builder es)
  case Nil
  then show ?case by auto
next
  case (Cons e xs)
  have w: "wf_record (snd e)" "length es < DEFAULT_LSM_FILE_CAPACITY" using Cons.prems by simp_all
  obtain builder' g r where a: "bit_builder_add_entry (le_cipher env) builder (ld_file d) (ld_rng d) e = Some (builder', g, r)"
    "building env (d\<lparr>ld_file := g, ld_rng := r\<rparr>) f0 fd lv v builder' (es @ [e])"
    by (rule building_add [OF env Cons.prems(4,5,1) w]) (rule that)
  have "disk_ok (d\<lparr>ld_file := g, ld_rng := r\<rparr>)" using Cons.prems(4) by (simp add: disk_ok_def)
  from Cons.IH [OF a(2) _ _ this] show ?case using Cons.prems a(1) by simp
qed

lemma memtable_entries:
  assumes "rt_inv mem" "\<forall>r \<in> ran (rt_map mem). wf_record r"
  defines "xs \<equiv> map (\<lambda>e. (me_key e, me_val e)) (rbtree_memtable_get_all_entry mem)"
  shows "sorted_wrt (<) (map fst xs)" "length xs = rt_size mem" "map_of xs = rt_map mem" "\<forall>e \<in> set xs. wf_record (snd e)"
proof -
  have x: "xs = map entry_kv (inorder (rt_root mem))" by (simp add: xs_def rbtree_memtable_get_all_entry_def entry_kv_def)
  show s: "sorted_wrt (<) (map fst xs)" and "length xs = rt_size mem"
    using assms(1) by (simp_all add: x rt_inv_def tree_ok_def bst_on_def entry_kv_def comp_def)
  show m: "map_of xs = rt_map mem" by (simp add: x rt_map_def tree_map_def)
  have "distinct (map fst xs)" using s by (simp add: sorted_wrt_less_distinct)
  then show "\<forall>e \<in> set xs. wf_record (snd e)" using assms(2) m [symmetric] by (auto simp: ran_def map_of_eq_Some_iff)
qed

lemma levels_at_Cons:
  "levels_at env d (lv # lvs) (ess # esss) \<longleftrightarrow> length esss = length lvs \<and> level_at env d 0 lv ess \<and>
     (\<forall>i < length lvs. level_at env d (Suc i) (lvs ! i) (esss ! i)) \<and> distinct (level_id_list lv @ concat (map level_id_list lvs))"
  by (auto simp: levels_at_def less_Suc_eq_0_disj)

lemma levels_at_ids:
  assumes "levels_at env d lvs esss" "lv \<in> set lvs" "f \<in> set (level_files lv)"
  shows "bf_id f \<in> ld_used d" "bf_version f < max_version (ld_cat d)"
proof -
  obtain i where "i < length lvs" "lv = lvs ! i" using assms(2) by (metis in_set_conv_nth)
  then have "level_at env d i lv (esss ! i)" using assms(1) by (simp add: levels_at_def)
  then show "bf_id f \<in> ld_used d" "bf_version f < max_version (ld_cat d)" using assms(3) by (simp_all add: level_at_def)
qed

lemma minor_ok:
  assumes env: "env_ok env" and d: "disk_ok (tr_disk this)" and ne: "tr_levels this \<noteq> []"
    and mem: "rt_inv (tr_memtable this)" "\<forall>r \<in> ran (rt_map (tr_memtable this)). wf_record r"
      "safe_count (rt_size (tr_memtable this))" "BIT_LEAF_LEN dvd rt_size (tr_memtable this)"
    and lvs: "levels_at env (tr_disk this) (tr_levels this) esss"
    and room: "\<not> bit_level_is_full (tr_levels this ! 0)" "ld_used (tr_disk this) \<noteq> {..<cat_len (ld_cat (tr_disk this))}"
      "max_version (ld_cat (tr_disk this)) < 2 ^ 64"
  obtains this' esss' fd where "lsm_tree_minor_compaction env ok_job ok_heap this = Some this'" "tree_inv env this' esss'"
    "lsm_map this' esss' = lsm_map this esss" "rt_size (tr_memtable this') = 0" "lv_size (tr_levels this' ! 0) = Suc (lv_size (tr_levels this ! 0))"
    "lv_capacity (tr_levels this' ! 0) = lv_capacity (tr_levels this ! 0)" "disk_frame (tr_disk this) (tr_disk this')"
    "ld_used (tr_disk this') = insert fd (ld_used (tr_disk this))" "fd \<notin> ld_used (tr_disk this)" "fd < cat_len (ld_cat (tr_disk this))"
    "max_version (ld_cat (tr_disk this')) = Suc (max_version (ld_cat (tr_disk this)))"
proof -
  let ?d = "tr_disk this" and ?m = "tr_memtable this"
  obtain lv0 lvr where lv: "tr_levels this = lv0 # lvr" using ne by (cases "tr_levels this") auto
  obtain ess0 essr where es: "esss = ess0 # essr" using lvs by (cases esss) (auto simp: levels_at_def lv)
  note L = lvs [unfolded lv es levels_at_Cons]
  define xs where "xs = map (\<lambda>e. (me_key e, me_val e)) (rbtree_memtable_get_all_entry ?m)"
  note X = memtable_entries [OF mem(1,2), folded xs_def]
  have cap: "length xs \<le> DEFAULT_LSM_FILE_CAPACITY" using mem(3) X(2) by (simp add: safe_count_def)
  obtain builder fd d1 p0 where N: "next_builder env 0 (le_fd env) ?d = Some (builder, fd, d1)" "disk_ok d1" "disk_frame ?d d1"
    "fd < cat_len (ld_cat ?d)" "fd \<notin> ld_used ?d" "ld_used d1 = insert fd (ld_used ?d)" "ld_file d1 = ld_file ?d"
    "max_version (ld_cat d1) = Suc (max_version (ld_cat ?d))" "begin_at (region_lo (ld_cat ?d) fd) builder"
    "binv (le_cipher env) (ld_file ?d) (region_lo (ld_cat ?d) fd) (le_filter env) fd 0 (max_version (ld_cat ?d)) (ld_file ?d) builder [] (replicate 10 []) p0"
    by (rule next_builder_ok [OF env d room(2)]) (rule that)
  have N3: "same_regions (ld_cat ?d) (ld_cat d1)" using N(3) by (simp add: disk_frame_def)
  have b0: "building env d1 (ld_file ?d) fd 0 (max_version (ld_cat ?d)) builder []"
    using N(7,9,10) region_lo_same(1) [OF N3] by (auto simp: building_def)
  have fd1: "fd < cat_len (ld_cat d1)" using N3 N(4) by (simp add: same_regions_def)
  obtain builder' g r where A: "add_entries (le_cipher env) builder (ld_file d1) (ld_rng d1) xs = Some (builder', g, r)"
    "building env (d1\<lparr>ld_file := g, ld_rng := r\<rparr>) (ld_file ?d) fd 0 (max_version (ld_cat ?d)) builder' xs"
    using building_adds [OF env N(2) fd1 b0 X(4)] cap by auto
  let ?d2 = "d1\<lparr>ld_file := g, ld_rng := r\<rparr>"
  have d2: "disk_ok ?d2" "fd < cat_len (ld_cat ?d2)" using N(2) fd1 by (simp_all add: disk_ok_def)
  have sc: "safe_count (length xs)" using mem(3) X(2) by simp
  obtain f d3 where F: "finish_file env builder' lv0 ?d2 = Some (snd (bit_level_add_file lv0 f), d3)" "disk_ok d3" "ld_cat d3 = ld_cat ?d2" "disk_frame ?d2 d3"
    "ld_used d3 = ld_used ?d2" "file_at env d3 f xs" "bf_id f = fd" "bf_level f = 0" "bf_version f = max_version (ld_cat ?d)"
    "\<And>a. a \<notin> region (ld_cat ?d2) fd \<Longrightarrow> ld_file d3 a = ld_file ?d a"
    by (rule finish_file_ok [OF env d2 A(2) sc X(1) _ room(3)]) (simp, rule that)
  have rg: "same_regions (ld_cat ?d) (ld_cat d3)" using N3 F(3) by simp
  have used: "ld_used d3 = insert fd (ld_used ?d)" using F(5) N(6) by simp
  have mv: "max_version (ld_cat d3) = Suc (max_version (ld_cat ?d))" using F(3) N(8) by simp
  have fr: "ld_file d3 a = ld_file ?d a" if "lv \<in> set (tr_levels this)" "f' \<in> set (level_files lv)" "a \<in> region (ld_cat ?d) (bf_id f')" for lv f' a
  proof -
    have "bf_id f' \<noteq> fd" using levels_at_ids(1) [OF lvs that(1,2)] N(5) by auto
    then have "a \<notin> region (ld_cat ?d) fd" using regions_disjoint that(3) by blast
    then show ?thesis using F(10) region_lo_same(2) [OF N3] by simp
  qed
  have frame: "level_at env d3 i lv ess" if "lv \<in> set (tr_levels this)" "level_at env ?d i lv ess" for i lv ess
    by (rule level_at_frame [OF that(2) rg]) (use used mv fr [OF that(1)] in auto)
  have l0: "level_at env d3 0 lv0 ess0" using frame [of lv0 0 ess0] L by (simp add: lv)
  have vmax: "\<forall>f' \<in> set (level_files lv0). bf_version f' < bf_version f" using levels_at_ids(2) [OF lvs, of lv0] F(9) by (simp add: lv)
  have rm: "lv_size lv0 < lv_max_size lv0" using room(1) l0 by (simp add: lv bit_level_is_full_def level_at_def)
  obtain lv0' ess0' where Z: "snd (bit_level_add_file lv0 f) = lv0'" "level_at env d3 0 lv0' ess0'"
    "level_map lv0' ess0' = level_map lv0 ess0 ++ map_of (indexed xs)" "lv_size lv0' = Suc (lv_size lv0)" "lv_capacity lv0' = lv_capacity lv0"
    "mset (level_id_list lv0') = add_mset (bf_id f) (mset (level_id_list lv0))"
    by (rule level0_add [OF l0 rm F(6) _ vmax]) (use F(7,9) used mv that in simp_all)
  define this' where "this' = \<lparr>tr_memtable = snd (rbtree_memtable_clear ?m), tr_levels = lv0' # lvr, tr_disk = d3\<rparr>"
  have run: "lsm_tree_minor_compaction env ok_job ok_heap this = Some this'"
    using room(1) N(1) A(1) F(1) Z(1) by (simp add: lsm_tree_minor_compaction_def lv xs_def this'_def)
  have "distinct (level_id_list lv0' @ concat (map level_id_list lvr))"
  proof -
    have "fd \<notin> set (level_id_list lv0 @ concat (map level_id_list lvr))"
      using levels_at_ids(1) [OF lvs] N(5) by (auto simp: lv level_id_list_def)
    then have "distinct (fd # level_id_list lv0 @ concat (map level_id_list lvr))" using L by simp
    moreover have "mset (fd # level_id_list lv0 @ concat (map level_id_list lvr)) = mset (level_id_list lv0' @ concat (map level_id_list lvr))"
      using Z(6) F(7) by simp
    ultimately show ?thesis by (metis mset_eq_imp_distinct_iff)
  qed
  then have "levels_at env d3 (lv0' # lvr) (ess0' # essr)"
    using L Z(2) frame unfolding levels_at_Cons by (auto simp: lv)
  then have inv: "tree_inv env this' (ess0' # essr)"
    using env F(2) by (simp add: tree_inv_def this'_def rbtree_memtable_clear_def rt_inv_def tree_ok_def bst_on_def rt_map_def tree_map_def
        DEFAULT_MEMTABLE_CAPACITY_def DEFAULT_LSM_FILE_CAPACITY_def)
  have "indexed xs = xs" using mem(4) X(2) by (simp add: indexed_def)
  then have mp: "lsm_map this' (ess0' # essr) = lsm_map this esss"
    using Z(3) X(3) by (simp add: lsm_map_def this'_def lv es rbtree_memtable_clear_def rt_map_def tree_map_def)
  have "disk_frame d1 ?d2" by simp
  then have df: "disk_frame ?d d3" using N(3) F(4) by (blast intro: disk_frame_trans)
  show thesis
    by (rule that [OF run inv mp _ _ _ _ _ N(5,4)]) (simp_all add: this'_def rbtree_memtable_clear_def Z(4,5) lv df mv used)
qed

section \<open>Storing\<close>

lemma rbtree_put_size:
  assumes "rt_inv mem" "key_ok key"
  shows "rt_size (snd (rbtree_memtable_put True mem key val True)) \<le> Suc (rt_size mem)"
  by (auto simp: rbtree_memtable_put_def new_memtable_entry_def split: prod.splits)

text \<open>How often the tree can still write its memtable out when \<open>n\<close> more entries come: every time takes a
  full memtable, a place in level 0, a file number and a version.\<close>

definition tree_room :: "lsm_tree \<Rightarrow> nat \<Rightarrow> bool" where
  "tree_room this n \<longleftrightarrow>
     (let k = (rt_size (tr_memtable this) + n) div DEFAULT_MEMTABLE_CAPACITY; d = tr_disk this
      in lv_size (tr_levels this ! 0) + k \<le> lv_capacity (tr_levels this ! 0) \<and> card (ld_used d) + k \<le> cat_len (ld_cat d) \<and>
         max_version (ld_cat d) + k \<le> 2 ^ 64)"

lemma used_finite: "finite (ld_used d)"
  using cat_used_less [of _ "ld_cat d" "ld_bm d"] by (meson bounded_nat_set_is_finite)

lemma put_ok:
  assumes inv: "tree_inv env this esss" and key: "key_ok key" and val: "wf_record val" and room: "tree_room this (Suc n)"
  obtains this' esss' where "lsm_tree_put env True ok_job ok_heap this key val = Some this'" "tree_inv env this' esss'"
    "lsm_map this' esss' = (lsm_map this esss)(key \<mapsto> val)" "tree_room this' n" "disk_frame (tr_disk this) (tr_disk this')"
proof -
  let ?m = "tr_memtable this" and ?cap = DEFAULT_MEMTABLE_CAPACITY
  define mem where "mem = snd (rbtree_memtable_put True ?m key val True)"
  define t1 where "t1 = this\<lparr>tr_memtable := mem\<rparr>"
  have rt: "rt_inv ?m" "rt_size ?m < ?cap" "\<forall>r \<in> ran (rt_map ?m). wf_record r" and env: "env_ok env" and ne: "tr_levels this \<noteq> []"
    and d: "disk_ok (tr_disk this)" and lvs: "levels_at env (tr_disk this) (tr_levels this) esss"
    using inv by (simp_all add: tree_inv_def)
  obtain old where p: "rbtree_memtable_put True ?m key val True = (old, mem)" by (metis mem_def prod.collapse)
  have m: "rt_inv mem" "rt_map mem = (rt_map ?m)(key \<mapsto> val)" using rbtree_put_correct [OF rt(1) key p] by simp_all
  have sz: "rt_size mem \<le> Suc (rt_size ?m)" using rbtree_put_size [OF rt(1) key] by (simp add: mem_def)
  have wf: "\<forall>r \<in> ran (rt_map mem). wf_record r" using rt(3) val by (auto simp: m(2) ran_def)
  have mp: "lsm_map t1 esss = (lsm_map this esss)(key \<mapsto> val)" by (simp add: lsm_map_def t1_def m(2))
  show thesis
  proof (cases "rt_size mem < ?cap")
    case True
    have "lsm_tree_put env True ok_job ok_heap this key val = Some t1" using True by (simp add: lsm_tree_put_def mem_def t1_def Let_def)
    moreover have "tree_inv env t1 esss" using inv m(1) wf True by (simp add: tree_inv_def t1_def)
    moreover have "(rt_size mem + n) div ?cap \<le> (rt_size ?m + Suc n) div ?cap" using sz by (intro div_le_mono) simp
    then have "tree_room t1 n" using room by (auto simp: tree_room_def t1_def Let_def)
    moreover have "disk_frame (tr_disk this) (tr_disk t1)" by (rule disk_frame_refl) (simp_all add: t1_def)
    ultimately show thesis using mp that by blast
  next
    case False
    then have full: "rt_size mem = ?cap" "rt_size ?m + Suc n = ?cap + n" using sz rt(2) by simp_all
    have k: "(rt_size ?m + Suc n) div ?cap = Suc (n div ?cap)"
      unfolding full(2) by (simp add: DEFAULT_MEMTABLE_CAPACITY_def DEFAULT_LSM_FILE_CAPACITY_def)
    note R = room [unfolded tree_room_def Let_def k]
    have lv: "\<not> bit_level_is_full (tr_levels t1 ! 0)" using R by (simp add: t1_def bit_level_is_full_def)
    have "card (ld_used (tr_disk t1)) \<noteq> cat_len (ld_cat (tr_disk t1))" using R by (simp add: t1_def)
    then have fr: "ld_used (tr_disk t1) \<noteq> {..<cat_len (ld_cat (tr_disk t1))}" by (metis card_lessThan)
    have c: "safe_count (rt_size (tr_memtable t1))" "BIT_LEAF_LEN dvd rt_size (tr_memtable t1)"
      using safe_capacity full(1) by (simp_all add: t1_def DEFAULT_MEMTABLE_CAPACITY_def) (simp add: DEFAULT_LSM_FILE_CAPACITY_def BIT_LEAF_LEN_def)
    obtain this' esss' fd where M: "lsm_tree_minor_compaction env ok_job ok_heap t1 = Some this'" "tree_inv env this' esss'"
      "lsm_map this' esss' = lsm_map t1 esss" "rt_size (tr_memtable this') = 0" "lv_size (tr_levels this' ! 0) = Suc (lv_size (tr_levels t1 ! 0))"
      "lv_capacity (tr_levels this' ! 0) = lv_capacity (tr_levels t1 ! 0)" "disk_frame (tr_disk t1) (tr_disk this')"
      "ld_used (tr_disk this') = insert fd (ld_used (tr_disk t1))" "fd \<notin> ld_used (tr_disk t1)"
      "max_version (ld_cat (tr_disk this')) = Suc (max_version (ld_cat (tr_disk t1)))"
      by (rule minor_ok [of env t1 esss]) (use env d ne m(1) wf c lvs lv fr R that in \<open>simp_all add: t1_def\<close>)
    have "card (ld_used (tr_disk this')) = Suc (card (ld_used (tr_disk this)))" using M(8,9) used_finite [of "tr_disk this"] by (simp add: t1_def)
    then have "tree_room this' n" using R M by (simp add: tree_room_def Let_def t1_def disk_frame_def same_regions_def)
    moreover have "lsm_tree_put env True ok_job ok_heap this key val = Some this'"
      using False M(1) by (simp add: lsm_tree_put_def mem_def [symmetric] t1_def [symmetric] Let_def) (simp add: t1_def)
    moreover have "disk_frame (tr_disk this) (tr_disk this')" using M(7) by (simp add: t1_def)
    ultimately show thesis using M(2,3) mp by (metis that)
  qed
qed

section \<open>A new tree\<close>

lemma level_created:
  assumes "2 * cap + DEFAULT_LSM_LEVEL0_NR_FILE \<le> length junk"
  obtains lv where "bit_level_create True True junk i cap = Some lv" "level_at env d i lv []" "level_files lv = []" "lv_capacity lv = cap" "lv_size lv = 0"
proof -
  obtain lv where lv: "bit_level_create True True junk i cap = Some lv" "level_files lv = []" "lv_capacity lv = cap" "lv_size lv = 0"
    "level_ok lv" "lv_level lv = i" "cap \<le> lv_max_size lv"
    using assms by (simp add: bit_level_create_def bit_level_init_def level_files_def level_ok_def)
  then have "level_at env d i lv []" by (simp add: level_at_def level_versions_def disjoint_files_def)
  then show thesis using lv by (intro that) simp_all
qed

lemma deep_levels_ok:
  "2 * cap + DEFAULT_LSM_LEVEL0_NR_FILE \<le> length junk \<Longrightarrow>
   \<exists>lvs. deep_levels junk ratio n cap = Some lvs \<and> length lvs = n \<and>
     (\<forall>i < n. level_at env d (Suc i) (lvs ! i) [] \<and> level_files (lvs ! i) = [])"
proof (induction n arbitrary: cap)
  case (Suc n)
  obtain lv where lv: "bit_level_create True True junk (Suc n) cap = Some lv" "level_at env d (Suc n) lv []" "level_files lv = []"
    by (rule level_created [OF Suc.prems]) (rule that)
  have "2 * (cap div ratio) + DEFAULT_LSM_LEVEL0_NR_FILE \<le> length junk"
    using Suc.prems div_le_dividend [of cap ratio] by linarith
  from Suc.IH [OF this] obtain lvs where "deep_levels junk ratio n (cap div ratio) = Some lvs" "length lvs = n"
    "\<forall>i < n. level_at env d (Suc i) (lvs ! i) [] \<and> level_files (lvs ! i) = []" by blast
  then show ?case using lv by (auto simp: nth_append less_Suc_eq)
qed simp

lemma levels_map_empty: "levels_map lvs (replicate n []) = Map.empty"
proof (induction n arbitrary: lvs)
  case (Suc n)
  then show ?case by (cases lvs) (simp_all add: level_map_def newest_def)
qed simp

lemma tree_created:
  assumes env: "env_ok env" and d: "disk_ok d" "ld_used d = {}" and junk: "2 * max 4 (cat_max_level_nr_file (ld_cat d)) + 4 \<le> length junk"
    and n: "cat_nr_disk_level (ld_cat d) \<noteq> 0"
  obtains this where "lsm_tree_create env True True True junk (\<lambda>_. True) d = Some (Some this)"
    "tree_inv env this (replicate (cat_nr_disk_level (ld_cat d)) [])" "lsm_map this (replicate (cat_nr_disk_level (ld_cat d)) []) = Map.empty"
    "lv_size (tr_levels this ! 0) = 0" "lv_capacity (tr_levels this ! 0) = DEFAULT_LSM_LEVEL0_NR_FILE" "tr_disk this = d"
    "rt_size (tr_memtable this) = 0"
proof -
  let ?n = "cat_nr_disk_level (ld_cat d)"
  have j: "2 * cat_max_level_nr_file (ld_cat d) + DEFAULT_LSM_LEVEL0_NR_FILE \<le> length junk"
    "2 * DEFAULT_LSM_LEVEL0_NR_FILE + DEFAULT_LSM_LEVEL0_NR_FILE \<le> length junk"
    using junk by (simp_all add: DEFAULT_LSM_LEVEL0_NR_FILE_def)
  obtain lvs where dl: "deep_levels junk (cat_common_ratio (ld_cat d)) (?n - 1) (cat_max_level_nr_file (ld_cat d)) = Some lvs"
    "length lvs = ?n - 1" "\<forall>i < ?n - 1. level_at env d (Suc i) (lvs ! i) [] \<and> level_files (lvs ! i) = []"
    using deep_levels_ok [OF j(1)] by blast
  obtain lv0 where l0: "bit_level_create True True junk 0 DEFAULT_LSM_LEVEL0_NR_FILE = Some lv0" "level_at env d 0 lv0 []"
    "level_files lv0 = []" "lv_capacity lv0 = DEFAULT_LSM_LEVEL0_NR_FILE" "lv_size lv0 = 0" by (rule level_created [OF j(2)]) (rule that)
  have st: "bitc_get_all_file_stats (\<lambda>_. True) (ld_cat d) (ld_bm d) = (Inr (), [])"
    using d by (simp add: disk_ok_def get_all_ok)
  define this where "this = \<lparr>tr_memtable = (rbtree_memtable_init :: index_record rbtree_memtable), tr_levels = lv0 # lvs, tr_disk = d\<rparr>"
  have cr: "lsm_tree_create env True True True junk (\<lambda>_. True) d = Some (Some this)"
    using n dl(1) l0(1) st env
    by (simp add: lsm_tree_create_def lsm_tree_init_def Let_def rbtree_memtable_create_def env_ok_def this_def)
  have ids: "concat (map level_id_list (lv0 # lvs)) = []"
    using l0(3) dl(2,3) by (auto simp: level_id_list_def in_set_conv_nth)
  have "levels_at env d (lv0 # lvs) (replicate ?n [])"
    unfolding levels_at_def ids using l0(2) dl(2,3) n by (auto simp: nth_Cons split: nat.splits)
  then have inv: "tree_inv env this (replicate ?n [])"
    using env d(1) by (simp add: tree_inv_def this_def rbtree_memtable_init_def rt_inv_def tree_ok_def bst_on_def rt_map_def tree_map_def
        DEFAULT_MEMTABLE_CAPACITY_def DEFAULT_LSM_FILE_CAPACITY_def)
  have "lsm_map this (replicate ?n []) = Map.empty"
    by (simp add: lsm_map_def this_def levels_map_empty rbtree_memtable_init_def rt_map_def tree_map_def)
  then show thesis using l0 by (intro that [OF cr inv]) (simp_all add: this_def rbtree_memtable_init_def)
qed

section \<open>Properties\<close>

datatype lsm_op = Put u32 index_record | Search u32

fun lsm_run :: "lsm_env \<Rightarrow> bool \<Rightarrow> bool \<Rightarrow> lsm_op list \<Rightarrow> lsm_tree \<Rightarrow> (index_record result list \<times> lsm_tree) option" where
  "lsm_run env ok_job ok_heap [] this = Some ([], this)"
| "lsm_run env ok_job ok_heap (Put k v # ops) this =
     (case lsm_tree_put env True ok_job ok_heap this k v of None \<Rightarrow> None | Some this' \<Rightarrow> lsm_run env ok_job ok_heap ops this')"
| "lsm_run env ok_job ok_heap (Search k # ops) this =
     (case lsm_tree_search env this k of
        None \<Rightarrow> None
      | Some (r, this') \<Rightarrow> map_option (\<lambda>(rs, this''). (r # rs, this'')) (lsm_run env ok_job ok_heap ops this'))"

fun map_run :: "lsm_op list \<Rightarrow> (u32 \<rightharpoonup> index_record) \<Rightarrow> index_record result list" where
  "map_run [] m = []"
| "map_run (Put k v # ops) m = map_run ops (m(k \<mapsto> v))"
| "map_run (Search k # ops) m = (case m k of None \<Rightarrow> Inl ENODATA | Some v \<Rightarrow> Inr v) # map_run ops m"

fun legal_op :: "lsm_op \<Rightarrow> bool" where
  "legal_op (Put k v) = (key_ok k \<and> wf_record v)"
| "legal_op (Search k) = True"

fun is_put :: "lsm_op \<Rightarrow> bool" where
  "is_put (Put k v) = True"
| "is_put (Search k) = False"

lemma tree_room_same:
  assumes "tree_room this n" "tr_memtable this' = tr_memtable this" "tr_disk this' = tr_disk this"
    "list_all2 same_level (tr_levels this) (tr_levels this')" "tr_levels this \<noteq> []"
  shows "tree_room this' n"
proof -
  have "same_level (tr_levels this ! 0) (tr_levels this' ! 0)" using list_all2_nthD [OF assms(4), of 0] assms(5) by simp
  then show ?thesis using assms(1-3) by (simp add: tree_room_def same_level_def)
qed

lemma lsm_run_ok:
  "tree_inv env this esss \<Longrightarrow> \<forall>op \<in> set ops. legal_op op \<Longrightarrow> tree_room this (length (filter is_put ops)) \<Longrightarrow>
   \<exists>this' esss'. lsm_run env ok_job ok_heap ops this = Some (map_run ops (lsm_map this esss), this') \<and> tree_inv env this' esss'"
proof (induction ops arbitrary: this esss)
  case (Cons op ops)
  show ?case
  proof (cases op)
    case (Put k v)
    have l: "key_ok k" "wf_record v" "tree_room this (Suc (length (filter is_put ops)))" using Cons.prems(2,3) by (simp_all add: Put)
    obtain this' esss' where p: "lsm_tree_put env True ok_job ok_heap this k v = Some this'" "tree_inv env this' esss'"
      "lsm_map this' esss' = (lsm_map this esss)(k \<mapsto> v)" "tree_room this' (length (filter is_put ops))"
      by (rule put_ok [OF Cons.prems(1) l]) (rule that)
    have e: "lsm_run env ok_job ok_heap (op # ops) this = lsm_run env ok_job ok_heap ops this'" by (simp add: Put p(1))
    have m: "map_run (op # ops) (lsm_map this esss) = map_run ops (lsm_map this' esss')" by (simp add: Put p(3))
    show ?thesis unfolding e m by (rule Cons.IH [OF p(2) _ p(4)]) (use Cons.prems(2) in simp)
  next
    case (Search k)
    obtain this' where s: "lsm_tree_search env this k = Some (found (lsm_map this esss k), this')" "tree_inv env this' esss"
      "lsm_map this' esss = lsm_map this esss" "tr_memtable this' = tr_memtable this" "tr_disk this' = tr_disk this"
      "list_all2 same_level (tr_levels this) (tr_levels this')" by (rule lsm_search_ok [OF Cons.prems(1)]) (rule that)
    have "tree_room this' (length (filter is_put ops))"
      by (rule tree_room_same [OF _ s(4-6)]) (use Cons.prems in \<open>simp_all add: Search tree_inv_def\<close>)
    from Cons.IH [OF s(2) _ this] show ?thesis using Cons.prems(2) s by (auto simp: Search found_def)
  qed
qed auto


definition sample_env :: lsm_env where
  "sample_env = \<lparr>le_cipher = null_cipher, le_ok = True, le_filter = sample_filter, le_junk = sample_junk, le_leaf = zero_leaf, le_fd = 0\<rparr>"

lemma sample_env_ok: "env_ok sample_env"
  by (simp add: env_ok_def sample_env_def null_cipher_ok sample_filter_wf sample_junk_def)

text \<open>A tree on the catalogue of a small volume.\<close>

lemma sample_disk:
  obtains d where "disk_ok d" "ld_used d = {}" "max_version (ld_cat d) = 0" "DEFAULT_LSM_LEVEL0_NR_FILE \<le> cat_len (ld_cat d)"
    "cat_nr_disk_level (ld_cat d) = 2"
proof (rule sample_cat)
  fix this s0
  assume c: "bit_catalogue_create True True True True True (\<lambda>_. True) sample_bm sample_sb = Some this"
    "bit_catalogue_format this sample_bm = (Inr (), s0)" "cat_rel (cat_max_fd sample_sb) (s0, Map.empty)"
  obtain cat bm where s0: "s0 = (cat, bm)" by (cases s0)
  have r: "cat_inv (cat, bm)" "cat_len cat = cat_max_fd sample_sb" "cat_used (cat, bm) = {}" using c(3) by (simp_all add: s0 cat_rel_def)
  obtain vt where cat: "cat = this\<lparr>bit_validity_table := vt\<rparr>"
    using c(2) by (auto simp: s0 bit_catalogue_format_def split: prod.splits sum.splits)
  define cat' where "cat' = cat\<lparr>max_version := 0\<rparr>"
  have r': "cat_inv (cat', bm)" "cat_len cat' = cat_max_fd sample_sb" "cat_used (cat', bm) = {}"
    using r by (simp_all add: cat'_def cat_inv_def cat_bits_def cat_len_def cat_used_def)
  have f: "cat_file_size cat' = lsm_file_size" "cat_start cat' = unat (index_region_start sample_sb) * SWORNDISK_METADATA_BLOCK_SIZE"
    "cat_nr_disk_level cat' = unat (nr_disk_level sample_sb)"
    using c(1) by (auto simp: cat'_def cat bit_catalogue_create_def bit_catalogue_init_def Let_def split: if_splits option.splits sum.splits)
  have mv: "max_version cat' = 0" by (simp add: cat'_def)
  have u: "unat (nr_disk_level sample_sb) = 2" "unat (common_ratio sample_sb) = 10" "unat (max_disk_level_capacity sample_sb) = 102400"
    "unat (index_region_start sample_sb) = 1"
    by (simp_all add: sample_sb_def superblock_layout_def Let_def DEFAULT_LSM_TREE_NR_DISK_LEVEL_def LSM_TREE_DISK_LEVEL_COMMON_RATIO_def
        BLOCKS_PER_SEGMENT_def SUPERBLOCK_LOCATION_def SUPERBLOCK_BLOCKS_def SWORNDISK_METADATA_BLOCK_SIZE_def)
  have n: "cat_max_fd sample_sb = 10"
    by (simp add: cat_max_fd_def u total_bit_def extra_bit_def LSM_TREE_DISK_LEVEL_COMMON_RATIO_def DEFAULT_LSM_FILE_CAPACITY_def
        DEFAULT_LSM_LEVEL0_NR_FILE_def)
  show thesis
    by (rule that [of "\<lparr>ld_file = \<lambda>_. 0, ld_rng = \<lambda>_. 0, ld_cat = cat', ld_bm = bm\<rparr>"])
      (use r' f n u mv in \<open>simp_all add: disk_ok_def region_lo_def lsm_file_size_value DEFAULT_LSM_LEVEL0_NR_FILE_def SWORNDISK_METADATA_BLOCK_SIZE_def\<close>)
qed


end
