(* ===== verification/Segment.thy ===== *)
theory Segment
  imports Lsm_Tree Metadata
begin

text \<open>
  The segment buffer (\<open>segment_buffer.c\<close>) and the segment allocator with its garbage collector
  (\<open>segment_allocator.c\<close>), and the block input and output of \<open>dm-sworndisk.c\<close> they call. Both work on
  the whole volume: the data device, the metadata tables and the index. \<open>None\<close> is a call that does
  not return or follows a pointer or reads a variable that was never set.
\<close>

section \<open>The volume\<close>

definition SECTOR_SIZE :: nat where "SECTOR_SIZE = 512"
definition SECTORS_PER_BLOCK :: nat where "SECTORS_PER_BLOCK = 8"
definition SECTOES_PER_SEGMENT :: nat where "SECTOES_PER_SEGMENT = SECTORS_PER_BLOCK * BLOCKS_PER_SEGMENT"
definition DATA_BLOCK_SIZE :: nat where "DATA_BLOCK_SIZE = SECTORS_PER_BLOCK * SECTOR_SIZE"
definition SEGMENT_BUFFER_SIZE :: nat where "SEGMENT_BUFFER_SIZE = SECTOES_PER_SEGMENT * SECTOR_SIZE"
definition LEAST_CLEAN_SEGMENT_ONCE :: nat where "LEAST_CLEAN_SEGMENT_ONCE = 1"
definition THREAD_LOGGING_AHEAD :: nat where "THREAD_LOGGING_AHEAD = 1"

text \<open>Subtraction of the type \<open>size_t\<close>.\<close>

definition sub64 :: "nat \<Rightarrow> nat \<Rightarrow> nat" where
  "sub64 a b = (a + 2 ^ 64 - b) mod 2 ^ 64"

definition GC_THREADHOLD :: "nat \<Rightarrow> nat" where
  "GC_THREADHOLD nr = sub64 nr 16"

record default_segment_buffer =
  sg_buffer :: "byte list"
  sg_pipe :: "byte list"
  cur_segment :: nat
  cur_sector :: nat

datatype segment_allocator_status = SEGMENT_ALLOCATING | SEGMENT_CLEANING

record default_segment_allocator =
  nr_valid_segment :: nat
  sa_status :: segment_allocator_status

text \<open>The catalogue and the block manager of the metadata are those of the tree's disk.\<close>

record volume =
  vo_data :: bfile
  vo_sv :: seg_validator
  vo_rit :: reverse_index_table
  vo_dst :: dst
  vo_tree :: lsm_tree
  vo_buf :: default_segment_buffer
  vo_alloc :: default_segment_allocator

text \<open>The number of segments of the data device, and whether the allocations made on the way succeed:
  of records, memtable entries, jobs, heaps, victims and the collector's two buffers.\<close>

record volume_env =
  ve_lsm :: lsm_env
  NR_SEGMENT :: nat
  ve_record :: bool
  ve_entry :: bool
  ve_job :: bool
  ve_heap :: bool
  ve_victim :: bool
  ve_gc_buffer :: bool
  ve_gc_block :: bool

abbreviation "vo_bm s \<equiv> ld_bm (tr_disk (vo_tree s))"
abbreviation "vo_rng s \<equiv> ld_rng (tr_disk (vo_tree s))"

definition set_bm :: "block_manager \<Rightarrow> volume \<Rightarrow> volume" where
  "set_bm bm s = s\<lparr>vo_tree := (vo_tree s)\<lparr>tr_disk := (tr_disk (vo_tree s))\<lparr>ld_bm := bm\<rparr>\<rparr>\<rparr>"

definition set_rng :: "rng \<Rightarrow> volume \<Rightarrow> volume" where
  "set_rng r s = s\<lparr>vo_tree := (vo_tree s)\<lparr>tr_disk := (tr_disk (vo_tree s))\<lparr>ld_rng := r\<rparr>\<rparr>\<rparr>"

text \<open>The calls of the tree; block numbers become 32-bit keys.\<close>

definition volume_search :: "volume_env \<Rightarrow> volume \<Rightarrow> nat \<Rightarrow> (index_record result \<times> volume) option" where
  "volume_search env s lba =
     map_option (\<lambda>(r, tree). (r, s\<lparr>vo_tree := tree\<rparr>)) (lsm_tree_search (ve_lsm env) (vo_tree s) (of_nat lba))"

definition volume_put :: "volume_env \<Rightarrow> volume \<Rightarrow> nat \<Rightarrow> index_record \<Rightarrow> volume option" where
  "volume_put env s lba val =
     map_option (\<lambda>tree. s\<lparr>vo_tree := tree\<rparr>)
       (lsm_tree_put (ve_lsm env) (ve_entry env) (ve_job env) (ve_heap env) (vo_tree s) (of_nat lba) val)"

section \<open>Block input and output\<close>

definition segbuf_query_encrypted_block :: "default_segment_buffer \<Rightarrow> nat \<Rightarrow> byte list \<Rightarrow> unit result \<times> byte list" where
  "segbuf_query_encrypted_block this blkaddr out =
     (let begin = cur_segment this * BLOCKS_PER_SEGMENT;
          end = begin + cur_sector this div SECTORS_PER_BLOCK
      in if blkaddr < begin \<or> end \<le> blkaddr then (Inl ENODATA, out)
         else (Inr (), slice ((blkaddr - begin) * DATA_BLOCK_SIZE) DATA_BLOCK_SIZE (sg_pipe this)))"

definition segbuf_query_encrypted_blocks :: "default_segment_buffer \<Rightarrow> nat \<Rightarrow> nat \<Rightarrow> byte list \<Rightarrow> byte list" where
  "segbuf_query_encrypted_blocks this blkaddr nr out =
     fold (\<lambda>i out. overwrite (i * DATA_BLOCK_SIZE)
                     (snd (segbuf_query_encrypted_block this (blkaddr + i) (slice (i * DATA_BLOCK_SIZE) DATA_BLOCK_SIZE out))) out)
       [0..<nr] out"

definition sworndisk_read_blocks :: "volume \<Rightarrow> nat \<Rightarrow> nat \<Rightarrow> byte list" where
  "sworndisk_read_blocks s blkaddr nr =
     segbuf_query_encrypted_blocks (vo_buf s) blkaddr nr
       (kernel_read (vo_data s) (nr * DATA_BLOCK_SIZE) (blkaddr * DATA_BLOCK_SIZE))"

definition sworndisk_write_blocks :: "nat \<Rightarrow> nat \<Rightarrow> byte list \<Rightarrow> volume \<Rightarrow> volume" where
  "sworndisk_write_blocks blkaddr nr buf s =
     s\<lparr>vo_data := kernel_write (vo_data s) (take (nr * DATA_BLOCK_SIZE) buf) (blkaddr * DATA_BLOCK_SIZE)\<rparr>"

definition sworndisk_should_threaded_logging :: "volume_env \<Rightarrow> volume \<Rightarrow> bool" where
  "sworndisk_should_threaded_logging env s =
     (if nr_valid_segment (vo_alloc s) < sub64 (GC_THREADHOLD (NR_SEGMENT env)) THREAD_LOGGING_AHEAD then False
      else should_threaded_logging (vo_dst s))"

section \<open>Allocating a segment\<close>

definition sa_will_trigger_gc :: "volume_env \<Rightarrow> volume \<Rightarrow> bool" where
  "sa_will_trigger_gc env s \<longleftrightarrow> nr_valid_segment (vo_alloc s) > GC_THREADHOLD (NR_SEGMENT env)"

text \<open>The segment goes into the buffer's \<open>cur_segment\<close> as soon as it is found. \<open>gc\<close> is the call of the
  collector, which is not made while it runs.\<close>

definition sa_alloc_with ::
  "(volume \<Rightarrow> volume option) \<Rightarrow> volume_env \<Rightarrow> volume \<Rightarrow> (unit result \<times> volume) option" where
  "sa_alloc_with gc env s =
     (case seg_validator_next (vo_sv s) (vo_bm s) of
        (Inl r, sv) \<Rightarrow> Some (Inl r, s\<lparr>vo_sv := sv\<rparr>)
      | (Inr seg, sv) \<Rightarrow>
          let s1 = s\<lparr>vo_sv := sv, vo_buf := (vo_buf s)\<lparr>cur_segment := seg\<rparr>\<rparr>
          in case seg_validator_take (vo_sv s1) (vo_bm s1) seg of
               (Inl r, sv', bm) \<Rightarrow> Some (Inl r, set_bm bm (s1\<lparr>vo_sv := sv'\<rparr>))
             | (Inr _, sv', bm) \<Rightarrow>
                 let s2 = set_bm bm (s1\<lparr>vo_sv := sv', vo_alloc := (vo_alloc s1)\<lparr>nr_valid_segment := nr_valid_segment (vo_alloc s1) + 1\<rparr>\<rparr>)
                 in case dst_take_segment (vo_dst s2) (vo_bm s2) seg of
                      (Inl r, d, bm') \<Rightarrow> Some (Inl r, set_bm bm' (s2\<lparr>vo_dst := d\<rparr>))
                    | (Inr _, d, bm') \<Rightarrow>
                        let s3 = set_bm bm' (s2\<lparr>vo_dst := d\<rparr>)
                        in if sa_will_trigger_gc env s3 \<and> sa_status (vo_alloc s3) \<noteq> SEGMENT_CLEANING
                           then map_option (\<lambda>s4. (Inr (), s4)) (gc s3)
                           else Some (Inr (), s3))"

section \<open>Pushing a block\<close>

definition find_next_bit :: "bitmap \<Rightarrow> nat \<Rightarrow> nat \<Rightarrow> nat" where
  "find_next_bit table n off = (case find (bit table) [off..<n] of None \<Rightarrow> n | Some i \<Rightarrow> i)"

definition find_next_zero_bit :: "bitmap \<Rightarrow> nat \<Rightarrow> nat \<Rightarrow> nat" where
  "find_next_zero_bit table n off = (case find (\<lambda>i. \<not> bit table i) [off..<n] of None \<Rightarrow> n | Some i \<Rightarrow> i)"

definition return_old :: "volume_env \<Rightarrow> index_record result \<Rightarrow> volume \<Rightarrow> volume" where
  "return_old env r s =
     (case r of
        Inl _ \<Rightarrow> s
      | Inr pre \<Rightarrow> (case dst_return_block (ve_victim env) (vo_dst s) (vo_bm s) (pba pre) of
                      (_, d, bm) \<Rightarrow> set_bm bm (s\<lparr>vo_dst := d\<rparr>)))"

definition next_block :: "volume_env \<Rightarrow> volume \<Rightarrow> bool \<Rightarrow> (nat \<times> volume) option" where
  "next_block env s threaded_logging =
     (if \<not> threaded_logging
      then Some ((cur_segment (vo_buf s) * SECTOES_PER_SEGMENT + cur_sector (vo_buf s)) div SECTORS_PER_BLOCK, s)
      else case dst_peek_victim (vo_dst s) of
             None \<Rightarrow> None
           | Some victim \<Rightarrow>
               let offset = find_next_zero_bit (v_block_validity_table victim) BLOCKS_PER_SEGMENT 0;
                   blkaddr = v_segno victim * BLOCKS_PER_SEGMENT + offset
               in case dst_take_block (ve_victim env) (vo_dst s) (vo_bm s) blkaddr of
                    (_, d, bm) \<Rightarrow> Some (blkaddr, set_bm bm (s\<lparr>vo_dst := d\<rparr>)))"

definition segbuf_flush_bios :: "volume \<Rightarrow> volume" where
  "segbuf_flush_bios s =
     sworndisk_write_blocks (cur_segment (vo_buf s) * BLOCKS_PER_SEGMENT) BLOCKS_PER_SEGMENT (sg_pipe (vo_buf s)) s"

text \<open>The block is copied to the current place of the buffer, encrypted into the pipe and entered in the
  index and in the reverse index.\<close>

definition log_block :: "volume_env \<Rightarrow> volume \<Rightarrow> nat \<Rightarrow> nat \<Rightarrow> byte list \<Rightarrow> volume option" where
  "log_block env s blk lba data =
     (case record_create (ve_record env) blk None None None (vo_rng s) of
        (None, _) \<Rightarrow> None
      | (Some rec, rng) \<Rightarrow>
          let at = cur_sector (vo_buf s) * SECTOR_SIZE;
              (ct, tag) = encrypt (le_cipher (ve_lsm env)) (rkey rec) (riv rec) (pba rec) data;
              s1 = (set_rng rng s)\<lparr>vo_buf := (vo_buf s)\<lparr>sg_buffer := overwrite at data (sg_buffer (vo_buf s)),
                                                         sg_pipe := overwrite at ct (sg_pipe (vo_buf s))\<rparr>\<rparr>
          in map_option (\<lambda>s2. set_bm (snd (reverse_index_table_set (vo_rit s2) (vo_bm s2) blk lba)) s2)
               (volume_put env s1 lba (rec\<lparr>rmac := tag\<rparr>)))"

text \<open>The last part: after the last block of a segment the pipe is written and a new segment is
  allocated, whatever the allocation returns.\<close>

definition advance_with :: "(volume \<Rightarrow> volume option) \<Rightarrow> volume_env \<Rightarrow> volume \<Rightarrow> volume option" where
  "advance_with gc env s =
     (let s1 = s\<lparr>vo_buf := (vo_buf s)\<lparr>cur_sector := cur_sector (vo_buf s) + SECTORS_PER_BLOCK\<rparr>\<rparr>
      in if cur_sector (vo_buf s1) < SECTOES_PER_SEGMENT then Some s1
         else let s2 = segbuf_flush_bios s1
              in map_option snd (sa_alloc_with gc env (s2\<lparr>vo_buf := (vo_buf s2)\<lparr>cur_sector := 0\<rparr>\<rparr>)))"

definition segbuf_push_block_with ::
  "(volume \<Rightarrow> volume option) \<Rightarrow> volume_env \<Rightarrow> volume \<Rightarrow> nat \<Rightarrow> byte list \<Rightarrow> volume option" where
  "segbuf_push_block_with gc env s lba data =
     (let threaded_logging = sworndisk_should_threaded_logging env s
      in case volume_search env s lba of
           None \<Rightarrow> None
         | Some (r, s1) \<Rightarrow>
             (case next_block env (return_old env r s1) threaded_logging of
                None \<Rightarrow> None
              | Some (blk, s2) \<Rightarrow>
                  (case log_block env s2 blk lba data of
                     None \<Rightarrow> None
                   | Some s3 \<Rightarrow>
                       if threaded_logging
                       then Some (sworndisk_write_blocks blk 1
                                    (drop (cur_sector (vo_buf s3) * SECTOR_SIZE) (sg_pipe (vo_buf s3))) s3)
                       else advance_with gc env s3)))"

section \<open>Garbage collection\<close>

definition offset_in_region :: "nat \<Rightarrow> nat \<Rightarrow> nat \<Rightarrow> bool" where
  "offset_in_region offset region_begin region_end \<longleftrightarrow> region_begin \<le> offset \<and> offset < region_end"

text \<open>One valid block of the victim: read with its region, found through the reverse index, decrypted
  and pushed again; a block that does not decrypt is skipped.\<close>

definition gc_block :: "volume_env \<Rightarrow> nat \<Rightarrow> byte list \<Rightarrow> volume \<Rightarrow> volume option" where
  "gc_block env blk data s =
     (case reverse_index_table_get (vo_rit s) (vo_bm s) blk of
        Inl _ \<Rightarrow> None
      | Inr lba \<Rightarrow>
          (case volume_search env s lba of
             None \<Rightarrow> None
           | Some (Inl _, _) \<Rightarrow> None
           | Some (Inr rec, s1) \<Rightarrow>
               (case decrypt (le_cipher (ve_lsm env)) (rkey rec) (riv rec) (rmac rec) (pba rec) data of
                  (Inl _, _) \<Rightarrow> Some s1
                | (Inr _, plaintext) \<Rightarrow> segbuf_push_block_with Some env s1 lba plaintext)))"

lemma find_next_bit_ge: "off \<le> n \<Longrightarrow> off \<le> find_next_bit table n off"
  by (auto simp: find_next_bit_def find_Some_iff split: option.splits)

function gc_blocks :: "volume_env \<Rightarrow> victim \<Rightarrow> nat \<Rightarrow> nat \<Rightarrow> nat \<Rightarrow> byte list \<Rightarrow> volume \<Rightarrow> volume option" where
  "gc_blocks env victim offset region_begin region_end buf s =
     (if BLOCKS_PER_SEGMENT \<le> offset then Some s
      else let blk = v_segno victim * BLOCKS_PER_SEGMENT + offset;
               (region_begin', region_end', buf') =
                 (if offset_in_region offset region_begin region_end then (region_begin, region_end, buf)
                  else let e = find_next_zero_bit (v_block_validity_table victim) BLOCKS_PER_SEGMENT offset
                       in (offset, e, overwrite (offset * DATA_BLOCK_SIZE) (sworndisk_read_blocks s blk (e - offset)) buf))
           in case gc_block env blk (slice (offset * DATA_BLOCK_SIZE) DATA_BLOCK_SIZE buf') s of
                None \<Rightarrow> None
              | Some s' \<Rightarrow> gc_blocks env victim (find_next_bit (v_block_validity_table victim) BLOCKS_PER_SEGMENT (offset + 1))
                             region_begin' region_end' buf' s')"
  by pat_completeness auto
termination
proof (relation "measure (\<lambda>(_, _, offset, _). BLOCKS_PER_SEGMENT - offset)", goal_cases)
  case (2 env victim offset)
  then show ?case using find_next_bit_ge [of "offset + 1" BLOCKS_PER_SEGMENT "v_block_validity_table victim"]
    by (simp add: diff_less_mono2 less_eq_Suc_le)
qed simp

declare gc_blocks.simps [simp del]

definition move_victim :: "volume_env \<Rightarrow> byte list \<Rightarrow> victim \<Rightarrow> volume \<Rightarrow> volume option" where
  "move_victim env buf victim s =
     (if v_nr_valid_block victim = 0 then Some s
      else if \<not> ve_gc_block env then None
      else gc_blocks env victim (find_next_bit (v_block_validity_table victim) BLOCKS_PER_SEGMENT 0) 0 0 buf s)"

text \<open>The victim's segment is released and the victim removed; the count of cleaned blocks grows.\<close>

definition release_victim :: "victim \<Rightarrow> volume \<Rightarrow> nat \<times> volume" where
  "release_victim victim s =
     (case seg_validator_test_and_return (vo_sv s) (vo_bm s) (v_segno victim) of
        (r, bm) \<Rightarrow>
          let s1 = set_bm bm s;
              freed = (r = Inr True);
              s2 = (if freed then s1\<lparr>vo_alloc := (vo_alloc s1)\<lparr>nr_valid_segment := nr_valid_segment (vo_alloc s1) - 1\<rparr>\<rparr> else s1)
          in (if freed then BLOCKS_PER_SEGMENT - v_nr_valid_block victim else 0,
              s2\<lparr>vo_dst := snd (dst_remove_victim (vo_dst s2) (v_segno victim))\<rparr>))"

partial_function (option) gc_loop :: "(victim \<Rightarrow> volume \<Rightarrow> volume option) \<Rightarrow> nat \<Rightarrow> volume \<Rightarrow> volume option" where
  "gc_loop move clean s =
     (if LEAST_CLEAN_SEGMENT_ONCE * BLOCKS_PER_SEGMENT \<le> clean then Some s
      else case dst_peek_victim (vo_dst s) of
             None \<Rightarrow> Some s
           | Some victim \<Rightarrow>
               (case move victim s of
                  None \<Rightarrow> None
                | Some s1 \<Rightarrow> (case release_victim victim s1 of (n, s2) \<Rightarrow> gc_loop move (clean + n) s2)))"

definition foreground_gc_with :: "(victim \<Rightarrow> volume \<Rightarrow> volume option) \<Rightarrow> volume_env \<Rightarrow> volume \<Rightarrow> volume option" where
  "foreground_gc_with move env s =
     (let s1 = s\<lparr>vo_alloc := (vo_alloc s)\<lparr>sa_status := SEGMENT_CLEANING\<rparr>\<rparr>
      in map_option (\<lambda>s2. s2\<lparr>vo_alloc := (vo_alloc s2)\<lparr>sa_status := SEGMENT_ALLOCATING\<rparr>\<rparr>)
           (if \<not> ve_gc_buffer env then Some s1 else gc_loop move 0 s1))"

text \<open>\<open>junk\<close> is the content of the collector's buffer.\<close>

definition sa_foreground_gc :: "byte list \<Rightarrow> volume_env \<Rightarrow> volume \<Rightarrow> volume option" where
  "sa_foreground_gc junk env s = foreground_gc_with (move_victim env junk) env s"

definition sa_alloc :: "byte list \<Rightarrow> volume_env \<Rightarrow> volume \<Rightarrow> (unit result \<times> volume) option" where
  "sa_alloc junk env s = sa_alloc_with (sa_foreground_gc junk env) env s"

definition segbuf_push_block :: "byte list \<Rightarrow> volume_env \<Rightarrow> volume \<Rightarrow> nat \<Rightarrow> byte list \<Rightarrow> volume option" where
  "segbuf_push_block junk env s lba data = segbuf_push_block_with (sa_foreground_gc junk env) env s lba data"

definition sa_init :: "seg_validator \<Rightarrow> block_manager \<Rightarrow> default_segment_allocator result" where
  "sa_init sv bm =
     map_sum id (\<lambda>n. \<lparr>nr_valid_segment = n, sa_status = SEGMENT_ALLOCATING\<rparr>) (seg_validator_valid_segment_count sv bm)"

definition sa_create :: "bool \<Rightarrow> seg_validator \<Rightarrow> block_manager \<Rightarrow> default_segment_allocator option" where
  "sa_create ok sv bm = (if \<not> ok then None else case sa_init sv bm of Inl _ \<Rightarrow> None | Inr sa \<Rightarrow> Some sa)"

end
