(* ===== verification/Sworndisk.thy ===== *)
theory Sworndisk
  imports Segment
begin

text \<open>
  The device-mapper target (\<open>dm-sworndisk.c\<close>), with the bio helpers (\<open>bio_operate.c\<close>) and the parts of the
  segment buffer that take bios (\<open>segment_buffer.c\<close>): requests are cut at block boundaries, deferred to a
  worker, and served from the index, the segment buffer and the data device.
\<close>

section \<open>Requests\<close>

datatype bio_op = REQ_OP_READ | REQ_OP_WRITE | REQ_OP_OTHER

record bio =
  bi_op :: bio_op
  bi_sector :: nat
  bi_data :: "byte list"

text \<open>The sector is converted to a 32-bit number whenever it is read or set.\<close>

definition bio_get_sector :: "bio \<Rightarrow> nat" where
  "bio_get_sector bio = bi_sector bio mod 2 ^ 32"

definition bio_set_sector :: "bio \<Rightarrow> nat \<Rightarrow> bio" where
  "bio_set_sector bio sector = bio\<lparr>bi_sector := sector mod 2 ^ 32\<rparr>"

definition bio_get_data_len :: "bio \<Rightarrow> nat" where
  "bio_get_data_len bio = length (bi_data bio)"

definition bio_sectors :: "bio \<Rightarrow> nat" where
  "bio_sectors bio = bio_get_data_len bio div SECTOR_SIZE"

definition bio_get_block_address :: "bio \<Rightarrow> nat" where
  "bio_get_block_address bio = bio_get_sector bio div SECTORS_PER_BLOCK"

definition bio_block_sector_offset :: "bio \<Rightarrow> nat" where
  "bio_block_sector_offset bio = bio_get_sector bio mod SECTORS_PER_BLOCK"

text \<open>The transfer goes sector by sector and stops before the piece that would pass \<open>len\<close>.\<close>

function bio_pieces :: "byte list \<Rightarrow> byte list list" where
  "bio_pieces data = (if length data div SECTOR_SIZE > 1 then take SECTOR_SIZE data # bio_pieces (drop SECTOR_SIZE data) else [data])"
  by pat_completeness auto
termination by (relation "measure length") (auto simp: SECTOR_SIZE_def)

declare bio_pieces.simps [simp del]

fun transfer_from_bio :: "byte list list \<Rightarrow> nat \<Rightarrow> nat \<Rightarrow> nat \<Rightarrow> byte list \<Rightarrow> byte list" where
  "transfer_from_bio [] at offset len buf = buf"
| "transfer_from_bio (p # ps) at offset len buf =
     (if offset + length p > len then buf
      else transfer_from_bio ps at (offset + length p) len (overwrite (at + offset) p buf))"

fun transfer_to_bio :: "byte list list \<Rightarrow> nat \<Rightarrow> nat \<Rightarrow> byte list \<Rightarrow> byte list" where
  "transfer_to_bio [] offset len buf = []"
| "transfer_to_bio (p # ps) offset len buf =
     (if offset + length p > len then concat (p # ps)
      else slice offset (length p) buf @ transfer_to_bio ps (offset + length p) len buf)"

text \<open>The direction is that of the request: a write gives its data to the buffer from \<open>at\<close> on, a read
  takes its data from there.\<close>

definition bio_data_transfer :: "bio \<Rightarrow> nat \<Rightarrow> nat \<Rightarrow> byte list \<Rightarrow> bio \<times> byte list" where
  "bio_data_transfer bio at len buf =
     (case bi_op bio of
        REQ_OP_WRITE \<Rightarrow> (bio, transfer_from_bio (bio_pieces (bi_data bio)) at 0 len buf)
      | REQ_OP_READ \<Rightarrow> (bio\<lparr>bi_data := transfer_to_bio (bio_pieces (bi_data bio)) 0 len (drop at buf)\<rparr>, buf)
      | REQ_OP_OTHER \<Rightarrow> (bio, buf))"

text \<open>Only writes come to \<open>bio_get_data\<close> and only reads to \<open>bio_set_data\<close>, so that the first is used for the
  buffer and the second for the bio.\<close>

definition bio_get_data :: "bio \<Rightarrow> nat \<Rightarrow> nat \<Rightarrow> byte list \<Rightarrow> byte list" where
  "bio_get_data bio at len buf = snd (bio_data_transfer bio at len buf)"

definition bio_set_data :: "bio \<Rightarrow> nat \<Rightarrow> byte list \<Rightarrow> nat \<Rightarrow> bio" where
  "bio_set_data bio at buf len = fst (bio_data_transfer bio at len buf)"

section \<open>Requests in the segment buffer\<close>

datatype push_result = MODIFY_IN_MEM_BUFFER | PUSH_NEW_BLOCK

text \<open>Filling the current place of the buffer with the bio's data and pushing the block.\<close>

definition fill_buffer :: "byte list \<Rightarrow> volume_env \<Rightarrow> volume \<Rightarrow> bio \<Rightarrow> (push_result \<times> volume) option" where
  "fill_buffer junk env s bio =
     (let at = cur_sector (vo_buf s) * SECTOR_SIZE;
          buf = bio_get_data bio (at + bio_block_sector_offset bio * SECTOR_SIZE) (bio_get_data_len bio) (sg_buffer (vo_buf s))
      in map_option (\<lambda>s'. (PUSH_NEW_BLOCK, s'))
           (segbuf_push_block junk env (s\<lparr>vo_buf := (vo_buf s)\<lparr>sg_buffer := buf\<rparr>\<rparr>) (bio_get_block_address bio)
              (slice at DATA_BLOCK_SIZE buf)))"

text \<open>A block that is still in the buffer is changed there and encrypted again.\<close>

definition modify_in_buffer :: "volume_env \<Rightarrow> volume \<Rightarrow> bio \<Rightarrow> index_record \<Rightarrow> (push_result \<times> volume) option" where
  "modify_in_buffer env s bio rec =
     (let at = (pba rec - cur_segment (vo_buf s) * BLOCKS_PER_SEGMENT) * DATA_BLOCK_SIZE;
          buf = bio_get_data bio (at + bio_block_sector_offset bio * SECTOR_SIZE) (bio_get_data_len bio) (sg_buffer (vo_buf s));
          (ct, tag) = encrypt (le_cipher (ve_lsm env)) (rkey rec) (riv rec) (pba rec) (slice at DATA_BLOCK_SIZE buf);
          s1 = s\<lparr>vo_buf := (vo_buf s)\<lparr>sg_buffer := buf, sg_pipe := overwrite at ct (sg_pipe (vo_buf s))\<rparr>\<rparr>
      in case record_copy (ve_record env) (Some (rec\<lparr>rmac := tag\<rparr>)) of
           None \<Rightarrow> None
         | Some rec' \<Rightarrow> map_option (\<lambda>s'. (MODIFY_IN_MEM_BUFFER, s')) (volume_put env s1 (bio_get_block_address bio) rec'))"

text \<open>The old content of a block that is only partly written; the result of the decryption is ignored.\<close>

definition load_old_block :: "volume_env \<Rightarrow> volume \<Rightarrow> index_record \<Rightarrow> volume" where
  "load_old_block env s rec =
     (let at = cur_sector (vo_buf s) * SECTOR_SIZE;
          (_, data) = decrypt (le_cipher (ve_lsm env)) (rkey rec) (riv rec) (rmac rec) (pba rec) (sworndisk_read_blocks s (pba rec) 1)
      in s\<lparr>vo_buf := (vo_buf s)\<lparr>sg_buffer := overwrite at data (sg_buffer (vo_buf s))\<rparr>\<rparr>)"

definition segbuf_push_bio :: "byte list \<Rightarrow> volume_env \<Rightarrow> volume \<Rightarrow> bio \<Rightarrow> (push_result \<times> volume) option" where
  "segbuf_push_bio junk env s bio =
     (if bio_sectors bio \<ge> SECTORS_PER_BLOCK then fill_buffer junk env s bio
      else case volume_search env s (bio_get_block_address bio) of
             None \<Rightarrow> None
           | Some (Inl _, s1) \<Rightarrow> fill_buffer junk env s1 bio
           | Some (Inr rec, s1) \<Rightarrow>
               let buf_begin = cur_segment (vo_buf s1) * BLOCKS_PER_SEGMENT;
                   buf_end = buf_begin + cur_sector (vo_buf s1) div SECTORS_PER_BLOCK
               in if pba rec < buf_begin \<or> buf_end \<le> pba rec
                  then fill_buffer junk env (load_old_block env s1 rec) bio
                  else modify_in_buffer env s1 bio rec)"

definition segbuf_query_bio :: "default_segment_buffer \<Rightarrow> bio \<Rightarrow> unit result \<times> bio" where
  "segbuf_query_bio this bio =
     (let sector = bio_get_sector bio;
          begin = cur_segment this * SECTOES_PER_SEGMENT;
          end = begin + cur_sector this
      in if sector < begin \<or> end < sector + bio_sectors bio then (Inl ENODATA, bio)
         else (Inr (), bio_set_data bio ((sector - begin) * SECTOR_SIZE) (sg_buffer this) (bio_get_data_len bio)))"

definition segbuf_destroy :: "volume \<Rightarrow> volume" where
  "segbuf_destroy s = segbuf_flush_bios s"

text \<open>While the first segment is allocated the volume has no buffer: a collection that has to move a
  block follows the null pointer.\<close>

definition segbuf_init :: "bool \<Rightarrow> bool \<Rightarrow> byte list \<Rightarrow> byte list \<Rightarrow> volume_env \<Rightarrow> volume \<Rightarrow> (unit result \<times> volume) option" where
  "segbuf_init ok_buffer ok_pipe junk_buffer junk_pipe env s =
     (case sa_alloc_with (foreground_gc_with (\<lambda>victim s. if v_nr_valid_block victim = 0 then Some s else None) env) env s of
        None \<Rightarrow> None
      | Some (Inl r, s1) \<Rightarrow> Some (Inl r, s1)
      | Some (Inr _, s1) \<Rightarrow>
          if \<not> ok_buffer \<or> \<not> ok_pipe then Some (Inl ENOMEM, s1)
          else Some (Inr (), s1\<lparr>vo_buf := (vo_buf s1)\<lparr>cur_sector := 0, sg_buffer := take SEGMENT_BUFFER_SIZE junk_buffer,
                                                      sg_pipe := take SEGMENT_BUFFER_SIZE junk_pipe\<rparr>\<rparr>))"

definition segbuf_create ::
  "bool \<Rightarrow> bool \<Rightarrow> bool \<Rightarrow> byte list \<Rightarrow> byte list \<Rightarrow> volume_env \<Rightarrow> volume \<Rightarrow> (bool \<times> volume) option" where
  "segbuf_create ok ok_buffer ok_pipe junk_buffer junk_pipe env s =
     (if \<not> ok then Some (False, s)
      else map_option (\<lambda>(r, s'). (is_ok r, s')) (segbuf_init ok_buffer ok_pipe junk_buffer junk_pipe env s))"

section \<open>The prefetcher\<close>

definition MIN_NR_FETCH :: nat where "MIN_NR_FETCH = 1"
definition MAX_NR_FETCH :: nat where "MAX_NR_FETCH = 64"

record bio_prefetcher =
  pf_buffer :: "byte list"
  pf_begin :: nat
  pf_end :: nat
  last_blkaddr :: nat
  nr_fetch :: nat

definition bio_prefetcher_init :: "byte list \<Rightarrow> bio_prefetcher" where
  "bio_prefetcher_init junk = \<lparr>pf_buffer = take (MAX_NR_FETCH * DATA_BLOCK_SIZE) junk, pf_begin = 0, pf_end = 0,
     last_blkaddr = 0, nr_fetch = MIN_NR_FETCH + 1\<rparr>"

definition bio_prefetcher_empty :: "bio_prefetcher \<Rightarrow> bool" where
  "bio_prefetcher_empty this \<longleftrightarrow> pf_end this \<le> pf_begin this"

definition bio_prefetcher_incache :: "bio_prefetcher \<Rightarrow> nat \<Rightarrow> bool" where
  "bio_prefetcher_incache this blkaddr \<longleftrightarrow> pf_begin this \<le> blkaddr \<and> blkaddr < pf_end this"

definition bio_prefetcher_clear :: "bio_prefetcher \<Rightarrow> bio_prefetcher" where
  "bio_prefetcher_clear this = this\<lparr>pf_begin := 0, pf_end := 0\<rparr>"

definition bio_prefetcher_fetch :: "nat \<Rightarrow> volume \<Rightarrow> nat \<Rightarrow> bio_prefetcher \<Rightarrow> bio_prefetcher" where
  "bio_prefetcher_fetch nr_seg s blkaddr this =
     (let remain_block = sub64 (nr_seg * BLOCKS_PER_SEGMENT) blkaddr;
          fetched = min (nr_fetch this) remain_block
      in this\<lparr>pf_buffer := overwrite 0 (sworndisk_read_blocks s blkaddr fetched) (pf_buffer this),
              pf_end := blkaddr + fetched,
              nr_fetch := (if sub64 (last_blkaddr this) (pf_begin this) < nr_fetch this div 4 * 3
                           then max (nr_fetch this div 2) (MIN_NR_FETCH + 1) else nr_fetch this),
              pf_begin := blkaddr\<rparr>)"

definition bio_prefetcher_get :: "nat \<Rightarrow> volume \<Rightarrow> nat \<Rightarrow> bio_prefetcher \<Rightarrow> byte list \<times> bio_prefetcher" where
  "bio_prefetcher_get nr_seg s blkaddr this =
     (let this' = (if \<not> bio_prefetcher_incache this blkaddr then bio_prefetcher_fetch nr_seg s blkaddr this
                   else this\<lparr>nr_fetch := (if nr_fetch this div 2 \<le> blkaddr - pf_begin this then min (nr_fetch this * 2) MAX_NR_FETCH
                                          else nr_fetch this),
                             last_blkaddr := blkaddr\<rparr>)
      in (slice ((blkaddr - pf_begin this') * DATA_BLOCK_SIZE) DATA_BLOCK_SIZE (pf_buffer this'), this'))"

section \<open>Serving requests\<close>

record dm_sworndisk =
  sd_volume :: volume
  sd_prefetcher :: bio_prefetcher

text \<open>A block that is not in the index, or does not decrypt, leaves the data of the bio as they are; the
  bio always ends without an error. \<open>ok\<close> is the allocation of the buffer.\<close>

definition sworndisk_do_read :: "bool \<Rightarrow> volume_env \<Rightarrow> dm_sworndisk \<Rightarrow> bio \<Rightarrow> (bio \<times> dm_sworndisk) option" where
  "sworndisk_do_read ok env sd bio =
     (case volume_search env (sd_volume sd) (bio_get_block_address bio) of
        None \<Rightarrow> None
      | Some (Inl _, s) \<Rightarrow> Some (bio, sd\<lparr>sd_volume := s\<rparr>)
      | Some (Inr rec, s) \<Rightarrow>
          let bio1 = bio_set_sector bio (pba rec * SECTORS_PER_BLOCK + bio_block_sector_offset bio)
          in case segbuf_query_bio (vo_buf s) bio1 of
               (Inr _, bio2) \<Rightarrow> Some (bio2, sd\<lparr>sd_volume := s\<rparr>)
             | (Inl _, _) \<Rightarrow>
                 if \<not> ok then None
                 else case bio_prefetcher_get (NR_SEGMENT env) s (pba rec) (sd_prefetcher sd) of
                        (buf, pf) \<Rightarrow>
                          (case decrypt (le_cipher (ve_lsm env)) (rkey rec) (riv rec) (rmac rec) (pba rec) buf of
                             (Inl _, _) \<Rightarrow> Some (bio1, \<lparr>sd_volume = s, sd_prefetcher = pf\<rparr>)
                           | (Inr _, data) \<Rightarrow>
                               Some (bio_set_data bio1 (bio_block_sector_offset bio1 * SECTOR_SIZE) data (bio_get_data_len bio1),
                                     \<lparr>sd_volume = s, sd_prefetcher = pf\<rparr>)))"

definition sworndisk_do_write :: "byte list \<Rightarrow> volume_env \<Rightarrow> dm_sworndisk \<Rightarrow> bio \<Rightarrow> dm_sworndisk option" where
  "sworndisk_do_write junk env sd bio =
     map_option (\<lambda>(_, s). \<lparr>sd_volume = s, sd_prefetcher = bio_prefetcher_clear (sd_prefetcher sd)\<rparr>)
       (segbuf_push_bio junk env (sd_volume sd) bio)"

text \<open>A request that reaches into the next block is cut; the device mapper submits the rest again.\<close>

datatype map_result = DM_MAPIO_SUBMITTED | DM_MAPIO_REMAPPED

definition dm_sworndisk_target_map :: "bio \<Rightarrow> bio list \<Rightarrow> map_result \<times> bio \<times> bio list" where
  "dm_sworndisk_target_map bio deferred =
     (let block_aligned = SECTORS_PER_BLOCK - bio_block_sector_offset bio;
          bio' = (if bio_sectors bio > block_aligned then bio\<lparr>bi_data := take (block_aligned * SECTOR_SIZE) (bi_data bio)\<rparr> else bio)
      in if bi_op bio = REQ_OP_OTHER then (DM_MAPIO_REMAPPED, bio', deferred)
         else (DM_MAPIO_SUBMITTED, bio', deferred @ [bio']))"

end
