(* ===== verification/Volume.thy ===== *)
theory Volume
  imports Sworndisk
begin

text \<open>
  The state of a volume as a whole: the tables of the metadata side by side on one device, the index in
  front of them, and the log of encrypted blocks, part of it still in the segment buffer. The
  invariant says how the three agree.
\<close>

section \<open>Tables side by side\<close>

text \<open>A change of the metadata device that stays within some blocks.\<close>

definition bm_within :: "nat set \<Rightarrow> block_manager \<Rightarrow> block_manager \<Rightarrow> bool" where
  "bm_within B bm bm' \<longleftrightarrow> bm_ok bm' \<and> bm_block_size bm' = SWORNDISK_METADATA_BLOCK_SIZE \<and> (\<forall>b. b \<notin> B \<longrightarrow> bm_buf bm' b = bm_buf bm b)"

lemma bm_within_trans: "bm_within A bm1 bm2 \<Longrightarrow> bm_within B bm2 bm3 \<Longrightarrow> A \<union> B \<subseteq> C \<Longrightarrow> bm_within C bm1 bm3"
  unfolding bm_within_def by (metis Un_iff subsetD)

lemma da_inv_within: "da_inv a bm \<Longrightarrow> bm_within B bm bm' \<Longrightarrow> da_inv a bm'"
  by (simp add: da_inv_def bm_within_def)

lemma da_sized_within: "da_sized z a bm \<Longrightarrow> bm_within B bm bm' \<Longrightarrow> da_sized z a bm'"
  by (auto simp: da_sized_def intro: da_inv_within)

lemma get_within:
  "da_inv a bm \<Longrightarrow> bm_within B bm bm' \<Longrightarrow> B \<inter> da_span a = {} \<Longrightarrow> disk_array_get a bm' i = disk_array_get a bm i"
  by (rule disk_array_get_cong) (auto intro: da_inv_within, auto simp: bm_within_def)

lemma set_within:
  assumes "da_inv a bm" "length e = da_entry_size a" "disk_array_set a bm i e = (r, bm')"
  shows "bm_within (da_span a) bm bm'"
proof -
  have "bm_ok bm'" "bm_block_size bm' = SWORNDISK_METADATA_BLOCK_SIZE"
    using assms da_store_inv(1) [OF assms(1,2), of i] disk_array_set_ok [of bm e a i]
    by (auto simp: da_inv_def split: if_splits)
  then show ?thesis using disk_array_set_span [OF assms] by (auto simp: bm_within_def)
qed

abbreviation "sv_span sv \<equiv> da_span (db_array (seg_validity_table sv))"

lemma sv_within:
  assumes "sv_inv (sv, bm)" "bm_within B bm bm'"
  shows "sv_inv (sv, bm')" "B \<inter> sv_span sv = {} \<Longrightarrow> sv_used (sv, bm') = sv_used (sv, bm)"
  using assms da_inv_within [OF _ assms(2)] get_within [of "db_array (seg_validity_table sv)" bm B bm']
  by (auto simp: sv_inv_def db_inv_def sv_used_def disk_bitset_get_def)

lemma operate_within:
  assumes "sv_inv (sv, bm)" "disk_bitset_operate (seg_validity_table sv) bm i v = (r, bm')"
  shows "bm_within (sv_span sv) bm bm'"
proof -
  have d: "da_inv (db_array (seg_validity_table sv)) bm" "da_entry_size (db_array (seg_validity_table sv)) = 8"
    using assms(1) by (simp_all add: sv_inv_def db_inv_def db_ok_def)
  then have "bm_within (sv_span sv) bm bm" by (simp add: bm_within_def da_inv_def)
  then show ?thesis using assms(2) set_within [OF d(1), of "of_long _"] d(2)
    by (auto simp: disk_bitset_operate_def Let_def split: if_splits sum.splits)
qed

lemma dst_ok_within: "dst_ok d bm \<Longrightarrow> bm_within B bm bm' \<Longrightarrow> dst_ok d bm'"
  by (auto simp: dst_ok_def intro: da_sized_within)

lemma dst_entry_within:
  "dst_ok d bm \<Longrightarrow> bm_within B bm bm' \<Longrightarrow> B \<inter> da_span (dst_array d) = {} \<Longrightarrow> dst_entry_at d bm' i = dst_entry_at d bm i"
  using get_within [of "dst_array d" bm B bm'] by (simp add: dst_entry_at_def dst_get_entry_def dst_ok_def da_sized_def)

lemma rit_get_within:
  "da_sized 8 (rit_array r) bm \<Longrightarrow> bm_within B bm bm' \<Longrightarrow> B \<inter> da_span (rit_array r) = {} \<Longrightarrow>
   reverse_index_table_get r bm' b = reverse_index_table_get r bm b"
  using get_within [of "rit_array r" bm B bm'] by (simp add: reverse_index_table_get_def reverse_index_table_get_entry_def da_sized_def)

lemma cat_within:
  assumes "cat_inv (cat, bm)" "bm_within B bm bm'"
  shows "cat_inv (cat, bm')" "B \<inter> cat_span cat = {} \<Longrightarrow> cat_used (cat, bm') = cat_used (cat, bm)"
  using assms sv_within [OF _ assms(2)] da_sized_within [OF _ assms(2)] by (auto simp: cat_inv_def cat_used_def cat_span_def cat_bits_def Int_Un_distrib)

section \<open>The index\<close>

definition tree_holds :: "lsm_env \<Rightarrow> lsm_tree \<Rightarrow> (u32 \<rightharpoonup> index_record) \<Rightarrow> bool" where
  "tree_holds env t M \<longleftrightarrow> (\<exists>esss. tree_inv env t esss \<and> lsm_map t esss = M)"

lemma tree_holds_cat: "tree_holds env t M \<Longrightarrow> cat_inv (ld_cat (tr_disk t), ld_bm (tr_disk t))"
  by (auto simp: tree_holds_def tree_inv_def disk_ok_def)

lemma tree_holds_search:
  assumes "tree_holds env t M"
  obtains t' where "lsm_tree_search env t k = Some (found (M k), t')" "tree_holds env t' M" "tr_disk t' = tr_disk t"
    "\<And>n. tree_room t n \<Longrightarrow> tree_room t' n"
proof -
  obtain esss where e: "tree_inv env t esss" "lsm_map t esss = M" using assms by (auto simp: tree_holds_def)
  obtain t' where s: "lsm_tree_search env t k = Some (found (lsm_map t esss k), t')" "tree_inv env t' esss"
    "lsm_map t' esss = lsm_map t esss" "tr_memtable t' = tr_memtable t" "tr_disk t' = tr_disk t"
    "list_all2 same_level (tr_levels t) (tr_levels t')" by (rule lsm_search_ok [OF e(1)]) (rule that)
  have "tree_room t' n" if "tree_room t n" for n
    by (rule tree_room_same [OF that s(4-6)]) (use e(1) in \<open>simp add: tree_inv_def\<close>)
  moreover have "tree_holds env t' M" using s(2,3) e(2) by (auto simp: tree_holds_def)
  ultimately show thesis using s(1,5) e(2) that by blast
qed

lemma tree_holds_put:
  assumes "tree_holds env t M" "key_ok k" "wf_record r" "tree_room t (Suc n)"
  obtains t' where "lsm_tree_put env True ok_job ok_heap t k r = Some t'" "tree_holds env t' (M(k \<mapsto> r))" "tree_room t' n"
    "disk_frame (tr_disk t) (tr_disk t')"
proof -
  obtain esss where e: "tree_inv env t esss" "lsm_map t esss = M" using assms(1) by (auto simp: tree_holds_def)
  obtain t' esss' where p: "lsm_tree_put env True ok_job ok_heap t k r = Some t'" "tree_inv env t' esss'"
    "lsm_map t' esss' = (lsm_map t esss)(k \<mapsto> r)" "tree_room t' n" "disk_frame (tr_disk t) (tr_disk t')"
    by (rule put_ok [OF e(1) assms(2-4)]) (rule that)
  moreover have "tree_holds env t' (M(k \<mapsto> r))" using p(2,3) e(2) by (auto simp: tree_holds_def)
  ultimately show thesis using that by blast
qed

text \<open>Changes of the random numbers and of metadata blocks outside the catalogue.\<close>

definition tree_with :: "rng \<Rightarrow> block_manager \<Rightarrow> lsm_tree \<Rightarrow> lsm_tree" where
  "tree_with r bm t = t\<lparr>tr_disk := (tr_disk t)\<lparr>ld_rng := r, ld_bm := bm\<rparr>\<rparr>"

lemma tree_holds_with:
  assumes "tree_holds env t M" "bm_within B (ld_bm (tr_disk t)) bm" "B \<inter> cat_span (ld_cat (tr_disk t)) = {}"
  shows "tree_holds env (tree_with r bm t) M"
proof -
  let ?d = "tr_disk t" and ?d' = "(tr_disk t)\<lparr>ld_rng := r, ld_bm := bm\<rparr>"
  obtain esss where e: "tree_inv env t esss" "lsm_map t esss = M" using assms(1) by (auto simp: tree_holds_def)
  have c: "cat_inv (ld_cat ?d, ld_bm ?d)" by (rule tree_holds_cat [OF assms(1)])
  note C = cat_within [OF c assms(2)]
  have d: "disk_ok ?d'" using e(1) C(1) by (simp add: tree_inv_def disk_ok_def)
  have u: "ld_used ?d' = ld_used ?d" using C(2) [OF assms(3)] by simp
  have lv: "level_at env ?d' i lv ess" if "level_at env ?d i lv ess" for i lv ess
    by (rule level_at_frame [OF that]) (use u in auto)
  have "levels_at env ?d' (tr_levels t) esss" using e(1) lv by (auto simp: tree_inv_def levels_at_def)
  then have "tree_inv env (tree_with r bm t) esss" using e(1) d by (simp add: tree_inv_def tree_with_def)
  moreover have "lsm_map (tree_with r bm t) esss = M" using e(2) by (simp add: lsm_map_def tree_with_def)
  ultimately show ?thesis by (auto simp: tree_holds_def)
qed

lemma tree_room_with:
  assumes "tree_holds env t M" "bm_within B (ld_bm (tr_disk t)) bm" "B \<inter> cat_span (ld_cat (tr_disk t)) = {}"
  shows "tree_room (tree_with r bm t) n = tree_room t n"
  using cat_within(2) [OF tree_holds_cat [OF assms(1)] assms(2,3)] by (simp add: tree_room_def tree_with_def Let_def)

lemma tree_room_mono: "tree_room t n \<Longrightarrow> m \<le> n \<Longrightarrow> tree_room t m"
  unfolding tree_room_def Let_def
  using div_le_mono [of "rt_size (tr_memtable t) + m" "rt_size (tr_memtable t) + n" DEFAULT_MEMTABLE_CAPACITY] by auto

section \<open>The data segment table\<close>

definition dst_wf :: "dst \<Rightarrow> block_manager \<Rightarrow> bool" where
  "dst_wf d bm \<longleftrightarrow> dst_ok d bm \<and> vt_ok d \<and> length (node_list d) = dst_nr_segment d"

lemma dst_set_within: "dst_ok d bm \<Longrightarrow> dst_set_entry d bm i e = (r, bm') \<Longrightarrow> bm_within (da_span (dst_array d)) bm bm'"
  by (rule set_within [of _ _ "dst_enc e" i r]) (simp_all add: dst_ok_def da_sized_def dst_set_entry_def)

text \<open>The outcome of an operation that writes \<open>e\<close> into the entry of segment \<open>i\<close>.\<close>

definition dst_changed :: "dst \<Rightarrow> block_manager \<Rightarrow> nat \<Rightarrow> dst_entry \<Rightarrow> dst \<Rightarrow> block_manager \<Rightarrow> bool" where
  "dst_changed d bm i e d' bm' \<longleftrightarrow> dst_wf d' bm' \<and> dst_array d' = dst_array d \<and> dst_nr_segment d' = dst_nr_segment d \<and>
     node_list d' = (node_list d)[i := victim_of i e] \<and> bm_within (da_span (dst_array d)) bm bm' \<and>
     (\<forall>j < dst_nr_segment d. dst_entry_at d' bm' j = (if j = i then e else dst_entry_at d bm j))"

lemma dst_write_back_changed:
  assumes wf: "dst_wf d bm" and i: "i < dst_nr_segment d" and e: "nr_valid_block e < 2 ^ 64"
  obtains d' bm' where "dst_write_back True d bm i e = (Inr (), d', bm')" "dst_changed d bm i e d' bm'"
proof -
  have W: "dst_ok d bm" "vt_ok d" "i < length (node_list d)" using wf i by (simp_all add: dst_wf_def)
  obtain bm' where s: "dst_set_entry d bm i e = (Inr (), bm')" "dst_ok d bm'"
    "\<And>j. j < dst_nr_segment d \<Longrightarrow> dst_entry_at d bm' j = (if j = i then e else dst_entry_at d bm j)"
    by (rule dst_set_ok [OF W(1) i e]) (rule that)
  obtain r d' where u: "dst_update_victim True d i (nr_valid_block e) (block_validity_table e) = (r, d')" by (metis prod.collapse)
  note U = dst_update_ok [OF W(2,3) u]
  have "dst_changed d bm i e d' bm'"
    using U s(2,3) wf dst_set_within [OF W(1) s(1)] dst_entry_at_cong [OF U(4)]
    by (simp add: dst_changed_def dst_wf_def dst_ok_def)
  then show thesis using u U(1) s(1) by (intro that) (simp_all add: dst_write_back_def)
qed

lemma dst_return_changed:
  assumes wf: "dst_wf d bm" and i: "block_to_segment b = i" "i < dst_nr_segment d" and e: "nr_valid_block (dst_entry_at d bm i) \<noteq> 0"
  obtains d' bm' where "dst_return_block True d bm b = (Inr (), d', bm')"
    "dst_changed d bm i \<lparr>nr_valid_block = nr_valid_block (dst_entry_at d bm i) - 1,
       block_validity_table = unset_bit (block_offset_within_segment b) (block_validity_table (dst_entry_at d bm i))\<rparr> d' bm'"
proof -
  have g: "dst_get_entry d bm i = Inr (dst_entry_at d bm i)" "nr_valid_block (dst_entry_at d bm i) - 1 < 2 ^ 64"
    using dst_get_ok [of d bm i] wf i(2) by (auto simp: dst_wf_def)
  show thesis
    by (rule dst_write_back_changed [OF wf i(2), of "\<lparr>nr_valid_block = nr_valid_block (dst_entry_at d bm i) - 1,
         block_validity_table = unset_bit (block_offset_within_segment b) (block_validity_table (dst_entry_at d bm i))\<rparr>"])
      (use g e i(1) that in \<open>simp_all add: dst_return_block_def Let_def dst_entry_update\<close>)
qed

lemma dst_take_changed:
  assumes wf: "dst_wf d bm" and i: "i < dst_nr_segment d" and e: "nr_valid_block (dst_entry_at d bm i) = 0"
  obtains d' bm' where "dst_take_segment d bm i = (Inr (), d', bm')"
    "dst_changed d bm i \<lparr>nr_valid_block = BLOCKS_PER_SEGMENT, block_validity_table = - 1\<rparr> d' bm'"
proof -
  let ?e = "\<lparr>nr_valid_block = BLOCKS_PER_SEGMENT, block_validity_table = - 1\<rparr> :: dst_entry"
  have W: "dst_ok d bm" "vt_ok d" "i < length (node_list d)" using wf i by (simp_all add: dst_wf_def)
  have g: "dst_get_entry d bm i = Inr (dst_entry_at d bm i)" using dst_get_ok [OF W(1) i] by simp
  obtain bm' where s: "dst_set_entry d bm i ?e = (Inr (), bm')" "dst_ok d bm'"
    "\<And>j. j < dst_nr_segment d \<Longrightarrow> dst_entry_at d bm' j = (if j = i then ?e else dst_entry_at d bm j)"
    by (rule dst_set_ok [OF W(1) i, of ?e]) (simp add: BLOCKS_PER_SEGMENT_def, rule that)
  note D = dst_destroy_ok [OF W(2,3)]
  have "dst_changed d bm i ?e (dst_destroy_victim d i) bm'"
    using D s(2,3) wf dst_set_within [OF W(1) s(1)] dst_entry_at_cong [OF D(3)]
    by (simp add: dst_changed_def dst_wf_def dst_ok_def victim_of_def)
  then show thesis using g e s(1) by (intro that) (simp_all add: dst_take_segment_def dst_entry_update)
qed

section \<open>The tables of a volume\<close>

abbreviation "vo_cat s \<equiv> ld_cat (tr_disk (vo_tree s))"
abbreviation "vo_used s \<equiv> sv_used (vo_sv s, vo_bm s)"
abbreviation "vo_entry s \<equiv> dst_entry_at (vo_dst s) (vo_bm s)"

definition vo_lba :: "volume \<Rightarrow> nat \<Rightarrow> nat" where
  "vo_lba s b = projr (reverse_index_table_get (vo_rit s) (vo_bm s) b)"

definition spans_apart :: "volume \<Rightarrow> bool" where
  "spans_apart s \<longleftrightarrow>
     sv_span (vo_sv s) \<inter> da_span (rit_array (vo_rit s)) = {} \<and> sv_span (vo_sv s) \<inter> da_span (dst_array (vo_dst s)) = {} \<and>
     sv_span (vo_sv s) \<inter> cat_span (vo_cat s) = {} \<and> da_span (rit_array (vo_rit s)) \<inter> da_span (dst_array (vo_dst s)) = {} \<and>
     da_span (rit_array (vo_rit s)) \<inter> cat_span (vo_cat s) = {} \<and> da_span (dst_array (vo_dst s)) \<inter> cat_span (vo_cat s) = {}"

definition tables_ok :: "volume_env \<Rightarrow> volume \<Rightarrow> bool" where
  "tables_ok env s \<longleftrightarrow> sv_inv (vo_sv s, vo_bm s) \<and> sv_nr_segment (vo_sv s) = NR_SEGMENT env \<and>
     da_sized 8 (rit_array (vo_rit s)) (vo_bm s) \<and> da_nr_entry (rit_array (vo_rit s)) = NR_SEGMENT env * BLOCKS_PER_SEGMENT \<and>
     dst_wf (vo_dst s) (vo_bm s) \<and> dst_nr_segment (vo_dst s) = NR_SEGMENT env \<and> spans_apart s"

definition index_ok :: "volume_env \<Rightarrow> volume \<Rightarrow> (u32 \<rightharpoonup> index_record) \<Rightarrow> bool" where
  "index_ok env s M \<longleftrightarrow> tables_ok env s \<and> tree_holds (ve_lsm env) (vo_tree s) M"

lemma set_bm_tree: "set_bm bm s = s\<lparr>vo_tree := tree_with (vo_rng s) bm (vo_tree s)\<rparr>"
  by (simp add: set_bm_def tree_with_def)

lemma set_rng_tree: "set_rng r s = s\<lparr>vo_tree := tree_with r (vo_bm s) (vo_tree s)\<rparr>"
  by (simp add: set_rng_def tree_with_def)

lemma tree_with_simps [simp]:
  "ld_bm (tr_disk (tree_with r bm t)) = bm" "ld_cat (tr_disk (tree_with r bm t)) = ld_cat (tr_disk t)"
  "ld_rng (tr_disk (tree_with r bm t)) = r"
  by (simp_all add: tree_with_def)

lemma bm_within_refl: "da_inv a bm \<Longrightarrow> bm_within B bm bm"
  by (simp add: bm_within_def da_inv_def)

lemma tables_bm: "tables_ok env s \<Longrightarrow> bm_within {} (vo_bm s) (vo_bm s)"
  by (rule bm_within_refl [of "rit_array (vo_rit s)"]) (simp add: tables_ok_def da_sized_def)

text \<open>What an operation on one table leaves of the others.\<close>

lemma index_ok_dst:
  assumes ix: "index_ok env s M" and ch: "dst_changed (vo_dst s) (vo_bm s) i e d' bm'"
  defines "s' \<equiv> set_bm bm' (s\<lparr>vo_dst := d'\<rparr>)"
  shows "index_ok env s' M" "vo_used s' = vo_used s" "vo_lba s' = vo_lba s" "\<And>n. tree_room (vo_tree s') n = tree_room (vo_tree s) n"
    "\<And>j. j < NR_SEGMENT env \<Longrightarrow> vo_entry s' j = (if j = i then e else vo_entry s j)"
    "node_list (vo_dst s') = (node_list (vo_dst s))[i := victim_of i e]"
proof -
  have T: "tables_ok env s" "tree_holds (ve_lsm env) (vo_tree s) M" using ix by (simp_all add: index_ok_def)
  have w: "bm_within (da_span (dst_array (vo_dst s))) (vo_bm s) bm'" using ch by (simp add: dst_changed_def)
  have dis: "da_span (dst_array (vo_dst s)) \<inter> cat_span (vo_cat s) = {}" "da_span (dst_array (vo_dst s)) \<inter> sv_span (vo_sv s) = {}"
    "da_span (dst_array (vo_dst s)) \<inter> da_span (rit_array (vo_rit s)) = {}"
    using T(1) by (auto simp: tables_ok_def spans_apart_def)
  have sv: "sv_inv (vo_sv s, vo_bm s)" "da_sized 8 (rit_array (vo_rit s)) (vo_bm s)" using T(1) by (simp_all add: tables_ok_def)
  have "tables_ok env s'"
    using T(1) ch sv_within(1) [OF sv(1) w] da_sized_within [OF sv(2) w]
    by (simp add: tables_ok_def s'_def set_bm_tree dst_changed_def spans_apart_def)
  then show "index_ok env s' M" using tree_holds_with [OF T(2) w dis(1)] by (simp add: index_ok_def s'_def set_bm_tree)
  show "vo_used s' = vo_used s" using sv_within(2) [OF sv(1) w dis(2)] by (simp add: s'_def set_bm_tree)
  show "vo_lba s' = vo_lba s" using rit_get_within [OF sv(2) w dis(3)] by (simp add: fun_eq_iff s'_def set_bm_tree vo_lba_def)
  show "tree_room (vo_tree s') n = tree_room (vo_tree s) n" for n
    using tree_room_with [OF T(2) w dis(1)] by (simp add: s'_def set_bm_tree)
  show "vo_entry s' j = (if j = i then e else vo_entry s j)" if "j < NR_SEGMENT env" for j
    using ch that T(1) by (simp add: s'_def set_bm_tree dst_changed_def tables_ok_def)
  show "node_list (vo_dst s') = (node_list (vo_dst s))[i := victim_of i e]"
    using ch by (simp add: s'_def set_bm_tree dst_changed_def)
qed

lemma index_ok_rit:
  assumes ix: "index_ok env s M" and b: "b < NR_SEGMENT env * BLOCKS_PER_SEGMENT" and lba: "lba < 2 ^ 64"
  defines "s' \<equiv> set_bm (snd (reverse_index_table_set (vo_rit s) (vo_bm s) b lba)) s"
  shows "index_ok env s' M" "vo_used s' = vo_used s" "\<And>n. tree_room (vo_tree s') n = tree_room (vo_tree s) n"
    "\<And>j. vo_entry s' j = vo_entry s j"
    "\<And>c. c < NR_SEGMENT env * BLOCKS_PER_SEGMENT \<Longrightarrow> vo_lba s' c = (if c = b then lba else vo_lba s c)"
proof -
  have T: "tables_ok env s" "tree_holds (ve_lsm env) (vo_tree s) M" using ix by (simp_all add: index_ok_def)
  have sv: "sv_inv (vo_sv s, vo_bm s)" "da_sized 8 (rit_array (vo_rit s)) (vo_bm s)" "b < da_nr_entry (rit_array (vo_rit s))"
    "dst_wf (vo_dst s) (vo_bm s)" using T(1) b by (simp_all add: tables_ok_def)
  obtain bm' where r: "disk_array_set (rit_array (vo_rit s)) (vo_bm s) b (rit_enc lba) = (Inr (), bm')" "da_sized 8 (rit_array (vo_rit s)) bm'"
    "\<forall>j < da_nr_entry (rit_array (vo_rit s)). map_sum id rit_dec (disk_array_get (rit_array (vo_rit s)) bm' j) =
       (if j = b then Inr lba else map_sum id rit_dec (disk_array_get (rit_array (vo_rit s)) (vo_bm s) j))"
    using rit_table.typed.set_cell [OF sv(2,3) lba] by blast
  have s': "s' = set_bm bm' s" by (simp add: s'_def reverse_index_table_set_def reverse_index_table_set_entry_def r(1))
  have w: "bm_within (da_span (rit_array (vo_rit s))) (vo_bm s) bm'"
    by (rule set_within [OF _ _ r(1)]) (use sv(2) in \<open>simp_all add: da_sized_def rit_enc_def\<close>)
  have dis: "da_span (rit_array (vo_rit s)) \<inter> cat_span (vo_cat s) = {}" "da_span (rit_array (vo_rit s)) \<inter> sv_span (vo_sv s) = {}"
    "da_span (rit_array (vo_rit s)) \<inter> da_span (dst_array (vo_dst s)) = {}"
    using T(1) by (auto simp: tables_ok_def spans_apart_def)
  have "tables_ok env s'"
    using T(1) r(2) sv_within(1) [OF sv(1) w] dst_ok_within [OF _ w] sv(4)
    by (simp add: tables_ok_def s' set_bm_tree dst_wf_def spans_apart_def)
  then show "index_ok env s' M" using tree_holds_with [OF T(2) w dis(1)] by (simp add: index_ok_def s' set_bm_tree)
  show "vo_used s' = vo_used s" using sv_within(2) [OF sv(1) w dis(2)] by (simp add: s' set_bm_tree)
  show "tree_room (vo_tree s') n = tree_room (vo_tree s) n" for n
    using tree_room_with [OF T(2) w dis(1)] by (simp add: s' set_bm_tree)
  show "vo_entry s' j = vo_entry s j" for j
    using dst_entry_within [OF _ w dis(3), of j] sv(4) by (simp add: s' set_bm_tree dst_wf_def)
  show "vo_lba s' c = (if c = b then lba else vo_lba s c)" if "c < NR_SEGMENT env * BLOCKS_PER_SEGMENT" for c
    using r(3) that T(1) by (simp add: s' set_bm_tree vo_lba_def reverse_index_table_get_def reverse_index_table_get_entry_def tables_ok_def)
qed

lemma index_ok_sv:
  assumes ix: "index_ok env s M" and sv': "sv_inv (sv', bm')" "seg_validity_table sv' = seg_validity_table (vo_sv s)"
      "sv_nr_segment sv' = sv_nr_segment (vo_sv s)"
    and w: "bm_within (sv_span (vo_sv s)) (vo_bm s) bm'"
  defines "s' \<equiv> set_bm bm' (s\<lparr>vo_sv := sv'\<rparr>)"
  shows "index_ok env s' M" "vo_lba s' = vo_lba s" "\<And>n. tree_room (vo_tree s') n = tree_room (vo_tree s) n"
    "\<And>j. vo_entry s' j = vo_entry s j" "vo_used s' = sv_used (sv', bm')"
proof -
  have T: "tables_ok env s" "tree_holds (ve_lsm env) (vo_tree s) M" using ix by (simp_all add: index_ok_def)
  have sv: "da_sized 8 (rit_array (vo_rit s)) (vo_bm s)" "dst_wf (vo_dst s) (vo_bm s)" using T(1) by (simp_all add: tables_ok_def)
  have dis: "sv_span (vo_sv s) \<inter> cat_span (vo_cat s) = {}" "sv_span (vo_sv s) \<inter> da_span (rit_array (vo_rit s)) = {}"
    "sv_span (vo_sv s) \<inter> da_span (dst_array (vo_dst s)) = {}"
    using T(1) by (auto simp: tables_ok_def spans_apart_def)
  have "tables_ok env s'"
    using T(1) sv' da_sized_within [OF sv(1) w] dst_ok_within [OF _ w] sv(2)
    by (simp add: tables_ok_def s'_def set_bm_tree dst_wf_def spans_apart_def)
  then show "index_ok env s' M" using tree_holds_with [OF T(2) w dis(1)] by (simp add: index_ok_def s'_def set_bm_tree)
  show "vo_lba s' = vo_lba s" using rit_get_within [OF sv(1) w dis(2)] by (simp add: fun_eq_iff s'_def set_bm_tree vo_lba_def)
  show "tree_room (vo_tree s') n = tree_room (vo_tree s) n" for n
    using tree_room_with [OF T(2) w dis(1)] by (simp add: s'_def set_bm_tree)
  show "vo_entry s' j = vo_entry s j" for j
    using dst_entry_within [OF _ w dis(3), of j] sv(2) by (simp add: s'_def set_bm_tree dst_wf_def)
  show "vo_used s' = sv_used (sv', bm')" by (simp add: s'_def set_bm_tree)
qed

lemma sv_take_next:
  assumes inv: "sv_inv (sv, bm)" and free: "sv_used (sv, bm) \<noteq> {..<sv_nr_segment sv}"
  obtains seg sv1 sv2 bm' where "seg_validator_next sv bm = (Inr seg, sv1)" "seg_validator_take sv1 bm seg = (Inr (), sv2, bm')"
    "seg < sv_nr_segment sv" "seg \<notin> sv_used (sv, bm)" "sv_inv (sv2, bm')" "sv_used (sv2, bm') = insert seg (sv_used (sv, bm))"
    "sv_nr_segment sv2 = sv_nr_segment sv" "seg_validity_table sv2 = seg_validity_table sv" "bm_within (sv_span sv) bm bm'"
proof -
  obtain r sv1 where n: "seg_validator_next sv bm = (r, sv1)" by (metis prod.collapse)
  note N = sv_next [OF inv n]
  obtain seg where seg: "r = Inr seg" "seg < sv_nr_segment sv" "seg \<notin> sv_used (sv, bm)" using N(2) free by (cases r) auto
  obtain c where c: "sv1 = sv\<lparr>sv_cur_segment := c\<rparr>" using N(1) by blast
  obtain bm' where o: "disk_bitset_operate (seg_validity_table sv) bm seg True = (Inr (), bm')" "sv_inv (sv, bm')"
    "sv_used (sv, bm') = (if True then insert seg (sv_used (sv, bm)) else sv_used (sv, bm) - {seg})"
    by (rule sv_operate [OF inv seg(2)]) (rule that)
  have t: "seg_validator_take sv1 bm seg = (Inr (), sv\<lparr>sv_cur_segment := Suc c\<rparr>, bm')"
    using o(1) by (simp add: c seg_validator_take_def disk_bitset_set_def)
  show thesis by (rule that [OF _ t]) (use n seg o operate_within [OF inv o(1)] in simp_all)
qed

lemma sv_return:
  assumes inv: "sv_inv (sv, bm)" and i: "i < sv_nr_segment sv"
  obtains bm' where "seg_validator_test_and_return sv bm i = (Inr (i \<in> sv_used (sv, bm)), bm')" "sv_inv (sv, bm')"
    "sv_used (sv, bm') = sv_used (sv, bm) - {i}" "bm_within (sv_span sv) bm bm'"
proof -
  obtain bm' where o: "disk_bitset_operate (seg_validity_table sv) bm i False = (Inr (), bm')" "sv_inv (sv, bm')"
    "sv_used (sv, bm') = (if False then insert i (sv_used (sv, bm)) else sv_used (sv, bm) - {i})"
    by (rule sv_operate [OF inv i]) (rule that)
  show thesis
    by (rule that [of bm']) (use o sv_get [OF inv i] operate_within [OF inv o(1)] in
        \<open>simp_all add: seg_validator_test_and_return_def disk_bitset_clear_def\<close>)
qed

text \<open>The index of a volume.\<close>

definition same_tables :: "volume \<Rightarrow> volume \<Rightarrow> bool" where
  "same_tables s s' \<longleftrightarrow> vo_used s' = vo_used s \<and> vo_entry s' = vo_entry s \<and> vo_lba s' = vo_lba s \<and> vo_dst s' = vo_dst s"

lemma index_ok_rng:
  assumes "index_ok env s M"
  shows "index_ok env (set_rng r s) M" "same_tables s (set_rng r s)" "tree_room (vo_tree (set_rng r s)) n = tree_room (vo_tree s) n"
proof -
  have T: "tables_ok env s" "tree_holds (ve_lsm env) (vo_tree s) M" using assms by (simp_all add: index_ok_def)
  note w = tables_bm [OF T(1)]
  have "tables_ok env (set_rng r s)" using T(1) by (simp add: tables_ok_def set_rng_tree spans_apart_def)
  then show "index_ok env (set_rng r s) M" using tree_holds_with [OF T(2) w] by (simp add: index_ok_def set_rng_tree)
  show "same_tables s (set_rng r s)" by (simp add: same_tables_def set_rng_tree fun_eq_iff vo_lba_def)
  show "tree_room (vo_tree (set_rng r s)) n = tree_room (vo_tree s) n" using tree_room_with [OF T(2) w] by (simp add: set_rng_tree)
qed

lemma index_ok_search:
  assumes "index_ok env s M"
  obtains t where "volume_search env s lba = Some (found (M (of_nat lba)), s\<lparr>vo_tree := t\<rparr>)" "index_ok env (s\<lparr>vo_tree := t\<rparr>) M"
    "same_tables s (s\<lparr>vo_tree := t\<rparr>)" "\<And>n. tree_room (vo_tree s) n \<Longrightarrow> tree_room t n"
proof -
  have T: "tables_ok env s" "tree_holds (ve_lsm env) (vo_tree s) M" using assms by (simp_all add: index_ok_def)
  obtain t where t: "lsm_tree_search (ve_lsm env) (vo_tree s) (of_nat lba) = Some (found (M (of_nat lba)), t)" "tree_holds (ve_lsm env) t M"
    "tr_disk t = tr_disk (vo_tree s)" "\<And>n. tree_room (vo_tree s) n \<Longrightarrow> tree_room t n" by (rule tree_holds_search [OF T(2)]) (rule that)
  show thesis
    by (rule that [of t]) (use T(1) t in \<open>simp_all add: volume_search_def index_ok_def tables_ok_def spans_apart_def same_tables_def
        fun_eq_iff vo_lba_def\<close>)
qed

lemma index_ok_put:
  assumes ix: "index_ok env s M" and k: "key_ok (of_nat lba)" and r: "wf_record r" and room: "tree_room (vo_tree s) (Suc n)" and ok: "ve_entry env"
  obtains t where "volume_put env s lba r = Some (s\<lparr>vo_tree := t\<rparr>)" "index_ok env (s\<lparr>vo_tree := t\<rparr>) (M(of_nat lba \<mapsto> r))"
    "same_tables s (s\<lparr>vo_tree := t\<rparr>)" "tree_room t n"
proof -
  let ?bm = "vo_bm s" and ?s = "\<lambda>t. s\<lparr>vo_tree := t\<rparr>"
  have T: "tables_ok env s" "tree_holds (ve_lsm env) (vo_tree s) M" using ix by (simp_all add: index_ok_def)
  obtain t where t: "lsm_tree_put (ve_lsm env) True (ve_job env) (ve_heap env) (vo_tree s) (of_nat lba) r = Some t"
    "tree_holds (ve_lsm env) t (M(of_nat lba \<mapsto> r))" "tree_room t n" "disk_frame (tr_disk (vo_tree s)) (tr_disk t)"
    by (rule tree_holds_put [OF T(2) k r room]) (rule that)
  let ?bm' = "ld_bm (tr_disk t)"
  have "cat_inv (ld_cat (tr_disk t), ?bm')" by (rule tree_holds_cat [OF t(2)])
  then have w: "bm_within (cat_span (vo_cat s)) ?bm ?bm'"
    using t(4) by (simp add: bm_within_def disk_frame_def cat_inv_def da_sized_def da_inv_def)
  have sp: "cat_span (ld_cat (tr_disk t)) = cat_span (vo_cat s)" using t(4) by (simp add: disk_frame_def cat_span_def)
  have dis: "cat_span (vo_cat s) \<inter> sv_span (vo_sv s) = {}" "cat_span (vo_cat s) \<inter> da_span (rit_array (vo_rit s)) = {}"
    "cat_span (vo_cat s) \<inter> da_span (dst_array (vo_dst s)) = {}"
    using T(1) by (auto simp: tables_ok_def spans_apart_def)
  have I: "sv_inv (vo_sv s, ?bm)" "da_sized 8 (rit_array (vo_rit s)) ?bm" "dst_ok (vo_dst s) ?bm"
    using T(1) by (simp_all add: tables_ok_def dst_wf_def)
  have "tables_ok env (?s t)"
    using T(1) sv_within(1) [OF I(1) w] da_sized_within [OF I(2) w] dst_ok_within [OF I(3) w] sp
    by (simp add: tables_ok_def dst_wf_def spans_apart_def)
  then have "index_ok env (?s t) (M(of_nat lba \<mapsto> r))" using t(2) by (simp add: index_ok_def)
  moreover have "same_tables s (?s t)"
    using sv_within(2) [OF I(1) w dis(1)] rit_get_within [OF I(2) w dis(2)] dst_entry_within [OF I(3) w dis(3)]
    by (simp add: same_tables_def fun_eq_iff vo_lba_def)
  ultimately show thesis using t(1,3) ok by (intro that) (simp_all add: volume_put_def)
qed

end
