(* ===== verification/Volume_Log.thy ===== *)
theory Volume_Log
  imports Volume
begin

unbundle bit_operations_syntax

text \<open>
  The log of encrypted blocks and its bookkeeping, apart from where they are stored: the used segments,
  the entries of the data segment table, the reverse index, the nodes of the victims and the
  ciphertext of every block. Each step of the segment buffer and of the collector keeps them in
  agreement with the index.
\<close>

section \<open>Valid blocks\<close>

definition valid_offsets :: "dst_entry \<Rightarrow> nat set" where
  "valid_offsets e = {off. off < BLOCKS_PER_SEGMENT \<and> bit (block_validity_table e) off}"

definition valid_block :: "(nat \<Rightarrow> dst_entry) \<Rightarrow> nat \<Rightarrow> bool" where
  "valid_block ent b \<longleftrightarrow> block_offset_within_segment b \<in> valid_offsets (ent (block_to_segment b))"

abbreviation "full_entry \<equiv> \<lparr>nr_valid_block = BLOCKS_PER_SEGMENT, block_validity_table = - 1\<rparr> :: dst_entry"

definition segment_blocks :: "nat \<Rightarrow> nat set" where
  "segment_blocks i = {i * BLOCKS_PER_SEGMENT ..< i * BLOCKS_PER_SEGMENT + BLOCKS_PER_SEGMENT}"

lemma finite_valid_offsets [simp]: "finite (valid_offsets e)"
  by (simp add: valid_offsets_def)

lemma valid_offsets_card: "card (valid_offsets e) \<le> BLOCKS_PER_SEGMENT"
  using card_mono [of "{..<BLOCKS_PER_SEGMENT}" "valid_offsets e"] by (auto simp: valid_offsets_def)

lemma valid_offsets_unset: "valid_offsets (e\<lparr>block_validity_table := unset_bit off (block_validity_table e)\<rparr>) = valid_offsets e - {off}"
  by (auto simp: valid_offsets_def bit_unset_bit_iff)

lemma valid_offsets_full [simp]: "valid_offsets full_entry = {..<BLOCKS_PER_SEGMENT}"
  by (auto simp: valid_offsets_def BLOCKS_PER_SEGMENT_def)

lemma block_split: "b = block_to_segment b * BLOCKS_PER_SEGMENT + block_offset_within_segment b"
  by (simp add: block_to_segment_def block_offset_within_segment_def)

lemma block_eq: "block_to_segment a = block_to_segment b \<Longrightarrow> block_offset_within_segment a = block_offset_within_segment b \<Longrightarrow> a = b"
  using block_split by metis

lemma block_offset_less [simp]: "block_offset_within_segment b < BLOCKS_PER_SEGMENT"
  by (simp add: block_offset_within_segment_def BLOCKS_PER_SEGMENT_def)

lemma in_segment: "b \<in> segment_blocks i \<longleftrightarrow> block_to_segment b = i"
proof
  assume "b \<in> segment_blocks i"
  then obtain j where "b = i * BLOCKS_PER_SEGMENT + j" "j < BLOCKS_PER_SEGMENT"
    by (metis add_diff_inverse_nat atLeastLessThan_iff less_diff_conv2 linorder_not_le segment_blocks_def add.commute)
  then show "block_to_segment b = i" by (simp add: block_to_segment_def)
next
  assume i: "block_to_segment b = i"
  have "i * BLOCKS_PER_SEGMENT \<le> b \<and> b < i * BLOCKS_PER_SEGMENT + BLOCKS_PER_SEGMENT"
    using block_split [of b] block_offset_less [of b] unfolding i by linarith
  then show "b \<in> segment_blocks i" by (simp add: segment_blocks_def)
qed

lemma segment_bound: "b < n * BLOCKS_PER_SEGMENT \<longleftrightarrow> block_to_segment b < n"
  by (simp add: block_to_segment_def BLOCKS_PER_SEGMENT_def less_mult_imp_div_less div_less_iff_less_mult)

section \<open>Agreement of the log with the index\<close>

text \<open>\<open>U\<close> are the blocks of the current segment that are not written yet; they count as valid. \<open>M\<close> is the
  index and \<open>P\<close> the data of its blocks. A victim that was cleaned has no node until its segment is
  used again.\<close>

definition log_ok ::
  "aead \<Rightarrow> nat \<Rightarrow> nat set \<Rightarrow> (nat \<Rightarrow> dst_entry) \<Rightarrow> (nat \<Rightarrow> nat) \<Rightarrow> victim option list \<Rightarrow> (nat \<Rightarrow> byte list) \<Rightarrow>
   nat set \<Rightarrow> (u32 \<rightharpoonup> index_record) \<Rightarrow> (u32 \<Rightarrow> byte list) \<Rightarrow> bool" where
  "log_ok c N used ent lba nodes C U M P \<longleftrightarrow>
     used \<subseteq> {..<N} \<and>
     (\<forall>k r. M k = Some r \<longrightarrow> key_ok k \<and> pba r < N * BLOCKS_PER_SEGMENT \<and> pba r \<notin> U \<and> valid_block ent (pba r) \<and>
        lba (pba r) = unat k \<and> length (P k) = DATA_BLOCK_SIZE \<and> wf_record r \<and>
        encrypt c (rkey r) (riv r) (pba r) (P k) = (C (pba r), rmac r)) \<and>
     (\<forall>b < N * BLOCKS_PER_SEGMENT. valid_block ent b \<and> b \<notin> U \<longrightarrow> (\<exists>r. M (of_nat (lba b)) = Some r \<and> pba r = b)) \<and>
     (\<forall>b \<in> U. b < N * BLOCKS_PER_SEGMENT \<and> valid_block ent b) \<and>
     (\<forall>i < N. nr_valid_block (ent i) = card (valid_offsets (ent i)) \<and> (i \<notin> used \<longrightarrow> valid_offsets (ent i) = {})) \<and>
     length nodes = N \<and> (\<forall>i < N. nodes ! i = victim_of i (ent i) \<or> nodes ! i = None \<and> i \<notin> used)"

lemma log_record:
  assumes "log_ok c N used ent lba nodes C U M P" "M k = Some r"
  shows "key_ok k" "pba r < N * BLOCKS_PER_SEGMENT" "pba r \<notin> U" "valid_block ent (pba r)" "lba (pba r) = unat k"
    "length (P k) = DATA_BLOCK_SIZE" "encrypt c (rkey r) (riv r) (pba r) (P k) = (C (pba r), rmac r)" "wf_record r"
    "block_to_segment (pba r) < N" "block_to_segment (pba r) \<in> used"
proof -
  show R: "key_ok k" "pba r < N * BLOCKS_PER_SEGMENT" "pba r \<notin> U" "valid_block ent (pba r)" "lba (pba r) = unat k"
    "length (P k) = DATA_BLOCK_SIZE" "encrypt c (rkey r) (riv r) (pba r) (P k) = (C (pba r), rmac r)" "wf_record r"
    using assms unfolding log_ok_def by blast+
  show n: "block_to_segment (pba r) < N" using R(2) by (simp add: segment_bound)
  have "valid_offsets (ent (block_to_segment (pba r))) \<noteq> {}" using R(4) by (auto simp: valid_block_def)
  then show "block_to_segment (pba r) \<in> used" using assms(1) n unfolding log_ok_def by blast
qed

lemma log_okI:
  assumes "used \<subseteq> {..<N}"
    and "\<And>k r. M k = Some r \<Longrightarrow> key_ok k \<and> pba r < N * BLOCKS_PER_SEGMENT \<and> pba r \<notin> U \<and> valid_block ent (pba r) \<and>
        lba (pba r) = unat k \<and> length (P k) = DATA_BLOCK_SIZE \<and> wf_record r \<and>
        encrypt c (rkey r) (riv r) (pba r) (P k) = (C (pba r), rmac r)"
    and "\<And>b. b < N * BLOCKS_PER_SEGMENT \<Longrightarrow> valid_block ent b \<Longrightarrow> b \<notin> U \<Longrightarrow> \<exists>r. M (of_nat (lba b)) = Some r \<and> pba r = b"
    and "\<And>b. b \<in> U \<Longrightarrow> b < N * BLOCKS_PER_SEGMENT \<and> valid_block ent b"
    and "\<And>i. i < N \<Longrightarrow> nr_valid_block (ent i) = card (valid_offsets (ent i)) \<and> (i \<notin> used \<longrightarrow> valid_offsets (ent i) = {})"
    and "length nodes = N" "\<And>i. i < N \<Longrightarrow> nodes ! i = victim_of i (ent i) \<or> nodes ! i = None \<and> i \<notin> used"
  shows "log_ok c N used ent lba nodes C U M P"
  unfolding log_ok_def using assms by (intro conjI allI ballI impI) blast+

lemma log_parts:
  assumes "log_ok c N used ent lba nodes C U M P"
  shows "used \<subseteq> {..<N}" "\<And>b. b \<in> U \<Longrightarrow> b < N * BLOCKS_PER_SEGMENT \<and> valid_block ent b"
    "\<And>i. i < N \<Longrightarrow> nr_valid_block (ent i) = card (valid_offsets (ent i)) \<and> (i \<notin> used \<longrightarrow> valid_offsets (ent i) = {})"
    "length nodes = N" "\<And>i. i < N \<Longrightarrow> nodes ! i = victim_of i (ent i) \<or> nodes ! i = None \<and> i \<notin> used"
  using assms unfolding log_ok_def by blast+

lemma log_inj: "log_ok c N used ent lba nodes C U M P \<Longrightarrow> M k = Some r \<Longrightarrow> M k' = Some r' \<Longrightarrow> pba r = pba r' \<Longrightarrow> k = k'"
  using log_record(5) by (metis unsigned_word_eqI)

lemma log_valid_record:
  "log_ok c N used ent lba nodes C U M P \<Longrightarrow> b < N * BLOCKS_PER_SEGMENT \<Longrightarrow> valid_block ent b \<Longrightarrow> b \<notin> U \<Longrightarrow>
   \<exists>r. M (of_nat (lba b)) = Some r \<and> pba r = b"
  unfolding log_ok_def by blast

lemma log_count: "log_ok c N used ent lba nodes C U M P \<Longrightarrow> i < N \<Longrightarrow> nr_valid_block (ent i) = card (valid_offsets (ent i))"
  unfolding log_ok_def by blast

section \<open>Steps\<close>

text \<open>Whatever else changes, the log depends on the ciphertext of indexed blocks only.\<close>

lemma log_cipher:
  assumes "log_ok c N used ent lba nodes C U M P" "\<And>k r. M k = Some r \<Longrightarrow> C' (pba r) = C (pba r)"
  shows "log_ok c N used ent lba nodes C' U M P"
  using assms unfolding log_ok_def by auto

text \<open>The block of an index entry is returned.\<close>

lemma log_return:
  assumes L: "log_ok c N used ent lba nodes C U M P" and k: "M k = Some r"
    and i: "i = block_to_segment (pba r)"
    and e: "e = \<lparr>nr_valid_block = nr_valid_block (ent i) - 1,
      block_validity_table = unset_bit (block_offset_within_segment (pba r)) (block_validity_table (ent i))\<rparr>"
    and ent': "\<And>j. j < N \<Longrightarrow> ent' j = (if j = i then e else ent j)"
  shows "log_ok c N used ent' lba (nodes[i := victim_of i e]) C U (M(k := None)) P"
proof -
  note R = log_record [OF L k]
  have ve: "valid_offsets e = valid_offsets (ent i) - {block_offset_within_segment (pba r)}"
    using valid_offsets_unset [of _ "ent i"] by (simp add: e valid_offsets_def)
  have v: "valid_block ent' b \<longleftrightarrow> valid_block ent b \<and> b \<noteq> pba r" if "b < N * BLOCKS_PER_SEGMENT" for b
    using that ent' [of "block_to_segment b"] ve block_eq [of b "pba r"]
    by (auto simp: valid_block_def i segment_bound)
  have cnt: "nr_valid_block (ent' j) = card (valid_offsets (ent' j)) \<and> (j \<notin> used \<longrightarrow> valid_offsets (ent' j) = {})" if "j < N" for j
  proof (cases "j = i")
    case True
    have "block_offset_within_segment (pba r) \<in> valid_offsets (ent i)" using R(4) by (simp add: valid_block_def i)
    then have "card (valid_offsets e) = nr_valid_block (ent i) - 1" using log_count [OF L, of i] that True by (simp add: ve)
    then show ?thesis using R(10) True that ent' by (simp add: i e)
  next
    case False
    then show ?thesis using L that ent' unfolding log_ok_def by simp
  qed
  have own: "\<exists>r'. (M(k := None)) (of_nat (lba b)) = Some r' \<and> pba r' = b" if b: "b < N * BLOCKS_PER_SEGMENT" "valid_block ent' b" "b \<notin> U" for b
  proof -
    obtain r' where "M (of_nat (lba b)) = Some r'" "pba r' = b" using log_valid_record [OF L b(1) _ b(3)] b v by blast
    moreover have "b \<noteq> pba r" using b v by blast
    ultimately show ?thesis using k by auto
  qed
  have rec: "pba r' < N * BLOCKS_PER_SEGMENT \<and> valid_block ent' (pba r')" if "(M(k := None)) k' = Some r'" for k' r'
  proof -
    have k': "M k' = Some r'" "k' \<noteq> k" using that by (auto split: if_splits)
    show ?thesis using v log_record [OF L k'(1)] log_inj [OF L k'(1) k] k'(2) by blast
  qed
  have un: "b < N * BLOCKS_PER_SEGMENT \<and> valid_block ent' b" if "b \<in> U" for b using that L R(3) v unfolding log_ok_def by blast
  have nodes: "nodes[i := victim_of i e] ! j = victim_of j (ent' j) \<or> nodes[i := victim_of i e] ! j = None \<and> j \<notin> used" if "j < N" for j
    using that log_parts(4,5) [OF L] ent' [OF that] by (cases "j = i") auto
  show ?thesis
    by (rule log_okI [OF log_parts(1) [OF L] _ own un cnt _ nodes])
      (use rec log_record [OF L] log_parts(4) [OF L] in \<open>auto split: if_splits\<close>)
qed

text \<open>A block that was not written yet is written for an unindexed key.\<close>

lemma log_add:
  assumes L: "log_ok c N used ent lba nodes C U M P" and k: "M k = None" "key_ok k" and b: "pba r \<in> U"
    and r: "wf_record r" "length d = DATA_BLOCK_SIZE" "encrypt c (rkey r) (riv r) (pba r) d = (C' (pba r), rmac r)"
    and C': "\<And>k' r'. M k' = Some r' \<Longrightarrow> C' (pba r') = C (pba r')"
    and lba': "\<And>b. b < N * BLOCKS_PER_SEGMENT \<Longrightarrow> lba' b = (if b = pba r then unat k else lba b)"
  shows "log_ok c N used ent lba' nodes C' (U - {pba r}) (M(k \<mapsto> r)) (P(k := d))"
proof -
  have u: "pba r < N * BLOCKS_PER_SEGMENT" "valid_block ent (pba r)" using L b unfolding log_ok_def by blast+
  have rec: "key_ok k' \<and> pba r' < N * BLOCKS_PER_SEGMENT \<and> pba r' \<notin> U - {pba r} \<and> valid_block ent (pba r') \<and> lba' (pba r') = unat k' \<and>
      length ((P(k := d)) k') = DATA_BLOCK_SIZE \<and> wf_record r' \<and>
      encrypt c (rkey r') (riv r') (pba r') ((P(k := d)) k') = (C' (pba r'), rmac r')"
    if k': "(M(k \<mapsto> r)) k' = Some r'" for k' r'
  proof (cases "k' = k")
    case True
    then show ?thesis using k' k(2) u r lba' [OF u(1)] by simp
  next
    case False
    then have m: "M k' = Some r'" using k' by simp
    note R = log_record [OF L m]
    have "pba r' \<noteq> pba r" using R(3) b by auto
    then show ?thesis using False R C' [OF m] lba' [OF R(2)] by simp
  qed
  have own: "\<exists>r'. (M(k \<mapsto> r)) (of_nat (lba' x)) = Some r' \<and> pba r' = x" if x: "x < N * BLOCKS_PER_SEGMENT" "valid_block ent x" "x \<notin> U - {pba r}" for x
  proof (cases "x = pba r")
    case True
    then show ?thesis using lba' [OF u(1)] by simp
  next
    case False
    then obtain r' where "M (of_nat (lba x)) = Some r'" "pba r' = x" using log_valid_record [OF L x(1,2)] x(3) by blast
    then show ?thesis using False k(1) lba' [OF x(1)] by auto
  qed
  show ?thesis by (rule log_okI [OF log_parts(1) [OF L] rec own _ log_parts(3) [OF L] log_parts(4,5) [OF L]]) (use log_parts(2) [OF L] in auto)
qed

text \<open>An indexed block is encrypted again with other data.\<close>

lemma log_modify:
  assumes L: "log_ok c N used ent lba nodes C U M P" and k: "M k = Some r"
    and r: "length d = DATA_BLOCK_SIZE" "encrypt c (rkey r) (riv r) (pba r) d = (C' (pba r), tag)" "length tag = AES_GCM_AUTH_SIZE"
    and C': "\<And>k' r'. M k' = Some r' \<Longrightarrow> k' \<noteq> k \<Longrightarrow> C' (pba r') = C (pba r')"
  shows "log_ok c N used ent lba nodes C' U (M(k \<mapsto> r\<lparr>rmac := tag\<rparr>)) (P(k := d))"
proof -
  note R = log_record [OF L k]
  have rec: "key_ok k' \<and> pba r' < N * BLOCKS_PER_SEGMENT \<and> pba r' \<notin> U \<and> valid_block ent (pba r') \<and> lba (pba r') = unat k' \<and>
      length ((P(k := d)) k') = DATA_BLOCK_SIZE \<and> wf_record r' \<and>
      encrypt c (rkey r') (riv r') (pba r') ((P(k := d)) k') = (C' (pba r'), rmac r')"
    if k': "(M(k \<mapsto> r\<lparr>rmac := tag\<rparr>)) k' = Some r'" for k' r'
  proof (cases "k' = k")
    case True
    then show ?thesis using k' R r by (auto simp: wf_record_def)
  next
    case False
    then have m: "M k' = Some r'" using k' by simp
    then show ?thesis using False log_record [OF L m] C' [OF m] by simp
  qed
  have own: "\<exists>r'. (M(k \<mapsto> r\<lparr>rmac := tag\<rparr>)) (of_nat (lba x)) = Some r' \<and> pba r' = x"
    if x: "x < N * BLOCKS_PER_SEGMENT" "valid_block ent x" "x \<notin> U" for x
    using log_valid_record [OF L x] k by auto
  show ?thesis by (rule log_okI [OF log_parts(1) [OF L] rec own _ log_parts(3) [OF L] log_parts(4,5) [OF L]]) (use log_parts(2) [OF L] in auto)
qed

text \<open>A free segment becomes the current one.\<close>

lemma log_take:
  assumes L: "log_ok c N used ent lba nodes C {} M P" and i: "i < N" "i \<notin> used"
    and ent': "\<And>j. j < N \<Longrightarrow> ent' j = (if j = i then full_entry else ent j)"
  shows "log_ok c N (insert i used) ent' lba (nodes[i := victim_of i full_entry]) C (segment_blocks i) M P"
proof -
  have v: "valid_block ent' b \<longleftrightarrow> b \<in> segment_blocks i \<or> valid_block ent b" if "b < N * BLOCKS_PER_SEGMENT" for b
    using that ent' [of "block_to_segment b"] by (auto simp: valid_block_def in_segment segment_bound)
  have rec: "pba r \<notin> segment_blocks i \<and> valid_block ent' (pba r)" if "M k = Some r" for k r
    using log_record [OF L that] v i(2) by (auto simp: in_segment)
  have sub: "b < N * BLOCKS_PER_SEGMENT" if "b \<in> segment_blocks i" for b using that i(1) by (simp add: in_segment segment_bound)
  have cnt: "nr_valid_block (ent' j) = card (valid_offsets (ent' j)) \<and> (j \<notin> insert i used \<longrightarrow> valid_offsets (ent' j) = {})" if "j < N" for j
    using log_parts(3) [OF L that] ent' [OF that] by auto
  have nodes: "nodes[i := victim_of i full_entry] ! j = victim_of j (ent' j) \<or> nodes[i := victim_of i full_entry] ! j = None \<and> j \<notin> insert i used"
    if "j < N" for j using log_parts(4,5) [OF L] that ent' [OF that] by (cases "j = i") auto
  show ?thesis
    by (rule log_okI [OF _ _ _ _ cnt _ nodes])
      (use log_parts(1,4) [OF L] i v rec sub log_record [OF L] log_valid_record [OF L] in auto)
qed

text \<open>A segment without valid blocks is released, and its node removed.\<close>

lemma log_free:
  assumes L: "log_ok c N used ent lba nodes C U M P" and i: "i < N" "valid_offsets (ent i) = {}"
  shows "log_ok c N (used - {i}) ent lba (nodes[i := None]) C U M P"
proof -
  have nodes: "nodes[i := None] ! j = victim_of j (ent j) \<or> nodes[i := None] ! j = None \<and> j \<notin> used - {i}" if "j < N" for j
    using log_parts(4,5) [OF L] that by (cases "j = i") auto
  show ?thesis
    by (rule log_okI [OF _ _ log_valid_record [OF L] log_parts(2) [OF L] _ _ nodes])
      (use log_parts(1,3,4) [OF L] i log_record [OF L] in auto)
qed

section \<open>Counting\<close>

lemma valid_blocks_count:
  assumes L: "log_ok c N used ent lba nodes C U M P"
  shows "finite U" "finite (dom M)" "(\<Sum>i\<in>used. nr_valid_block (ent i)) = card (dom M) + card U"
proof -
  let ?V = "{b. b < N * BLOCKS_PER_SEGMENT \<and> valid_block ent b}" and ?f = "\<lambda>k. pba (the (M k))"
  have V: "finite ?V" by simp
  have U: "U \<subseteq> ?V" using L unfolding log_ok_def by blast
  then show fU: "finite U" using V by (rule finite_subset)
  have inj: "inj_on ?f (dom M)" using log_inj [OF L] by (auto simp: inj_on_def dom_def)
  have img: "?f ` dom M = ?V - U"
  proof
    show "?f ` dom M \<subseteq> ?V - U" using log_record [OF L] by (auto simp: dom_def)
    show "?V - U \<subseteq> ?f ` dom M"
    proof
      fix b assume "b \<in> ?V - U"
      then obtain r where "M (of_nat (lba b)) = Some r" "pba r = b" using log_valid_record [OF L, of b] by blast
      then show "b \<in> ?f ` dom M" by (intro image_eqI [of _ _ "of_nat (lba b)"]) auto
    qed
  qed
  have "finite (?V - U)" by simp
  then show fM: "finite (dom M)" using finite_image_iff [OF inj] img by metis
  have "card (dom M) = card (?V - U)" using card_image [OF inj] img by simp
  then have VU: "card ?V = card (dom M) + card U" using card_Diff_subset [OF fU U] card_mono [OF V U] by simp
  have used: "used \<subseteq> {..<N}" "finite used" using L finite_subset [of used "{..<N}"] unfolding log_ok_def by auto
  have split: "?V = (\<Union>i\<in>used. (\<lambda>off. i * BLOCKS_PER_SEGMENT + off) ` valid_offsets (ent i))"
  proof
    show "?V \<subseteq> (\<Union>i\<in>used. (\<lambda>off. i * BLOCKS_PER_SEGMENT + off) ` valid_offsets (ent i))"
    proof
      fix b assume b: "b \<in> ?V"
      then have s: "block_to_segment b < N" "block_offset_within_segment b \<in> valid_offsets (ent (block_to_segment b))"
        by (auto simp: segment_bound valid_block_def)
      then have "block_to_segment b \<in> used" using L unfolding log_ok_def by blast
      then show "b \<in> (\<Union>i\<in>used. (\<lambda>off. i * BLOCKS_PER_SEGMENT + off) ` valid_offsets (ent i))" using s(2) block_split [of b] by blast
    qed
    show "(\<Union>i\<in>used. (\<lambda>off. i * BLOCKS_PER_SEGMENT + off) ` valid_offsets (ent i)) \<subseteq> ?V"
      using used(1) by (auto simp: valid_block_def segment_bound block_to_segment_def block_offset_within_segment_def valid_offsets_def)
  qed
  have "card ?V = (\<Sum>i\<in>used. card ((\<lambda>off. i * BLOCKS_PER_SEGMENT + off) ` valid_offsets (ent i)))"
    unfolding split by (rule card_UN_disjoint)
      (use used(2) in \<open>auto simp: valid_offsets_def dest: arg_cong [where f = "\<lambda>b. b div BLOCKS_PER_SEGMENT"]\<close>)
  also have "\<dots> = (\<Sum>i\<in>used. nr_valid_block (ent i))"
    by (intro sum.cong refl) (use log_count [OF L] used(1) in \<open>auto simp: card_image inj_on_def\<close>)
  finally show "(\<Sum>i\<in>used. nr_valid_block (ent i)) = card (dom M) + card U" using VU by simp
qed

text \<open>When the indexed blocks fill at most three quarters of \<open>n\<close> segments and more than \<open>n\<close> are in use, one of
  them besides the current one is filled by three quarters at most.\<close>

lemma sparse_segment:
  assumes L: "log_ok c N used ent lba nodes C U M P" and cur: "cur \<in> used" "U \<subseteq> segment_blocks cur"
    and n: "card (dom M) \<le> 768 * n" "0 < n" "n < card used"
  obtains i where "i \<in> used" "i \<noteq> cur" "nr_valid_block (ent i) \<le> 768"
proof -
  note V = valid_blocks_count [OF L]
  have used: "finite used" "cur < N" using log_parts(1) [OF L] cur(1) finite_subset by auto
  have seg: "block_to_segment b = cur" if "b \<in> U" for b using that cur(2) in_segment by blast
  have "card U \<le> card (valid_offsets (ent cur))"
  proof (rule card_inj_on_le [of block_offset_within_segment])
    show "inj_on block_offset_within_segment U" by (rule inj_onI) (metis seg block_eq)
    show "block_offset_within_segment ` U \<subseteq> valid_offsets (ent cur)"
      using log_parts(2) [OF L] seg unfolding valid_block_def by (metis image_subsetI)
  qed simp
  then have "card U \<le> nr_valid_block (ent cur)" using log_count [OF L used(2)] by simp
  moreover have "(\<Sum>i\<in>used. nr_valid_block (ent i)) = nr_valid_block (ent cur) + (\<Sum>i\<in>used - {cur}. nr_valid_block (ent i))"
    using sum.remove [OF used(1) cur(1)] by simp
  ultimately have le: "(\<Sum>i\<in>used - {cur}. nr_valid_block (ent i)) \<le> 768 * n" using V(3) n(1) by linarith
  have "\<exists>i \<in> used - {cur}. nr_valid_block (ent i) \<le> 768"
  proof (rule ccontr)
    assume "\<not> ?thesis"
    then have "769 \<le> nr_valid_block (ent i)" if "i \<in> used - {cur}" for i using that by force
    then have "card (used - {cur}) * 769 \<le> (\<Sum>i\<in>used - {cur}. nr_valid_block (ent i))" by (intro sum_bounded_below [where K = "769 :: nat", simplified]) auto
    moreover have "n \<le> card (used - {cur})" using n(3) used(1) cur(1) by simp
    ultimately show False using le n(2) by simp
  qed
  then show thesis using that by blast
qed

text \<open>The least victim.\<close>

lemma vt_ok_peek:
  assumes vt: "vt_ok d" and i: "i < length (node_list d)" "node_list d ! i = Some v"
  obtains u where "dst_peek_victim d = Some u" "v_nr_valid_block u \<le> v_nr_valid_block v" "v_segno u < length (node_list d)" "node_list d ! v_segno u = Some u"
proof -
  have m: "set (victims d) = set (somes (node_list d))" using vt by (metis set_mset_mset vt_ok_def)
  have "v \<in> set (victims d)" unfolding m using i by (metis nth_mem set_somes)
  then obtain u us where u: "victims d = u # us" by (cases "victims d") auto
  have "u \<in> set (somes (node_list d))" using m u by auto
  then obtain j where j: "j < length (node_list d)" "node_list d ! j = Some u" by (metis in_set_conv_nth set_somes)
  then have "v_segno u = j" using vt by (simp add: vt_ok_def)
  moreover have "v_nr_valid_block u \<le> v_nr_valid_block v"
    using vt \<open>v \<in> set (victims d)\<close> by (auto simp: vt_ok_def u)
  ultimately show thesis using j u by (intro that [of u]) (simp_all add: dst_peek_victim_def)
qed

end
