(* ===== verification/Volume_Push.thy ===== *)
theory Volume_Push
  imports Volume_Log
begin

text \<open>
  The segment buffer on the log: reading blocks through the buffer, pushing a block, writing a full
  segment and allocating the next one.
\<close>

section \<open>The buffer\<close>

lemmas sizes = SECTOR_SIZE_def SECTORS_PER_BLOCK_def SECTOES_PER_SEGMENT_def DATA_BLOCK_SIZE_def SEGMENT_BUFFER_SIZE_def BLOCKS_PER_SEGMENT_def

definition cur_begin :: "volume \<Rightarrow> nat" where
  "cur_begin s = cur_segment (vo_buf s) * BLOCKS_PER_SEGMENT"

definition cur_count :: "volume \<Rightarrow> nat" where
  "cur_count s = cur_sector (vo_buf s) div SECTORS_PER_BLOCK"

definition buffer_ok :: "volume \<Rightarrow> bool" where
  "buffer_ok s \<longleftrightarrow> length (sg_buffer (vo_buf s)) = SEGMENT_BUFFER_SIZE \<and> length (sg_pipe (vo_buf s)) = SEGMENT_BUFFER_SIZE \<and>
     cur_sector (vo_buf s) = cur_count s * SECTORS_PER_BLOCK \<and> cur_count s \<le> BLOCKS_PER_SEGMENT"

definition in_buffer :: "volume \<Rightarrow> nat \<Rightarrow> bool" where
  "in_buffer s b \<longleftrightarrow> cur_begin s \<le> b \<and> b < cur_begin s + cur_count s"

definition unwritten :: "volume \<Rightarrow> nat set" where
  "unwritten s = {cur_begin s + cur_count s ..< cur_begin s + BLOCKS_PER_SEGMENT}"

definition cipher_at :: "volume \<Rightarrow> nat \<Rightarrow> byte list" where
  "cipher_at s b = (if in_buffer s b then slice ((b - cur_begin s) * DATA_BLOCK_SIZE) DATA_BLOCK_SIZE (sg_pipe (vo_buf s))
     else kernel_read (vo_data s) DATA_BLOCK_SIZE (b * DATA_BLOCK_SIZE))"

lemma buffer_slot: "buffer_ok s \<Longrightarrow> j < BLOCKS_PER_SEGMENT \<Longrightarrow> j * DATA_BLOCK_SIZE + DATA_BLOCK_SIZE \<le> length (sg_pipe (vo_buf s))"
  "buffer_ok s \<Longrightarrow> j < BLOCKS_PER_SEGMENT \<Longrightarrow> j * DATA_BLOCK_SIZE + DATA_BLOCK_SIZE \<le> length (sg_buffer (vo_buf s))"
  by (simp_all add: buffer_ok_def sizes)

lemma in_buffer_less: "buffer_ok s \<Longrightarrow> in_buffer s b \<Longrightarrow> b - cur_begin s < BLOCKS_PER_SEGMENT"
  by (auto simp: in_buffer_def buffer_ok_def)

lemma length_cipher_at [simp]: "buffer_ok s \<Longrightarrow> length (cipher_at s b) = DATA_BLOCK_SIZE"
  using buffer_slot(1) [OF _ in_buffer_less, of s s b] by (simp add: cipher_at_def len_simps)

lemma query_block:
  assumes "buffer_ok s"
  shows "snd (segbuf_query_encrypted_block (vo_buf s) b out) = (if in_buffer s b then cipher_at s b else out)"
  by (auto simp: segbuf_query_encrypted_block_def Let_def in_buffer_def cipher_at_def cur_begin_def cur_count_def)

lemma query_blocks_slices:
  assumes s: "buffer_ok s" and out: "n * DATA_BLOCK_SIZE \<le> length out"
  shows "length (segbuf_query_encrypted_blocks (vo_buf s) b n out) = length out \<and>
    (\<forall>i. Suc i * DATA_BLOCK_SIZE \<le> length out \<longrightarrow>
       slice (i * DATA_BLOCK_SIZE) DATA_BLOCK_SIZE (segbuf_query_encrypted_blocks (vo_buf s) b n out) =
         (if i < n \<and> in_buffer s (b + i) then cipher_at s (b + i) else slice (i * DATA_BLOCK_SIZE) DATA_BLOCK_SIZE out))"
  using out
proof (induction n)
  case 0
  then show ?case by (simp add: segbuf_query_encrypted_blocks_def)
next
  case (Suc n)
  let ?z = DATA_BLOCK_SIZE and ?q = "segbuf_query_encrypted_blocks (vo_buf s) b n out"
  let ?x = "if in_buffer s (b + n) then cipher_at s (b + n) else slice (n * ?z) ?z ?q"
  have IH: "length ?q = length out" "\<And>i. Suc i * ?z \<le> length out \<Longrightarrow> slice (i * ?z) ?z ?q =
      (if i < n \<and> in_buffer s (b + i) then cipher_at s (b + i) else slice (i * ?z) ?z out)"
    using Suc by simp_all
  have q: "segbuf_query_encrypted_blocks (vo_buf s) b (Suc n) out = overwrite (n * ?z) ?x ?q"
    by (simp add: segbuf_query_encrypted_blocks_def query_block [OF s])
  have x: "length ?x = ?z" using s Suc.prems IH(1) by (simp add: len_simps)
  have fit: "n * ?z + length ?x \<le> length ?q" using Suc.prems IH(1) x by simp
  have "slice (i * ?z) ?z (overwrite (n * ?z) ?x ?q) =
      (if i < Suc n \<and> in_buffer s (b + i) then cipher_at s (b + i) else slice (i * ?z) ?z out)" if i: "Suc i * ?z \<le> length out" for i
  proof (cases "i = n")
    case True
    then show ?thesis using slice_overwrite_same [OF fit x [symmetric]] IH(2) [OF i] by auto
  next
    case False
    have "i * ?z + ?z \<le> n * ?z \<or> n * ?z + ?z \<le> i * ?z" using False by (simp add: DATA_BLOCK_SIZE_def sizes) linarith
    then have "slice (i * ?z) ?z (overwrite (n * ?z) ?x ?q) = slice (i * ?z) ?z ?q"
      using fit i IH(1) x by (intro slice_overwrite_disjoint) simp_all
    then show ?thesis using IH(2) [OF i] False by auto
  qed
  then show ?case unfolding q using length_overwrite [OF fit] IH(1) by simp
qed

lemma read_blocks:
  assumes "buffer_ok s"
  shows "length (sworndisk_read_blocks s b n) = n * DATA_BLOCK_SIZE"
    "i < n \<Longrightarrow> slice (i * DATA_BLOCK_SIZE) DATA_BLOCK_SIZE (sworndisk_read_blocks s b n) = cipher_at s (b + i)"
proof -
  let ?z = DATA_BLOCK_SIZE and ?k = "kernel_read (vo_data s) (n * DATA_BLOCK_SIZE) (b * DATA_BLOCK_SIZE)"
  have Q: "length (segbuf_query_encrypted_blocks (vo_buf s) b n ?k) = n * ?z"
    "\<And>i. Suc i * ?z \<le> n * ?z \<Longrightarrow> slice (i * ?z) ?z (segbuf_query_encrypted_blocks (vo_buf s) b n ?k) =
         (if i < n \<and> in_buffer s (b + i) then cipher_at s (b + i) else slice (i * ?z) ?z ?k)"
    using query_blocks_slices [OF assms, of n ?k b] by simp_all
  show "length (sworndisk_read_blocks s b n) = n * ?z" using Q(1) by (simp add: sworndisk_read_blocks_def)
  assume i: "i < n"
  then have le: "Suc i * ?z \<le> n * ?z" by (intro mult_le_mono1) simp
  have "slice (i * ?z) ?z ?k = kernel_read (vo_data s) ?z ((b + i) * ?z)"
    by (rule nth_equalityI) (use le in \<open>auto simp: len_simps nth_slice kernel_read_def algebra_simps\<close>)
  then show "slice (i * ?z) ?z (sworndisk_read_blocks s b n) = cipher_at s (b + i)"
    using Q(2) [OF le] i by (simp add: sworndisk_read_blocks_def cipher_at_def)
qed

lemma read_block: "buffer_ok s \<Longrightarrow> sworndisk_read_blocks s b 1 = cipher_at s b"
  using read_blocks [of s b 1] read_blocks(2) [of s 0 1 b] by simp

section \<open>The invariant\<close>

definition env_fit :: "volume_env \<Rightarrow> bool" where
  "env_fit env \<longleftrightarrow> NR_SEGMENT env \<le> 2 ^ 19 \<and> ve_record env \<and> ve_entry env \<and> ve_victim env \<and> ve_gc_buffer env \<and> ve_gc_block env \<and>
     aead_ok (le_cipher (ve_lsm env))"

abbreviation vol_log :: "volume_env \<Rightarrow> volume \<Rightarrow> nat set \<Rightarrow> (u32 \<rightharpoonup> index_record) \<Rightarrow> (u32 \<Rightarrow> byte list) \<Rightarrow> bool" where
  "vol_log env s U M P \<equiv> log_ok (le_cipher (ve_lsm env)) (NR_SEGMENT env) (vo_used s) (vo_entry s) (vo_lba s) (node_list (vo_dst s))
     (cipher_at s) U M P"

text \<open>The data of the blocks in the buffer.\<close>

definition plain_ok :: "volume \<Rightarrow> (u32 \<rightharpoonup> index_record) \<Rightarrow> (u32 \<Rightarrow> byte list) \<Rightarrow> bool" where
  "plain_ok s M P \<longleftrightarrow> (\<forall>k r. M k = Some r \<longrightarrow> in_buffer s (pba r) \<longrightarrow>
     slice ((pba r - cur_begin s) * DATA_BLOCK_SIZE) DATA_BLOCK_SIZE (sg_buffer (vo_buf s)) = P k)"

text \<open>\<open>vol_mid\<close> also covers a full buffer, just before it is written.\<close>

definition vol_mid :: "volume_env \<Rightarrow> volume \<Rightarrow> (u32 \<rightharpoonup> index_record) \<Rightarrow> (u32 \<Rightarrow> byte list) \<Rightarrow> bool" where
  "vol_mid env s M P \<longleftrightarrow> index_ok env s M \<and> buffer_ok s \<and> cur_segment (vo_buf s) \<in> vo_used s \<and>
     nr_valid_segment (vo_alloc s) = card (vo_used s) \<and> vol_log env s (unwritten s) M P \<and> plain_ok s M P"

definition vol_inv :: "volume_env \<Rightarrow> volume \<Rightarrow> (u32 \<rightharpoonup> index_record) \<Rightarrow> (u32 \<Rightarrow> byte list) \<Rightarrow> bool" where
  "vol_inv env s M P \<longleftrightarrow> vol_mid env s M P \<and> cur_count s < BLOCKS_PER_SEGMENT"

text \<open>Written blocks, each time a segment is started anew; grows by one with every block.\<close>

definition vol_pos :: "volume \<Rightarrow> nat" where
  "vol_pos s = cur_count s + BLOCKS_PER_SEGMENT * card (vo_used s)"

lemma vol_used: "vol_mid env s M P \<Longrightarrow> finite (vo_used s) \<and> card (vo_used s) \<le> NR_SEGMENT env"
proof -
  assume "vol_mid env s M P"
  then have L: "vol_log env s (unwritten s) M P" by (simp add: vol_mid_def)
  have "vo_used s \<subseteq> {..<NR_SEGMENT env}" by (rule log_parts(1) [OF L])
  then show ?thesis using card_mono [of "{..<NR_SEGMENT env}"] finite_subset by fastforce
qed

lemma unwritten_segment: "buffer_ok s \<Longrightarrow> unwritten s \<subseteq> segment_blocks (cur_segment (vo_buf s))"
  by (auto simp: unwritten_def segment_blocks_def cur_begin_def)

lemma sub64_less: "b \<le> a \<Longrightarrow> a < 2 ^ 64 \<Longrightarrow> sub64 a b = a - b"
proof -
  assume a: "b \<le> a" "a < 2 ^ 64"
  then have "a + 2 ^ 64 - b = (a - b) + 2 ^ 64" by linarith
  moreover have "a - b < 2 ^ 64" using a(2) by (rule le_less_trans [OF diff_le_self])
  ultimately show ?thesis unfolding sub64_def by (metis mod_add_self2 mod_less)
qed

lemma GC_THREADHOLD_less: "16 \<le> n \<Longrightarrow> n \<le> 2 ^ 19 \<Longrightarrow> GC_THREADHOLD n = n - 16"
  by (simp add: GC_THREADHOLD_def sub64_less)

lemma not_threaded:
  assumes inv: "vol_inv env s M P" and n: "card (dom M) \<le> 768 * (NR_SEGMENT env - 18)" "18 < NR_SEGMENT env" "NR_SEGMENT env \<le> 2 ^ 19"
  shows "\<not> sworndisk_should_threaded_logging env s"
proof (cases "NR_SEGMENT env - 18 < card (vo_used s)")
  case False
  have "sub64 (GC_THREADHOLD (NR_SEGMENT env)) THREAD_LOGGING_AHEAD = NR_SEGMENT env - 17"
    using n(2,3) by (simp add: GC_THREADHOLD_less THREAD_LOGGING_AHEAD_def sub64_less)
  moreover have "card (vo_used s) < NR_SEGMENT env - 17" using False n(2) by linarith
  ultimately show ?thesis using inv by (simp add: sworndisk_should_threaded_logging_def vol_inv_def vol_mid_def)
next
  case True
  have V: "vol_log env s (unwritten s) M P" "cur_segment (vo_buf s) \<in> vo_used s" "unwritten s \<subseteq> segment_blocks (cur_segment (vo_buf s))"
    "vt_ok (vo_dst s)" "length (node_list (vo_dst s)) = NR_SEGMENT env"
    using inv unwritten_segment by (auto simp: vol_inv_def vol_mid_def index_ok_def tables_ok_def dst_wf_def)
  obtain i where i: "i \<in> vo_used s" "nr_valid_block (vo_entry s i) \<le> 768"
    by (rule sparse_segment [OF V(1-3) n(1) _ True]) (use n(2) in auto)
  have iN: "i < NR_SEGMENT env" using log_parts(1) [OF V(1)] i(1) by auto
  then have "node_list (vo_dst s) ! i = victim_of i (vo_entry s i)" using log_parts(5) [OF V(1) iN] i(1) by blast
  then obtain v where v: "node_list (vo_dst s) ! i = Some v" "v_nr_valid_block v \<le> 768"
    using i(2) by (simp add: victim_of_def BLOCKS_PER_SEGMENT_def)
  obtain u where "dst_peek_victim (vo_dst s) = Some u" "v_nr_valid_block u \<le> v_nr_valid_block v"
    by (rule vt_ok_peek [OF V(4) _ v(1)]) (use iN V(5) in auto)
  then show ?thesis using v(2)
    by (simp add: sworndisk_should_threaded_logging_def should_threaded_logging_def BLOCKS_PER_SEGMENT_def)
qed

section \<open>Writing a block\<close>

lemma search_inv:
  assumes "vol_inv env s M P"
  obtains t where "volume_search env s lba = Some (found (M (of_nat lba)), s\<lparr>vo_tree := t\<rparr>)" "vol_inv env (s\<lparr>vo_tree := t\<rparr>) M P"
    "same_tables s (s\<lparr>vo_tree := t\<rparr>)" "\<And>n. tree_room (vo_tree s) n \<Longrightarrow> tree_room t n"
proof -
  have ix: "index_ok env s M" using assms by (simp add: vol_inv_def vol_mid_def)
  obtain t where t: "volume_search env s lba = Some (found (M (of_nat lba)), s\<lparr>vo_tree := t\<rparr>)" "index_ok env (s\<lparr>vo_tree := t\<rparr>) M"
    "same_tables s (s\<lparr>vo_tree := t\<rparr>)" "\<And>n. tree_room (vo_tree s) n \<Longrightarrow> tree_room t n" by (rule index_ok_search [OF ix]) (rule that)
  have c: "cipher_at (s\<lparr>vo_tree := t\<rparr>) = cipher_at s" "unwritten (s\<lparr>vo_tree := t\<rparr>) = unwritten s"
    by (simp_all add: fun_eq_iff cipher_at_def in_buffer_def cur_begin_def cur_count_def unwritten_def)
  have "vol_inv env (s\<lparr>vo_tree := t\<rparr>) M P"
    using assms t(2,3) c
    by (simp add: vol_inv_def vol_mid_def same_tables_def buffer_ok_def cur_count_def plain_ok_def in_buffer_def cur_begin_def)
  then show thesis using t that by blast
qed

text \<open>The old block of a key is returned; the index still has the key, the log does not.\<close>

lemma return_old_ok:
  assumes ix: "index_ok env s M" and log: "vol_log env s U M P" and ok: "ve_victim env"
  obtains d bm where "return_old env (found (M k)) s = set_bm bm (s\<lparr>vo_dst := d\<rparr>)"
    "index_ok env (set_bm bm (s\<lparr>vo_dst := d\<rparr>)) M" "vol_log env (set_bm bm (s\<lparr>vo_dst := d\<rparr>)) U (M(k := None)) P"
    "vo_used (set_bm bm (s\<lparr>vo_dst := d\<rparr>)) = vo_used s"
    "\<And>n. tree_room (vo_tree (set_bm bm (s\<lparr>vo_dst := d\<rparr>))) n = tree_room (vo_tree s) n"
    "\<And>i. i < NR_SEGMENT env \<Longrightarrow> valid_offsets (vo_entry (set_bm bm (s\<lparr>vo_dst := d\<rparr>)) i) = valid_offsets (vo_entry s i) -
       {block_offset_within_segment (pba r) |r. M k = Some r \<and> block_to_segment (pba r) = i}"
    "\<And>i. i < NR_SEGMENT env \<Longrightarrow> node_list d ! i \<noteq> None \<Longrightarrow>
       node_list (vo_dst s) ! i \<noteq> None \<or> (\<exists>r. M k = Some r \<and> block_to_segment (pba r) = i)"
proof (cases "M k")
  case None
  have "set_bm (vo_bm s) (s\<lparr>vo_dst := vo_dst s\<rparr>) = s" by (simp add: set_bm_def)
  then show thesis using None ix log fun_upd_idem [of M k None]
    by (intro that [of "vo_bm s" "vo_dst s"]) (simp_all add: return_old_def found_def)
next
  case (Some r)
  let ?i = "block_to_segment (pba r)"
  note R = log_record [OF log Some]
  have wf: "dst_wf (vo_dst s) (vo_bm s)" "dst_nr_segment (vo_dst s) = NR_SEGMENT env" using ix by (simp_all add: index_ok_def tables_ok_def)
  have "nr_valid_block (vo_entry s ?i) \<noteq> 0"
    using log_count [OF log R(9)] R(4) by (auto simp: valid_block_def card_eq_0_iff)
  then obtain d bm where d: "dst_return_block True (vo_dst s) (vo_bm s) (pba r) = (Inr (), d, bm)"
    "dst_changed (vo_dst s) (vo_bm s) ?i \<lparr>nr_valid_block = nr_valid_block (vo_entry s ?i) - 1,
       block_validity_table = unset_bit (block_offset_within_segment (pba r)) (block_validity_table (vo_entry s ?i))\<rparr> d bm"
    using dst_return_changed [OF wf(1) refl, of "pba r"] R(9) wf(2) by metis
  let ?s = "set_bm bm (s\<lparr>vo_dst := d\<rparr>)"
  note X = index_ok_dst [OF ix d(2)]
  have c: "cipher_at ?s = cipher_at s" by (simp add: fun_eq_iff set_bm_tree cipher_at_def in_buffer_def cur_begin_def cur_count_def)
  have lg: "vol_log env ?s U (M(k := None)) P"
    unfolding c X(2,3,6) by (rule log_return [OF log Some refl refl]) (use X(5) in simp)
  have eq: "return_old env (found (M k)) s = ?s" using d(1) ok by (simp add: return_old_def found_def Some)
  have v: "valid_offsets (vo_entry ?s i) = valid_offsets (vo_entry s i) -
       {block_offset_within_segment (pba r') |r'. M k = Some r' \<and> block_to_segment (pba r') = i}" if "i < NR_SEGMENT env" for i
    using X(5) [OF that] by (auto simp: Some valid_offsets_def bit_unset_bit_iff)
  have nd: "node_list (vo_dst s) ! i \<noteq> None \<or> (\<exists>r. M k = Some r \<and> block_to_segment (pba r) = i)"
    if "i < NR_SEGMENT env" "node_list d ! i \<noteq> None" for i
    using that X(6) Some by (cases "i = ?i") (auto simp: set_bm_tree)
  show thesis by (rule that [OF eq X(1) lg X(2,4) v nd])
qed

text \<open>A volume with other buffers.\<close>

lemma index_ok_buf [simp]: "index_ok env (s\<lparr>vo_buf := b\<rparr>) M = index_ok env s M"
  by (simp add: index_ok_def tables_ok_def spans_apart_def)

lemma vo_lba_simps [simp]: "vo_lba (s\<lparr>vo_buf := b\<rparr>) = vo_lba s" "vo_lba (s\<lparr>vo_data := f\<rparr>) = vo_lba s" "vo_lba (s\<lparr>vo_alloc := a\<rparr>) = vo_lba s"
  by (simp_all add: fun_eq_iff vo_lba_def)

lemma record_fresh:
  obtains rec rng' where "record_create True blk None None None rng = (Some rec, rng')" "pba rec = blk"
    "length (rkey rec) = AES_GCM_KEY_SIZE" "length (riv rec) = AES_GCM_IV_SIZE"
proof -
  obtain key r1 where key: "get_random_bytes AES_GCM_KEY_SIZE rng = (key, r1)" by fastforce
  obtain iv r2 where iv: "get_random_bytes AES_GCM_IV_SIZE r1 = (iv, r2)" by fastforce
  have "length key = AES_GCM_KEY_SIZE" "length iv = AES_GCM_IV_SIZE" using length_get_random_bytes key iv by (metis fst_conv)+
  then show thesis
    by (intro that [of "\<lparr>pba = blk, rmac = replicate AES_GCM_AUTH_SIZE 0, rkey = key, riv = iv\<rparr>" r2])
      (simp_all add: record_create_def copy_or_random_def key iv)
qed

lemma log_block_state:
  assumes fit: "env_fit env" and ix: "index_ok env s M" and k: "key_ok (of_nat lba)" "lba < 2 ^ 64"
    and blk: "blk < NR_SEGMENT env * BLOCKS_PER_SEGMENT" and room: "tree_room (vo_tree s) (Suc n)"
  obtains s' r ct where "log_block env s blk lba d = Some s'" "pba r = blk" "wf_record r"
    "encrypt (le_cipher (ve_lsm env)) (rkey r) (riv r) (pba r) d = (ct, rmac r)" "length ct = length d"
    "index_ok env s' (M(of_nat lba \<mapsto> r))" "vo_used s' = vo_used s" "vo_entry s' = vo_entry s" "vo_dst s' = vo_dst s"
    "\<And>b. b < NR_SEGMENT env * BLOCKS_PER_SEGMENT \<Longrightarrow> vo_lba s' b = (if b = blk then lba else vo_lba s b)"
    "vo_data s' = vo_data s" "vo_alloc s' = vo_alloc s" "tree_room (vo_tree s') n"
    "vo_buf s' = (vo_buf s)\<lparr>sg_buffer := overwrite (cur_sector (vo_buf s) * SECTOR_SIZE) d (sg_buffer (vo_buf s)),
       sg_pipe := overwrite (cur_sector (vo_buf s) * SECTOR_SIZE) ct (sg_pipe (vo_buf s))\<rparr>"
proof -
  let ?c = "le_cipher (ve_lsm env)" and ?at = "cur_sector (vo_buf s) * SECTOR_SIZE"
  have F: "aead_ok ?c" "ve_record env" "ve_entry env" "NR_SEGMENT env \<le> 2 ^ 19" using fit by (simp_all add: env_fit_def)
  obtain rec rng' where rc: "record_create True blk None None None (vo_rng s) = (Some rec, rng')" "pba rec = blk"
    "length (rkey rec) = AES_GCM_KEY_SIZE" "length (riv rec) = AES_GCM_IV_SIZE" by (rule record_fresh)
  obtain ct tag where e: "encrypt ?c (rkey rec) (riv rec) (pba rec) d = (ct, tag)" by fastforce
  define r where "r = rec\<lparr>rmac := tag\<rparr>"
  have "blk < 2 ^ 64" using blk F(4) by (simp add: BLOCKS_PER_SEGMENT_def)
  then have r: "pba r = blk" "wf_record r" "encrypt ?c (rkey r) (riv r) (pba r) d = (ct, rmac r)" "length ct = length d"
    using rc e length_encrypt [OF F(1) e] by (simp_all add: r_def wf_record_def)
  define b where "b = (vo_buf s)\<lparr>sg_buffer := overwrite ?at d (sg_buffer (vo_buf s)), sg_pipe := overwrite ?at ct (sg_pipe (vo_buf s))\<rparr>"
  let ?s1 = "(set_rng rng' s)\<lparr>vo_buf := b\<rparr>"
  note G = index_ok_rng [OF ix, of rng']
  have i1: "index_ok env ?s1 M" "tree_room (vo_tree ?s1) (Suc n)" using G(1,3) room by simp_all
  obtain t where t: "volume_put env ?s1 lba r = Some (?s1\<lparr>vo_tree := t\<rparr>)" "index_ok env (?s1\<lparr>vo_tree := t\<rparr>) (M(of_nat lba \<mapsto> r))"
    "same_tables ?s1 (?s1\<lparr>vo_tree := t\<rparr>)" "tree_room t n" by (rule index_ok_put [OF i1(1) k(1) r(2) i1(2) F(3)]) (rule that)
  let ?s2 = "?s1\<lparr>vo_tree := t\<rparr>"
  have st: "vo_used ?s2 = vo_used s" "vo_entry ?s2 = vo_entry s" "vo_dst ?s2 = vo_dst s" "vo_lba ?s2 = vo_lba s"
    using t(3) by (simp_all add: same_tables_def set_rng_tree fun_eq_iff vo_lba_def)
  define s' where "s' = set_bm (snd (reverse_index_table_set (vo_rit ?s2) (vo_bm ?s2) blk lba)) ?s2"
  note X = index_ok_rit [OF t(2) blk k(2)]
  have eq: "log_block env s blk lba d = Some s'"
    using rc(1) e t(1) F(2) by (simp add: log_block_def Let_def r_def b_def s'_def)
  have "vo_entry s' = vo_entry s" using X(4) st(2) by (simp add: fun_eq_iff s'_def)
  moreover have "vo_used s' = vo_used s" using X(2) st(1) by (simp only: s'_def)
  moreover have "vo_lba s' x = (if x = blk then lba else vo_lba s x)" if "x < NR_SEGMENT env * BLOCKS_PER_SEGMENT" for x
    using X(5) [OF that] st(4) by (simp only: s'_def)
  moreover have "index_ok env s' (M(of_nat lba \<mapsto> r))" "tree_room (vo_tree s') n" using X(1,3) t(4) by (simp_all add: s'_def)
  moreover have "vo_dst s' = vo_dst s" "vo_data s' = vo_data s" "vo_alloc s' = vo_alloc s" "vo_buf s' = b"
    by (simp_all add: s'_def set_bm_def set_rng_def)
  ultimately show thesis using eq r by (intro that [of s' r ct]) (simp_all add: b_def)
qed

lemma unwritten_next:
  assumes "cur_segment (vo_buf s') = cur_segment (vo_buf s)" "cur_count s' = Suc (cur_count s)"
  shows "unwritten s' = unwritten s - {cur_begin s + cur_count s}"
    "in_buffer s' b \<longleftrightarrow> in_buffer s b \<or> b = cur_begin s + cur_count s"
  using assms by (auto simp: unwritten_def in_buffer_def cur_begin_def)

text \<open>The slots of the buffer after one of them was overwritten.\<close>

lemma slot_overwrite:
  assumes "length xs = SEGMENT_BUFFER_SIZE" "length d = DATA_BLOCK_SIZE" "i < BLOCKS_PER_SEGMENT" "j < BLOCKS_PER_SEGMENT"
  shows "slice (j * DATA_BLOCK_SIZE) DATA_BLOCK_SIZE (overwrite (i * DATA_BLOCK_SIZE) d xs) =
    (if j = i then d else slice (j * DATA_BLOCK_SIZE) DATA_BLOCK_SIZE xs)"
    "length (overwrite (i * DATA_BLOCK_SIZE) d xs) = SEGMENT_BUFFER_SIZE"
proof -
  have fit: "m * DATA_BLOCK_SIZE + DATA_BLOCK_SIZE \<le> length xs" if "m < BLOCKS_PER_SEGMENT" for m using that assms(1) by (simp add: sizes)
  have "j * DATA_BLOCK_SIZE + DATA_BLOCK_SIZE \<le> i * DATA_BLOCK_SIZE \<or> i * DATA_BLOCK_SIZE + DATA_BLOCK_SIZE \<le> j * DATA_BLOCK_SIZE" if "j \<noteq> i"
    using that by (simp add: sizes) linarith
  then show "slice (j * DATA_BLOCK_SIZE) DATA_BLOCK_SIZE (overwrite (i * DATA_BLOCK_SIZE) d xs) =
    (if j = i then d else slice (j * DATA_BLOCK_SIZE) DATA_BLOCK_SIZE xs)"
    using fit assms(2-4) by (auto simp: slice_overwrite_same intro!: slice_overwrite_disjoint)
  show "length (overwrite (i * DATA_BLOCK_SIZE) d xs) = SEGMENT_BUFFER_SIZE"
    using fit [OF assms(3)] assms(1,2) by (simp add: length_overwrite)
qed

definition next_slot :: "volume \<Rightarrow> volume" where
  "next_slot s = s\<lparr>vo_buf := (vo_buf s)\<lparr>cur_sector := cur_sector (vo_buf s) + SECTORS_PER_BLOCK\<rparr>\<rparr>"

lemma next_slot_simps [simp]:
  "vo_sv (next_slot s) = vo_sv s" "vo_tree (next_slot s) = vo_tree s" "vo_dst (next_slot s) = vo_dst s" "vo_alloc (next_slot s) = vo_alloc s"
  "vo_data (next_slot s) = vo_data s" "vo_rit (next_slot s) = vo_rit s" "vo_lba (next_slot s) = vo_lba s"
  "sg_buffer (vo_buf (next_slot s)) = sg_buffer (vo_buf s)" "sg_pipe (vo_buf (next_slot s)) = sg_pipe (vo_buf s)"
  "cur_segment (vo_buf (next_slot s)) = cur_segment (vo_buf s)" "cur_count (next_slot s) = Suc (cur_count s)"
  "index_ok env (next_slot s) M = index_ok env s M"
  by (simp_all add: next_slot_def cur_count_def SECTORS_PER_BLOCK_def)

lemma log_block_mid:
  assumes fit: "env_fit env" and ix: "index_ok env s M" and buf: "buffer_ok s" and cnt: "cur_count s < BLOCKS_PER_SEGMENT"
    and cur: "cur_segment (vo_buf s) \<in> vo_used s" "nr_valid_segment (vo_alloc s) = card (vo_used s)"
    and log: "vol_log env s (unwritten s) (M(k := None)) P" and pl: "plain_ok s (M(k := None)) P"
    and k: "k = of_nat lba" "key_ok k" "lba < 2 ^ 32" and d: "length d = DATA_BLOCK_SIZE" and room: "tree_room (vo_tree s) (Suc n)"
  obtains s' r where "log_block env s (cur_begin s + cur_count s) lba d = Some s'" "vol_mid env (next_slot s') (M(k \<mapsto> r)) (P(k := d))"
    "cur_count s' = cur_count s" "cur_segment (vo_buf s') = cur_segment (vo_buf s)" "vo_used s' = vo_used s" "vo_entry s' = vo_entry s"
    "vo_dst s' = vo_dst s" "vo_data s' = vo_data s" "vo_alloc s' = vo_alloc s" "tree_room (vo_tree s') n"
proof -
  let ?b = "cur_begin s + cur_count s" and ?N = "NR_SEGMENT env * BLOCKS_PER_SEGMENT"
  have U: "?b \<in> unwritten s" using cnt by (simp add: unwritten_def)
  have bN: "?b < ?N" using log_parts(2) [OF log U] by blast
  have k': "key_ok (of_nat lba)" "lba < 2 ^ 64" "unat k = lba" using k by (simp_all add: unat_of_nat)
  obtain s' r ct where B: "log_block env s ?b lba d = Some s'" "pba r = ?b" "wf_record r"
    "encrypt (le_cipher (ve_lsm env)) (rkey r) (riv r) (pba r) d = (ct, rmac r)" "length ct = length d"
    "index_ok env s' (M(of_nat lba \<mapsto> r))" "vo_used s' = vo_used s" "vo_entry s' = vo_entry s" "vo_dst s' = vo_dst s"
    "\<And>b. b < ?N \<Longrightarrow> vo_lba s' b = (if b = ?b then lba else vo_lba s b)"
    "vo_data s' = vo_data s" "vo_alloc s' = vo_alloc s" "tree_room (vo_tree s') n"
    "vo_buf s' = (vo_buf s)\<lparr>sg_buffer := overwrite (cur_sector (vo_buf s) * SECTOR_SIZE) d (sg_buffer (vo_buf s)),
       sg_pipe := overwrite (cur_sector (vo_buf s) * SECTOR_SIZE) ct (sg_pipe (vo_buf s))\<rparr>"
    by (rule log_block_state [OF fit ix k'(1,2) bN room]) (rule that)
  have at: "cur_sector (vo_buf s) * SECTOR_SIZE = cur_count s * DATA_BLOCK_SIZE" using buf by (simp add: buffer_ok_def sizes)
  have len: "length (sg_buffer (vo_buf s)) = SEGMENT_BUFFER_SIZE" "length (sg_pipe (vo_buf s)) = SEGMENT_BUFFER_SIZE" "length ct = DATA_BLOCK_SIZE"
    using buf B(5) d by (simp_all add: buffer_ok_def)
  note SB = slot_overwrite [OF len(1) d cnt] and SP = slot_overwrite [OF len(2,3) cnt]
  let ?s = "next_slot s'"
  have c: "cur_count s' = cur_count s" "cur_segment (vo_buf s') = cur_segment (vo_buf s)" by (simp_all add: B(14) cur_count_def)
  have nx: "cur_segment (vo_buf ?s) = cur_segment (vo_buf s)" "cur_count ?s = Suc (cur_count s)" "cur_begin ?s = cur_begin s"
    using c by (simp_all add: cur_begin_def)
  note N = unwritten_next [OF nx(1,2)]
  have old: "b \<noteq> ?b \<and> (in_buffer s b \<longrightarrow> b - cur_begin s < cur_count s)" if "(M(k := None)) k' = Some r'" "b = pba r'" for k' r' b
    using log_record(3) [OF log that(1)] U that(2) by (auto simp: in_buffer_def)
  have cip: "cipher_at ?s (pba r') = cipher_at s (pba r')" if m: "(M(k := None)) k' = Some r'" for k' r'
    using old [OF m refl] SP(1) [of "pba r' - cur_begin s"] cnt
    by (auto simp: cipher_at_def N(2) nx B(11,14) at)
  have new: "cipher_at ?s ?b = ct" using SP(1) [OF cnt] by (simp add: cipher_at_def N(2) nx B(14) at)
  have "log_ok (le_cipher (ve_lsm env)) (NR_SEGMENT env) (vo_used s) (vo_entry s) (vo_lba s') (node_list (vo_dst s)) (cipher_at ?s)
      (unwritten s - {pba r}) ((M(k := None))(k \<mapsto> r)) (P(k := d))"
    by (rule log_add [OF log _ k(2) _ B(3) d]) (use B(2,4,10) U new cip k' k(1) in \<open>simp_all\<close>)
  then have L: "vol_log env ?s (unwritten ?s) (M(k \<mapsto> r)) (P(k := d))" using B(2,7-9) N(1) by simp
  have pl': "plain_ok ?s (M(k \<mapsto> r)) (P(k := d))"
    unfolding plain_ok_def
  proof (intro allI impI)
    fix k' r' assume a: "(M(k \<mapsto> r)) k' = Some r'" "in_buffer ?s (pba r')"
    show "slice ((pba r' - cur_begin ?s) * DATA_BLOCK_SIZE) DATA_BLOCK_SIZE (sg_buffer (vo_buf ?s)) = (P(k := d)) k'"
    proof (cases "k' = k")
      case True
      then show ?thesis using a(1) B(2) SB(1) [OF cnt] by (simp add: nx B(14) at)
    next
      case False
      then have m: "(M(k := None)) k' = Some r'" using a(1) by simp
      have "in_buffer s (pba r')" "pba r' - cur_begin s < cur_count s" using a(2) old [OF m refl] N(2) by blast+
      then show ?thesis using pl m False SB(1) [of "pba r' - cur_begin s"] cnt by (simp add: plain_ok_def nx B(14) at)
    qed
  qed
  have vb: "sg_buffer (vo_buf ?s) = overwrite (cur_count s * DATA_BLOCK_SIZE) d (sg_buffer (vo_buf s))"
    "sg_pipe (vo_buf ?s) = overwrite (cur_count s * DATA_BLOCK_SIZE) ct (sg_pipe (vo_buf s))" by (simp_all add: B(14) at)
  have "cur_sector (vo_buf ?s) = Suc (cur_count s) * SECTORS_PER_BLOCK" using buf by (simp add: next_slot_def B(14) buffer_ok_def)
  then have bo: "buffer_ok ?s" unfolding buffer_ok_def vb nx(2) using SB(2) [OF cnt] SP(2) [OF cnt] cnt by simp
  have "vol_mid env ?s (M(k \<mapsto> r)) (P(k := d))"
    unfolding vol_mid_def using B(6,7,12) k(1) bo cur L pl' c by simp
  then show thesis using B c that by blast
qed

section \<open>The next segment\<close>

lemma index_ok_alloc [simp]: "index_ok env (s\<lparr>vo_alloc := a\<rparr>) M = index_ok env s M" "index_ok env (s\<lparr>vo_data := f\<rparr>) M = index_ok env s M"
  by (simp_all add: index_ok_def tables_ok_def spans_apart_def)

definition gc_triggered :: "volume_env \<Rightarrow> volume \<Rightarrow> bool" where
  "gc_triggered env s \<longleftrightarrow> sa_will_trigger_gc env s \<and> sa_status (vo_alloc s) \<noteq> SEGMENT_CLEANING"

lemma cipher_at_empty: "cur_count s = 0 \<Longrightarrow> cipher_at s b = kernel_read (vo_data s) DATA_BLOCK_SIZE (b * DATA_BLOCK_SIZE)"
  by (auto simp: cipher_at_def in_buffer_def)

lemma alloc_ok:
  assumes ix: "index_ok env s M" and buf: "buffer_ok s" "cur_count s = 0" and log: "vol_log env s {} M P"
    and nr: "nr_valid_segment (vo_alloc s) = card (vo_used s)" and free: "card (vo_used s) < NR_SEGMENT env"
  obtains s' where "sa_alloc_with gc env s = (if gc_triggered env s' then map_option (\<lambda>s4. (Inr (), s4)) (gc s') else Some (Inr (), s'))"
    "vol_inv env s' M P" "cur_count s' = 0" "vo_used s' = insert (cur_segment (vo_buf s')) (vo_used s)" "cur_segment (vo_buf s') \<notin> vo_used s"
    "\<And>n. tree_room (vo_tree s') n = tree_room (vo_tree s) n" "sa_status (vo_alloc s') = sa_status (vo_alloc s)" "vo_data s' = vo_data s"
    "\<And>i. i < NR_SEGMENT env \<Longrightarrow> i \<noteq> cur_segment (vo_buf s') \<Longrightarrow> vo_entry s' i = vo_entry s i"
    "\<And>i. i < NR_SEGMENT env \<Longrightarrow> node_list (vo_dst s') ! i \<noteq> None \<Longrightarrow> node_list (vo_dst s) ! i \<noteq> None"
proof -
  let ?N = "NR_SEGMENT env"
  have T: "sv_inv (vo_sv s, vo_bm s)" "sv_nr_segment (vo_sv s) = ?N" using ix by (simp_all add: index_ok_def tables_ok_def)
  have full: "vo_used s \<noteq> {..<sv_nr_segment (vo_sv s)}" using free T(2) by (metis card_lessThan less_irrefl)
  obtain seg sv1 sv2 bm where A: "seg_validator_next (vo_sv s) (vo_bm s) = (Inr seg, sv1)"
    "seg_validator_take sv1 (vo_bm s) seg = (Inr (), sv2, bm)" "seg < sv_nr_segment (vo_sv s)" "seg \<notin> vo_used s" "sv_inv (sv2, bm)"
    "sv_used (sv2, bm) = insert seg (vo_used s)" "sv_nr_segment sv2 = sv_nr_segment (vo_sv s)"
    "seg_validity_table sv2 = seg_validity_table (vo_sv s)" "bm_within (sv_span (vo_sv s)) (vo_bm s) bm" by (rule sv_take_next [OF T(1) full]) (rule that)
  have seg: "seg < ?N" using A(3) T(2) by simp
  define s0 where "s0 = s\<lparr>vo_buf := (vo_buf s)\<lparr>cur_segment := seg\<rparr>, vo_alloc := (vo_alloc s)\<lparr>nr_valid_segment := nr_valid_segment (vo_alloc s) + 1\<rparr>\<rparr>"
  have i0: "index_ok env s0 M" using ix by (simp add: s0_def)
  define s2 where "s2 = set_bm bm (s0\<lparr>vo_sv := sv2\<rparr>)"
  have A': "seg_validity_table sv2 = seg_validity_table (vo_sv s0)" "sv_nr_segment sv2 = sv_nr_segment (vo_sv s0)"
    "bm_within (sv_span (vo_sv s0)) (vo_bm s0) bm" using A(7-9) by (simp_all add: s0_def)
  note X = index_ok_sv [OF i0 A(5) A', folded s2_def]
  have L0: "vo_lba s0 = vo_lba s" "vo_entry s0 = vo_entry s" "vo_dst s0 = vo_dst s" by (simp_all add: s0_def)
  have d2: "vo_dst s2 = vo_dst s" by (simp add: s2_def set_bm_tree L0(3))
  have W: "dst_wf (vo_dst s2) (vo_bm s2)" "seg < dst_nr_segment (vo_dst s2)" using X(1) seg by (simp_all add: index_ok_def tables_ok_def)
  have "nr_valid_block (vo_entry s2 seg) = 0" using log_parts(3) [OF log seg] A(4) X(4) L0(2) by simp
  then obtain d bm' where D: "dst_take_segment (vo_dst s2) (vo_bm s2) seg = (Inr (), d, bm')"
    "dst_changed (vo_dst s2) (vo_bm s2) seg full_entry d bm'" by (rule dst_take_changed [OF W]) (rule that)
  define s3 where "s3 = set_bm bm' (s2\<lparr>vo_dst := d\<rparr>)"
  note Y = index_ok_dst [OF X(1) D(2), folded s3_def]
  have eq: "sa_alloc_with gc env s = (if gc_triggered env s3 then map_option (\<lambda>s4. (Inr (), s4)) (gc s3) else Some (Inr (), s3))"
  proof -
    have "set_bm bm (s\<lparr>vo_sv := sv1, vo_buf := (vo_buf s)\<lparr>cur_segment := seg\<rparr>, vo_sv := sv2,
        vo_alloc := (vo_alloc s)\<lparr>nr_valid_segment := nr_valid_segment (vo_alloc s) + 1\<rparr>\<rparr>) = s2"
      unfolding s2_def s0_def by (rule arg_cong [of _ _ "set_bm bm"], rule volume.equality) simp_all
    then show ?thesis using A(1,2) D(1) by (simp add: sa_alloc_with_def Let_def gc_triggered_def s3_def)
  qed
  have F: "vo_buf s3 = (vo_buf s)\<lparr>cur_segment := seg\<rparr>" "vo_data s3 = vo_data s" "vo_alloc s3 = (vo_alloc s)\<lparr>nr_valid_segment := nr_valid_segment (vo_alloc s) + 1\<rparr>"
    by (simp_all add: s3_def s2_def s0_def set_bm_tree)
  have c: "cur_count s3 = 0" using buf(2) by (simp add: cur_count_def F(1))
  have ci: "cipher_at s3 = cipher_at s" using cipher_at_empty [OF c] cipher_at_empty [OF buf(2)] F(2) by (simp add: fun_eq_iff)
  have used: "vo_used s3 = insert seg (vo_used s)" using Y(2) X(5) A(6) by simp
  have ent: "vo_entry s3 j = (if j = seg then full_entry else vo_entry s j)" if "j < ?N" for j using Y(5) [OF that] X(4) L0(2) by simp
  have un: "unwritten s3 = segment_blocks seg" using c by (simp add: unwritten_def segment_blocks_def cur_begin_def F(1))
  have "vol_log env s3 (unwritten s3) M P"
    unfolding used ci un Y(3,6) X(2) L0 d2 by (rule log_take [OF log seg A(4)]) (rule ent)
  then have "vol_inv env s3 M P"
    using Y(1) buf c used nr F A(4) log_parts(1) [OF log] finite_subset [of "vo_used s" "{..<?N}"]
    by (auto simp: vol_inv_def vol_mid_def buffer_ok_def plain_ok_def in_buffer_def cur_count_def BLOCKS_PER_SEGMENT_def)
  moreover have "node_list (vo_dst s) ! i \<noteq> None" if "i < ?N" "node_list (vo_dst s3) ! i \<noteq> None" for i
    using that Y(6) d2 log_parts(4) [OF log] by (cases "i = seg") (auto simp: victim_of_def)
  moreover have "tree_room (vo_tree s3) n = tree_room (vo_tree s) n" for n using Y(4) X(3) by (simp add: s0_def)
  ultimately show thesis using c used A(4) ent F by (intro that [OF eq]) simp_all
qed

definition flushed :: "volume \<Rightarrow> volume" where
  "flushed s = (segbuf_flush_bios s)\<lparr>vo_buf := (vo_buf s)\<lparr>cur_sector := 0\<rparr>\<rparr>"

lemma flushed_simps [simp]:
  "vo_sv (flushed s) = vo_sv s" "vo_tree (flushed s) = vo_tree s" "vo_dst (flushed s) = vo_dst s" "vo_alloc (flushed s) = vo_alloc s"
  "vo_rit (flushed s) = vo_rit s" "vo_lba (flushed s) = vo_lba s" "cur_count (flushed s) = 0" "index_ok env (flushed s) M = index_ok env s M"
  "buffer_ok s \<Longrightarrow> buffer_ok (flushed s)"
  by (simp_all add: flushed_def segbuf_flush_bios_def sworndisk_write_blocks_def cur_count_def buffer_ok_def)

lemma flushed_cipher:
  assumes buf: "buffer_ok s" and full: "cur_count s = BLOCKS_PER_SEGMENT"
  shows "cipher_at (flushed s) = cipher_at s"
proof
  fix b
  let ?z = DATA_BLOCK_SIZE and ?p = "sg_pipe (vo_buf s)" and ?o = "cur_begin s * DATA_BLOCK_SIZE"
  have len: "length ?p = BLOCKS_PER_SEGMENT * ?z" using buf by (simp add: buffer_ok_def sizes)
  have data: "vo_data (flushed s) = kernel_write (vo_data s) ?p ?o"
    using len by (simp add: flushed_def segbuf_flush_bios_def sworndisk_write_blocks_def cur_begin_def)
  have "cipher_at (flushed s) b = kernel_read (kernel_write (vo_data s) ?p ?o) ?z (b * ?z)" by (simp add: cipher_at_empty data)
  also have "\<dots> = cipher_at s b"
  proof (cases "in_buffer s b")
    case True
    have le: "?o \<le> b * ?z" "b * ?z + ?z \<le> ?o + length ?p" using True full len by (simp_all add: in_buffer_def sizes)
    have "b * ?z - ?o = (b - cur_begin s) * ?z" by (simp add: diff_mult_distrib)
    then show ?thesis using kernel_read_write_slice [OF le] True by (simp add: cipher_at_def)
  next
    case False
    have "b * ?z + ?z \<le> ?o \<or> ?o + length ?p \<le> b * ?z" using False full len by (simp add: in_buffer_def sizes) linarith
    then show ?thesis using False by (simp add: kernel_read_write_disjoint cipher_at_def)
  qed
  finally show "cipher_at (flushed s) b = cipher_at s b" .
qed

text \<open>What a step leaves of the segments that are full already.\<close>

definition kept :: "volume \<Rightarrow> volume \<Rightarrow> bool" where
  "kept s s' \<longleftrightarrow> vo_used s \<subseteq> vo_used s' \<and> (\<forall>i \<in> vo_used s. i \<noteq> cur_segment (vo_buf s) \<longrightarrow> i \<noteq> cur_segment (vo_buf s')) \<and>
     (\<forall>b. block_to_segment b \<in> vo_used s \<longrightarrow> block_to_segment b \<noteq> cur_segment (vo_buf s) \<longrightarrow> cipher_at s' b = cipher_at s b)"

lemma kept_trans: "kept s1 s2 \<Longrightarrow> kept s2 s3 \<Longrightarrow> kept s1 s3"
  unfolding kept_def by (intro conjI) (blast, blast, metis subsetD)

lemma in_buffer_segment: "buffer_ok s \<Longrightarrow> in_buffer s b \<Longrightarrow> block_to_segment b = cur_segment (vo_buf s)"
  using in_segment [of b "cur_segment (vo_buf s)"] by (simp add: in_buffer_def segment_blocks_def cur_begin_def buffer_ok_def)

lemma cipher_other: "buffer_ok s \<Longrightarrow> block_to_segment b \<noteq> cur_segment (vo_buf s) \<Longrightarrow>
   cipher_at s b = kernel_read (vo_data s) DATA_BLOCK_SIZE (b * DATA_BLOCK_SIZE)"
  using in_buffer_segment by (auto simp: cipher_at_def)

lemma advance_ok:
  assumes mid: "vol_mid env (next_slot s) M P" and cnt: "cur_count s < BLOCKS_PER_SEGMENT"
    and free: "Suc (cur_count s) = BLOCKS_PER_SEGMENT \<Longrightarrow> card (vo_used s) < NR_SEGMENT env"
  obtains s' where "advance_with gc env s = (if Suc (cur_count s) = BLOCKS_PER_SEGMENT \<and> gc_triggered env s' then gc s' else Some s')"
    "vol_inv env s' M P" "vol_pos s' = Suc (vol_pos s)" "\<And>n. tree_room (vo_tree s') n = tree_room (vo_tree s) n"
    "sa_status (vo_alloc s') = sa_status (vo_alloc s)" "kept (next_slot s) s'"
    "\<And>i. i \<in> vo_used s \<Longrightarrow> vo_entry s' i = vo_entry s i"
    "\<And>i. i < NR_SEGMENT env \<Longrightarrow> node_list (vo_dst s') ! i \<noteq> None \<Longrightarrow> node_list (vo_dst s) ! i \<noteq> None"
    "Suc (cur_count s) = BLOCKS_PER_SEGMENT \<Longrightarrow> cur_count s' = 0" "cur_count s' = 0 \<or> cur_segment (vo_buf s') = cur_segment (vo_buf s)"
proof -
  let ?n = "next_slot s"
  have buf: "buffer_ok ?n" and ix: "index_ok env ?n M" and nr: "nr_valid_segment (vo_alloc ?n) = card (vo_used ?n)"
    and log: "vol_log env ?n (unwritten ?n) M P" using mid by (simp_all add: vol_mid_def)
  have sec: "cur_sector (vo_buf ?n) < SECTOES_PER_SEGMENT \<longleftrightarrow> Suc (cur_count s) < BLOCKS_PER_SEGMENT"
    using buf unfolding buffer_ok_def by (simp add: sizes)
  show thesis
  proof (cases "Suc (cur_count s) = BLOCKS_PER_SEGMENT")
    case False
    then have "advance_with gc env s = Some ?n" using sec cnt by (simp add: advance_with_def Let_def next_slot_def)
    moreover have "vol_inv env ?n M P" using mid False cnt by (simp add: vol_inv_def)
    moreover have "kept ?n ?n" by (simp add: kept_def)
    moreover have "vol_pos ?n = Suc (vol_pos s)" by (simp add: vol_pos_def)
    ultimately show thesis using False by (intro that [of ?n]) simp_all
  next
    case True
    let ?f = "flushed ?n"
    have full: "cur_count ?n = BLOCKS_PER_SEGMENT" "unwritten ?n = {}" using True by (simp_all add: unwritten_def)
    have logf: "vol_log env ?f {} M P" using log full(2) flushed_cipher [OF buf full(1)] by simp
    obtain s' where A: "sa_alloc_with gc env ?f = (if gc_triggered env s' then map_option (\<lambda>s4. (Inr (), s4)) (gc s') else Some (Inr (), s'))"
      "vol_inv env s' M P" "cur_count s' = 0" "vo_used s' = insert (cur_segment (vo_buf s')) (vo_used ?f)" "cur_segment (vo_buf s') \<notin> vo_used ?f"
      "\<And>n. tree_room (vo_tree s') n = tree_room (vo_tree ?f) n" "sa_status (vo_alloc s') = sa_status (vo_alloc ?f)" "vo_data s' = vo_data ?f"
      "\<And>i. i < NR_SEGMENT env \<Longrightarrow> i \<noteq> cur_segment (vo_buf s') \<Longrightarrow> vo_entry s' i = vo_entry ?f i"
      "\<And>i. i < NR_SEGMENT env \<Longrightarrow> node_list (vo_dst s') ! i \<noteq> None \<Longrightarrow> node_list (vo_dst ?f) ! i \<noteq> None"
      by (rule alloc_ok [of env ?f M P gc]) (use ix buf logf nr free [OF True] that in simp_all)
    have fin: "finite (vo_used s)" "vo_used s \<subseteq> {..<NR_SEGMENT env}" using vol_used [OF mid] log_parts(1) [OF log] by simp_all
    have "advance_with gc env s = map_option snd (sa_alloc_with gc env ?f)"
      using sec True by (simp add: advance_with_def Let_def next_slot_def flushed_def segbuf_flush_bios_def sworndisk_write_blocks_def)
    then have eq: "advance_with gc env s = (if gc_triggered env s' then gc s' else Some s')"
      by (simp add: A(1) option.map_comp comp_def option.map_ident)
    have "cipher_at s' b = cipher_at ?n b" for b
      using flushed_cipher [OF buf full(1)] A(3,8) by (metis cipher_at_empty flushed_simps(7))
    then have "kept ?n s'" using A(4,5) by (auto simp: kept_def)
    moreover have "vol_pos s' = Suc (vol_pos s)" using A(3,4,5) fin True by (simp add: vol_pos_def)
    moreover have "vo_entry s' i = vo_entry s i" if "i \<in> vo_used s" for i using A(5) A(9) [of i] that fin(2) by auto
    ultimately show thesis using eq A True by (intro that [of s']) simp_all
  qed
qed

section \<open>Pushing\<close>

lemma plain_ok_mono: "plain_ok s M P \<Longrightarrow> M' \<subseteq>\<^sub>m M \<Longrightarrow> plain_ok s M' P"
  unfolding plain_ok_def map_le_def by (metis domI)

lemma push_ok:
  assumes fit: "env_fit env" and inv: "vol_inv env s M P" and nt: "\<not> sworndisk_should_threaded_logging env s"
    and k: "k = of_nat lba" "key_ok k" "lba < 2 ^ 32" and d: "length d = DATA_BLOCK_SIZE" and room: "tree_room (vo_tree s) (Suc n)"
    and free: "Suc (cur_count s) = BLOCKS_PER_SEGMENT \<Longrightarrow> card (vo_used s) < NR_SEGMENT env"
  obtains s' r where
    "segbuf_push_block_with gc env s lba d = (if Suc (cur_count s) = BLOCKS_PER_SEGMENT \<and> gc_triggered env s' then gc s' else Some s')"
    "vol_inv env s' (M(k \<mapsto> r)) (P(k := d))" "vol_pos s' = Suc (vol_pos s)" "tree_room (vo_tree s') n"
    "sa_status (vo_alloc s') = sa_status (vo_alloc s)" "kept s s'"
    "\<And>i. i \<in> vo_used s \<Longrightarrow> valid_offsets (vo_entry s' i) = valid_offsets (vo_entry s i) -
       {block_offset_within_segment (pba r) |r. M k = Some r \<and> block_to_segment (pba r) = i}"
    "\<And>i. i < NR_SEGMENT env \<Longrightarrow> node_list (vo_dst s') ! i \<noteq> None \<Longrightarrow>
       node_list (vo_dst s) ! i \<noteq> None \<or> (\<exists>r. M k = Some r \<and> block_to_segment (pba r) = i)"
    "Suc (cur_count s) = BLOCKS_PER_SEGMENT \<Longrightarrow> cur_count s' = 0" "cur_count s' = 0 \<or> cur_segment (vo_buf s') = cur_segment (vo_buf s)"
proof -
  obtain t where t: "volume_search env s lba = Some (found (M (of_nat lba)), s\<lparr>vo_tree := t\<rparr>)" "vol_inv env (s\<lparr>vo_tree := t\<rparr>) M P"
    "same_tables s (s\<lparr>vo_tree := t\<rparr>)" "\<And>n. tree_room (vo_tree s) n \<Longrightarrow> tree_room t n" by (rule search_inv [OF inv]) (rule that)
  define s1 where "s1 = s\<lparr>vo_tree := t\<rparr>"
  have I1: "index_ok env s1 M" "vol_log env s1 (unwritten s1) M P" "buffer_ok s1" "cur_segment (vo_buf s1) \<in> vo_used s1"
    "nr_valid_segment (vo_alloc s1) = card (vo_used s1)" "plain_ok s1 M P" "cur_count s1 < BLOCKS_PER_SEGMENT"
    using t(2) by (simp_all add: vol_inv_def vol_mid_def s1_def)
  obtain dt bm where D: "return_old env (found (M k)) s1 = set_bm bm (s1\<lparr>vo_dst := dt\<rparr>)"
    "index_ok env (set_bm bm (s1\<lparr>vo_dst := dt\<rparr>)) M" "vol_log env (set_bm bm (s1\<lparr>vo_dst := dt\<rparr>)) (unwritten s1) (M(k := None)) P"
    "vo_used (set_bm bm (s1\<lparr>vo_dst := dt\<rparr>)) = vo_used s1"
    "\<And>n. tree_room (vo_tree (set_bm bm (s1\<lparr>vo_dst := dt\<rparr>))) n = tree_room (vo_tree s1) n"
    "\<And>i. i < NR_SEGMENT env \<Longrightarrow> valid_offsets (vo_entry (set_bm bm (s1\<lparr>vo_dst := dt\<rparr>)) i) = valid_offsets (vo_entry s1 i) -
       {block_offset_within_segment (pba r) |r. M k = Some r \<and> block_to_segment (pba r) = i}"
    "\<And>i. i < NR_SEGMENT env \<Longrightarrow> node_list dt ! i \<noteq> None \<Longrightarrow>
       node_list (vo_dst s1) ! i \<noteq> None \<or> (\<exists>r. M k = Some r \<and> block_to_segment (pba r) = i)"
    by (rule return_old_ok [OF I1(1,2), of k]) (use fit that in \<open>simp_all add: env_fit_def\<close>)
  define s2 where "s2 = set_bm bm (s1\<lparr>vo_dst := dt\<rparr>)"
  have B2: "vo_buf s2 = vo_buf s" "vo_data s2 = vo_data s" "vo_alloc s2 = vo_alloc s" "vo_dst s2 = dt" "vo_used s2 = vo_used s"
    using D(4) t(3) by (simp_all add: s2_def set_bm_tree s1_def same_tables_def)
  have c2: "cur_count s2 = cur_count s" "cur_begin s2 = cur_begin s" "unwritten s2 = unwritten s1" "buffer_ok s2" "in_buffer s2 = in_buffer s"
    using I1(3) by (simp_all add: cur_count_def cur_begin_def unwritten_def buffer_ok_def in_buffer_def fun_eq_iff B2 s1_def)
  have P2: "plain_ok s2 (M(k := None)) P"
    by (rule plain_ok_mono [of _ M]) (use I1(6) in \<open>simp_all add: plain_ok_def in_buffer_def cur_begin_def cur_count_def B2 s1_def map_le_def\<close>)
  note D2 = D [folded s2_def]
  have S1: "vo_used s1 = vo_used s" "vo_entry s1 = vo_entry s" "vo_dst s1 = vo_dst s" "vo_buf s1 = vo_buf s" "vo_alloc s1 = vo_alloc s" "vo_tree s1 = t"
    using t(3) by (simp_all add: s1_def same_tables_def)
  have H2: "cur_count s2 < BLOCKS_PER_SEGMENT" "cur_segment (vo_buf s2) \<in> vo_used s2" "nr_valid_segment (vo_alloc s2) = card (vo_used s2)"
    "vol_log env s2 (unwritten s2) (M(k := None)) P" "tree_room (vo_tree s2) (Suc n)"
    using inv D2(3,5) t(4) [OF room] unfolding c2 B2 S1 vol_inv_def vol_mid_def by simp_all
  obtain s3 r where L: "log_block env s2 (cur_begin s2 + cur_count s2) lba d = Some s3" "vol_mid env (next_slot s3) (M(k \<mapsto> r)) (P(k := d))"
    "cur_count s3 = cur_count s2" "cur_segment (vo_buf s3) = cur_segment (vo_buf s2)" "vo_used s3 = vo_used s2" "vo_entry s3 = vo_entry s2"
    "vo_dst s3 = vo_dst s2" "vo_data s3 = vo_data s2" "vo_alloc s3 = vo_alloc s2" "tree_room (vo_tree s3) n"
    by (rule log_block_mid [OF fit D2(2) c2(4) H2(1-4) P2 k d H2(5)]) (rule that)
  have n3: "cur_count s3 < BLOCKS_PER_SEGMENT" "Suc (cur_count s3) = BLOCKS_PER_SEGMENT \<Longrightarrow> card (vo_used s3) < NR_SEGMENT env"
    using L(3,5) H2(1) free B2(5) c2(1) by simp_all
  obtain s' where A: "advance_with gc env s3 = (if Suc (cur_count s3) = BLOCKS_PER_SEGMENT \<and> gc_triggered env s' then gc s' else Some s')"
    "vol_inv env s' (M(k \<mapsto> r)) (P(k := d))" "vol_pos s' = Suc (vol_pos s3)" "\<And>n. tree_room (vo_tree s') n = tree_room (vo_tree s3) n"
    "sa_status (vo_alloc s') = sa_status (vo_alloc s3)" "kept (next_slot s3) s'" "\<And>i. i \<in> vo_used s3 \<Longrightarrow> vo_entry s' i = vo_entry s3 i"
    "\<And>i. i < NR_SEGMENT env \<Longrightarrow> node_list (vo_dst s') ! i \<noteq> None \<Longrightarrow> node_list (vo_dst s3) ! i \<noteq> None"
    "Suc (cur_count s3) = BLOCKS_PER_SEGMENT \<Longrightarrow> cur_count s' = 0" "cur_count s' = 0 \<or> cur_segment (vo_buf s') = cur_segment (vo_buf s3)"
    by (rule advance_ok [OF L(2) n3]) (assumption, rule that)
  have "cur_sector (vo_buf s2) = cur_count s2 * SECTORS_PER_BLOCK" using c2(4) by (simp add: buffer_ok_def)
  then have nb: "next_block env s2 False = Some (cur_begin s2 + cur_count s2, s2)" by (simp add: next_block_def cur_begin_def sizes)
  have eq: "segbuf_push_block_with gc env s lba d = advance_with gc env s3"
    using nt t(1) D2(1) nb L(1) k(1) by (simp add: segbuf_push_block_with_def Let_def s1_def [symmetric])
  have kp: "kept s s'"
  proof (rule kept_trans [OF _ A(6)])
    have b: "buffer_ok s" "buffer_ok (next_slot s3)" using inv L(2) by (simp_all add: vol_inv_def vol_mid_def)
    show "kept s (next_slot s3)" unfolding kept_def using cipher_other [OF b(1)] cipher_other [OF b(2)] by (simp add: L(4,5,8) B2)
  qed
  have v: "valid_offsets (vo_entry s' i) = valid_offsets (vo_entry s i) -
       {block_offset_within_segment (pba r) |r. M k = Some r \<and> block_to_segment (pba r) = i}" if i: "i \<in> vo_used s" for i
  proof -
    have "i \<in> vo_used s3" "i < NR_SEGMENT env" using i L(5) B2(5) log_parts(1) [OF H2(4)] by auto
    then show ?thesis using A(7) [of i] L(6) D2(6) [of i] S1(2) by simp
  qed
  show thesis
    by (rule that [of s' r]) (use eq A kp v L B2 D2(7) S1(3) in \<open>simp_all add: vol_pos_def c2\<close>)
qed

end
