(* ===== verification/Volume_Gc.thy ===== *)
theory Volume_Gc
  imports Volume_Push
begin

text \<open>
  The garbage collector: moving the valid blocks of a victim, releasing its segment, and the loop over
  the victims. A collection keeps the contents of the volume and frees a segment.
\<close>

section \<open>Moving one block\<close>

text \<open>A volume in which the collector runs: it holds little enough that a victim with at most three
  quarters of valid blocks exists, and its current segment is not a victim.\<close>

definition gc_inv :: "volume_env \<Rightarrow> volume \<Rightarrow> (u32 \<rightharpoonup> index_record) \<Rightarrow> (u32 \<Rightarrow> byte list) \<Rightarrow> bool" where
  "gc_inv env s M P \<longleftrightarrow> vol_inv env s M P \<and> sa_status (vo_alloc s) = SEGMENT_CLEANING \<and> env_fit env \<and> 18 < NR_SEGMENT env \<and>
     card (dom M) \<le> 768 * (NR_SEGMENT env - 18) \<and> valid_offsets (vo_entry s (cur_segment (vo_buf s))) = {..<BLOCKS_PER_SEGMENT}"

lemma vol_inv_log: "vol_inv env s M P \<Longrightarrow> vol_log env s (unwritten s) M P"
  by (simp add: vol_inv_def vol_mid_def)

lemma vol_inv_index: "vol_inv env s M P \<Longrightarrow> index_ok env s M"
  by (simp add: vol_inv_def vol_mid_def)

lemma vol_inv_buffer: "vol_inv env s M P \<Longrightarrow> buffer_ok s"
  by (simp add: vol_inv_def vol_mid_def)

lemma vol_inv_cur: "vol_inv env s M P \<Longrightarrow> cur_segment (vo_buf s) \<in> vo_used s"
  by (simp add: vol_inv_def vol_mid_def)

lemma fresh_segment_full:
  assumes inv: "vol_inv env s M P" and c: "cur_count s = 0"
  shows "valid_offsets (vo_entry s (cur_segment (vo_buf s))) = {..<BLOCKS_PER_SEGMENT}"
proof
  show "valid_offsets (vo_entry s (cur_segment (vo_buf s))) \<subseteq> {..<BLOCKS_PER_SEGMENT}" by (auto simp: valid_offsets_def)
  have "off \<in> valid_offsets (vo_entry s (cur_segment (vo_buf s)))" if off: "off < BLOCKS_PER_SEGMENT" for off
  proof -
    let ?b = "cur_segment (vo_buf s) * BLOCKS_PER_SEGMENT + off"
    have "?b \<in> unwritten s" using off c by (simp add: unwritten_def cur_begin_def)
    then have "valid_block (vo_entry s) ?b" using log_parts(2) [OF vol_inv_log [OF inv]] by blast
    then show ?thesis using off by (simp add: valid_block_def block_to_segment_def block_offset_within_segment_def)
  qed
  then show "{..<BLOCKS_PER_SEGMENT} \<subseteq> valid_offsets (vo_entry s (cur_segment (vo_buf s)))" by auto
qed

lemma rit_get_lba:
  assumes "index_ok env s M" "b < NR_SEGMENT env * BLOCKS_PER_SEGMENT"
  shows "reverse_index_table_get (vo_rit s) (vo_bm s) b = Inr (vo_lba s b)"
proof -
  have "da_sized 8 (rit_array (vo_rit s)) (vo_bm s)" "b < da_nr_entry (rit_array (vo_rit s))"
    using assms by (simp_all add: index_ok_def tables_ok_def)
  from rit_table.typed.get_cell [OF this] show ?thesis
    by (auto simp: vo_lba_def reverse_index_table_get_def reverse_index_table_get_entry_def)
qed

lemma gc_block_ok:
  assumes g: "gc_inv env s M P" and b: "block_to_segment b = i" "i \<in> vo_used s" "i \<noteq> cur_segment (vo_buf s)" "valid_block (vo_entry s) b"
    and room: "tree_room (vo_tree s) (Suc n)" and pos: "Suc (vol_pos s) < BLOCKS_PER_SEGMENT * NR_SEGMENT env"
  obtains s' M' where "gc_block env b (cipher_at s b) s = Some s'" "gc_inv env s' M' P" "dom M' = dom M" "vol_pos s' = Suc (vol_pos s)"
    "tree_room (vo_tree s') n" "kept s s'" "valid_offsets (vo_entry s' i) = valid_offsets (vo_entry s i) - {block_offset_within_segment b}"
    "\<And>j. j < NR_SEGMENT env \<Longrightarrow> node_list (vo_dst s') ! j \<noteq> None \<Longrightarrow> node_list (vo_dst s) ! j \<noteq> None \<or> j = i"
proof -
  have G: "vol_inv env s M P" "sa_status (vo_alloc s) = SEGMENT_CLEANING" "env_fit env" "18 < NR_SEGMENT env"
    "card (dom M) \<le> 768 * (NR_SEGMENT env - 18)" "valid_offsets (vo_entry s (cur_segment (vo_buf s))) = {..<BLOCKS_PER_SEGMENT}"
    using g by (simp_all add: gc_inv_def)
  note L = vol_inv_log [OF G(1)]
  have bN: "b < NR_SEGMENT env * BLOCKS_PER_SEGMENT" "b \<notin> unwritten s"
    using log_parts(1) [OF L] b(1-3) unwritten_segment [OF vol_inv_buffer [OF G(1)]] by (auto simp: segment_bound in_segment subset_iff)
  obtain r where r: "M (of_nat (vo_lba s b)) = Some r" "pba r = b" using log_valid_record [OF L bN(1) b(4) bN(2)] by blast
  define k where "k = (of_nat (vo_lba s b) :: u32)"
  have Mk: "M k = Some r" using r(1) by (simp add: k_def)
  note R = log_record [OF L Mk]
  have lba: "vo_lba s b = unat k" "unat k < 2 ^ 32" using R(5) r(2) unsigned_less [of k, where 'a = nat] by simp_all
  obtain t where t: "volume_search env s (unat k) = Some (found (M (of_nat (unat k))), s\<lparr>vo_tree := t\<rparr>)" "vol_inv env (s\<lparr>vo_tree := t\<rparr>) M P"
    "same_tables s (s\<lparr>vo_tree := t\<rparr>)" "\<And>n. tree_room (vo_tree s) n \<Longrightarrow> tree_room t n" by (rule search_inv [OF G(1)]) (rule that)
  define s1 where "s1 = s\<lparr>vo_tree := t\<rparr>"
  have S1: "vo_used s1 = vo_used s" "vo_entry s1 = vo_entry s" "vo_dst s1 = vo_dst s" "vo_buf s1 = vo_buf s" "vo_alloc s1 = vo_alloc s"
    "vo_tree s1 = t" "cipher_at s1 = cipher_at s" "cur_count s1 = cur_count s"
    using t(3) by (simp_all add: s1_def same_tables_def fun_eq_iff cipher_at_def in_buffer_def cur_begin_def cur_count_def)
  have nt: "\<not> sworndisk_should_threaded_logging env s1"
    using not_threaded [OF t(2) G(5,4)] G(3) by (simp add: s1_def env_fit_def)
  have dec: "decrypt (le_cipher (ve_lsm env)) (rkey r) (riv r) (rmac r) (pba r) (cipher_at s b) = (Inr (), P k)"
    using R(7) r(2) G(3) by (simp add: decrypt_iff env_fit_def)
  have fr: "card (vo_used s1) < NR_SEGMENT env" if "Suc (cur_count s1) = BLOCKS_PER_SEGMENT"
  proof -
    have "BLOCKS_PER_SEGMENT * card (vo_used s) < BLOCKS_PER_SEGMENT * NR_SEGMENT env" using that pos S1(8) unfolding vol_pos_def by linarith
    then show ?thesis using S1(1) by simp
  qed
  obtain s' r' where p: "segbuf_push_block_with Some env s1 (unat k) (P k) =
      (if Suc (cur_count s1) = BLOCKS_PER_SEGMENT \<and> gc_triggered env s' then Some s' else Some s')"
    "vol_inv env s' (M(k \<mapsto> r')) (P(k := P k))" "vol_pos s' = Suc (vol_pos s1)" "tree_room (vo_tree s') n"
    "sa_status (vo_alloc s') = sa_status (vo_alloc s1)" "kept s1 s'"
    "\<And>i. i \<in> vo_used s1 \<Longrightarrow> valid_offsets (vo_entry s' i) = valid_offsets (vo_entry s1 i) -
       {block_offset_within_segment (pba r) |r. M k = Some r \<and> block_to_segment (pba r) = i}"
    "\<And>i. i < NR_SEGMENT env \<Longrightarrow> node_list (vo_dst s') ! i \<noteq> None \<Longrightarrow>
       node_list (vo_dst s1) ! i \<noteq> None \<or> (\<exists>r. M k = Some r \<and> block_to_segment (pba r) = i)"
    "cur_count s' = 0 \<or> cur_segment (vo_buf s') = cur_segment (vo_buf s1)"
    by (rule push_ok [OF G(3) t(2) [folded s1_def] nt, of k "unat k" "P k" n Some])
      (use R(1,6) lba(2) S1(6) t(4) [OF room] fr that in simp_all)
  have eq: "gc_block env b (cipher_at s b) s = Some s'"
    using rit_get_lba [OF vol_inv_index [OF G(1)] bN(1)] lba(1) t(1) Mk dec p(1) by (simp add: gc_block_def found_def s1_def)
  have full: "valid_offsets (vo_entry s' (cur_segment (vo_buf s'))) = {..<BLOCKS_PER_SEGMENT}"
  proof (cases "cur_count s' = 0")
    case True
    then show ?thesis by (rule fresh_segment_full [OF p(2)])
  next
    case False
    then have "cur_segment (vo_buf s') = cur_segment (vo_buf s)" using p(9) S1(4) by simp
    then show ?thesis using p(7) [of "cur_segment (vo_buf s)"] vol_inv_cur [OF G(1)] S1 G(6) b(1,3) Mk r(2) by auto
  qed
  have "dom (M(k \<mapsto> r')) = dom M" using Mk by auto
  moreover have "gc_inv env s' (M(k \<mapsto> r')) P" using p(2,5) G full S1(5) calculation by (simp add: gc_inv_def)
  moreover have "kept s s'" using p(6) S1 by (simp add: kept_def)
  moreover have "vol_pos s' = Suc (vol_pos s)" using p(3) S1 by (simp add: vol_pos_def)
  moreover have "valid_offsets (vo_entry s' i) = valid_offsets (vo_entry s i) - {block_offset_within_segment b}"
    using p(7) [of i] b(1,2) S1 Mk r(2) by auto
  moreover have "node_list (vo_dst s) ! j \<noteq> None \<or> j = i" if "j < NR_SEGMENT env" "node_list (vo_dst s') ! j \<noteq> None" for j
    using p(8) [OF that] S1(3) Mk r(2) b(1) by auto
  ultimately show thesis using eq p(4) that by metis
qed

section \<open>Moving the blocks of a victim\<close>

lemma find_next_bit_spec:
  assumes "off \<le> n"
  shows "off \<le> find_next_bit T n off" "find_next_bit T n off \<le> n" "\<And>j. off \<le> j \<Longrightarrow> j < find_next_bit T n off \<Longrightarrow> \<not> bit T j"
    "find_next_bit T n off < n \<Longrightarrow> bit T (find_next_bit T n off)"
proof -
  have *: "off \<le> find_next_bit T n off \<and> find_next_bit T n off \<le> n \<and> (\<forall>j. off \<le> j \<longrightarrow> j < find_next_bit T n off \<longrightarrow> \<not> bit T j) \<and>
    (find_next_bit T n off < n \<longrightarrow> bit T (find_next_bit T n off))"
  proof (cases "find (bit T) [off..<n]")
    case None
    then have "find_next_bit T n off = n" by (simp add: find_next_bit_def)
    moreover have "\<not> bit T j" if "off \<le> j" "j < n" for j using None that by (auto simp: find_None_iff)
    ultimately show ?thesis using assms by simp
  next
    case (Some i)
    then obtain m where m: "m < n - off" "bit T (off + m)" "i = off + m" "\<forall>j < m. \<not> bit T (off + j)"
      by (auto simp: find_Some_iff)
    have "\<not> bit T j" if "off \<le> j" "j < i" for j using m(3,4) that by (metis add_diff_inverse_nat less_diff_conv2 linorder_not_le nat_add_left_cancel_less)
    then show ?thesis using Some m by (simp add: find_next_bit_def)
  qed
  then show "off \<le> find_next_bit T n off" "find_next_bit T n off \<le> n" "\<And>j. off \<le> j \<Longrightarrow> j < find_next_bit T n off \<Longrightarrow> \<not> bit T j"
    "find_next_bit T n off < n \<Longrightarrow> bit T (find_next_bit T n off)" by auto
qed

lemma find_next_zero_bit_spec:
  assumes "off < n" "bit T off"
  shows "off < find_next_zero_bit T n off" "find_next_zero_bit T n off \<le> n"
proof -
  have "off < find_next_zero_bit T n off \<and> find_next_zero_bit T n off \<le> n"
  proof (cases "find (\<lambda>i. \<not> bit T i) [off..<n]")
    case None
    then show ?thesis using assms by (simp add: find_next_zero_bit_def)
  next
    case (Some i)
    then obtain m where m: "m < n - off" "\<not> bit T (off + m)" "i = off + m" by (auto simp: find_Some_iff)
    moreover have "0 < m" using m(2) assms(2) by (cases m) auto
    ultimately show ?thesis using Some by (simp add: find_next_zero_bit_def)
  qed
  then show "off < find_next_zero_bit T n off" "find_next_zero_bit T n off \<le> n" by simp_all
qed

text \<open>The offsets that are still to be moved.\<close>

definition left_offsets :: "bitmap \<Rightarrow> nat \<Rightarrow> nat set" where
  "left_offsets T off = {j. off \<le> j \<and> j < BLOCKS_PER_SEGMENT \<and> bit T j}"

lemma finite_left [simp]: "finite (left_offsets T off)"
  by (simp add: left_offsets_def)

lemma left_offsets_next:
  assumes "off < BLOCKS_PER_SEGMENT" "bit T off"
  shows "left_offsets T off = insert off (left_offsets T (find_next_bit T BLOCKS_PER_SEGMENT (off + 1)))"
    "off \<notin> left_offsets T (find_next_bit T BLOCKS_PER_SEGMENT (off + 1))"
proof -
  note F = find_next_bit_spec [where off = "off + 1" and n = BLOCKS_PER_SEGMENT and T = T]
  show "off \<notin> left_offsets T (find_next_bit T BLOCKS_PER_SEGMENT (off + 1))" using F(1) assms(1) by (auto simp: left_offsets_def)
  have "j = off \<or> find_next_bit T BLOCKS_PER_SEGMENT (off + 1) \<le> j" if "off \<le> j" "bit T j" for j
    using F(3) [of j] that assms(1) by force
  then show "left_offsets T off = insert off (left_offsets T (find_next_bit T BLOCKS_PER_SEGMENT (off + 1)))"
    using F(1) assms by (auto simp: left_offsets_def)
qed

lemma left_offsets_start: "left_offsets T (find_next_bit T BLOCKS_PER_SEGMENT 0) = {j. j < BLOCKS_PER_SEGMENT \<and> bit T j}"
proof -
  have "find_next_bit T BLOCKS_PER_SEGMENT 0 \<le> j" if "bit T j" for j
    using find_next_bit_spec(3) [where off = 0 and n = BLOCKS_PER_SEGMENT and T = T and j = j] that by force
  then show ?thesis by (auto simp: left_offsets_def)
qed

lemma slice_overwrite_inside:
  assumes "p + length new \<le> length xs" "q + n \<le> length new"
  shows "slice (p + q) n (overwrite p new xs) = slice q n new"
proof (rule nth_equalityI)
  show "length (slice (p + q) n (overwrite p new xs)) = length (slice q n new)" using assms by (simp add: len_simps)
  fix i assume "i < length (slice (p + q) n (overwrite p new xs))"
  then have i: "i < n" using assms by (simp add: len_simps)
  have "slice (p + q) n (overwrite p new xs) ! i = overwrite p new xs ! (p + q + i)"
    by (rule nth_slice) (use assms i in \<open>simp_all add: length_overwrite\<close>)
  also have "\<dots> = new ! (q + i)" using assms i by (subst nth_overwrite) auto
  also have "\<dots> = slice q n new ! i" using assms i by (simp add: nth_slice)
  finally show "slice (p + q) n (overwrite p new xs) ! i = slice q n new ! i" .
qed

text \<open>The part of the collector's buffer that holds the blocks of the victim.\<close>

definition region_read :: "volume \<Rightarrow> nat \<Rightarrow> byte list \<Rightarrow> nat \<Rightarrow> nat \<Rightarrow> bool" where
  "region_read s i buf lo hi \<longleftrightarrow> length buf = SEGMENT_BUFFER_SIZE \<and>
     (\<forall>j. lo \<le> j \<longrightarrow> j < hi \<longrightarrow> slice (j * DATA_BLOCK_SIZE) DATA_BLOCK_SIZE buf = cipher_at s (i * BLOCKS_PER_SEGMENT + j))"

lemma region_read_new:
  assumes "buffer_ok s" "length buf = SEGMENT_BUFFER_SIZE" "off < e" "e \<le> BLOCKS_PER_SEGMENT"
  shows "region_read s i (overwrite (off * DATA_BLOCK_SIZE) (sworndisk_read_blocks s (i * BLOCKS_PER_SEGMENT + off) (e - off)) buf) off e"
proof -
  let ?z = DATA_BLOCK_SIZE and ?r = "sworndisk_read_blocks s (i * BLOCKS_PER_SEGMENT + off) (e - off)"
  note R = read_blocks [OF assms(1), of "i * BLOCKS_PER_SEGMENT + off" "e - off"]
  have fit: "off * ?z + length ?r \<le> length buf" using assms(2-4) R(1) by (simp add: sizes)
  have "slice (j * ?z) ?z (overwrite (off * ?z) ?r buf) = cipher_at s (i * BLOCKS_PER_SEGMENT + j)" if j: "off \<le> j" "j < e" for j
  proof -
    have "j * ?z = off * ?z + (j - off) * ?z" using j by (metis add_mult_distrib le_add_diff_inverse)
    moreover have "(j - off) * ?z + ?z \<le> length ?r" using j R(1) by (simp add: sizes)
    ultimately have "slice (j * ?z) ?z (overwrite (off * ?z) ?r buf) = slice ((j - off) * ?z) ?z ?r"
      using slice_overwrite_inside [OF fit] by metis
    then show ?thesis using read_blocks(2) [OF assms(1), of "j - off" "e - off" "i * BLOCKS_PER_SEGMENT + off"] j by simp
  qed
  then show ?thesis using length_overwrite [OF fit] assms(2) by (simp add: region_read_def)
qed

lemma region_read_kept:
  assumes "region_read s i buf lo hi" "kept s s'" "i \<in> vo_used s" "i \<noteq> cur_segment (vo_buf s)" "hi \<le> BLOCKS_PER_SEGMENT"
  shows "region_read s' i buf lo hi"
proof -
  have "cipher_at s' (i * BLOCKS_PER_SEGMENT + j) = cipher_at s (i * BLOCKS_PER_SEGMENT + j)" if "j < hi" for j
    using assms(2-5) that by (simp add: kept_def block_to_segment_def)
  then show ?thesis using assms(1) by (simp add: region_read_def)
qed

lemma gc_blocks_ok:
  assumes "gc_inv env s M P" "v_segno victim = i" "i \<in> vo_used s" "i \<noteq> cur_segment (vo_buf s)"
    and "valid_offsets (vo_entry s i) = left_offsets (v_block_validity_table victim) off"
    and "off < BLOCKS_PER_SEGMENT \<Longrightarrow> bit (v_block_validity_table victim) off"
    and "region_read s i buf lo hi" "hi \<le> BLOCKS_PER_SEGMENT"
    and "tree_room (vo_tree s) (card (left_offsets (v_block_validity_table victim) off) + n)"
    and "vol_pos s + card (left_offsets (v_block_validity_table victim) off) < BLOCKS_PER_SEGMENT * NR_SEGMENT env"
  shows "\<exists>s' M'. gc_blocks env victim off lo hi buf s = Some s' \<and> gc_inv env s' M' P \<and> dom M' = dom M \<and>
    vol_pos s' = vol_pos s + card (left_offsets (v_block_validity_table victim) off) \<and> tree_room (vo_tree s') n \<and> kept s s' \<and>
    valid_offsets (vo_entry s' i) = {} \<and>
    (\<forall>j < NR_SEGMENT env. node_list (vo_dst s') ! j \<noteq> None \<longrightarrow> node_list (vo_dst s) ! j \<noteq> None \<or> j = i)"
  using assms
proof (induction "BLOCKS_PER_SEGMENT - off" arbitrary: off lo hi buf s M rule: less_induct)
  case less
  let ?T = "v_block_validity_table victim" and ?b = "i * BLOCKS_PER_SEGMENT + off"
  show ?case
  proof (cases "off < BLOCKS_PER_SEGMENT")
    case False
    then have "left_offsets ?T off = {}" by (auto simp: left_offsets_def)
    moreover have "gc_blocks env victim off lo hi buf s = Some s" using False by (simp add: gc_blocks.simps)
    moreover have "kept s s" by (simp add: kept_def)
    ultimately show ?thesis using less.prems by auto
  next
    case True
    define off' where "off' = find_next_bit ?T BLOCKS_PER_SEGMENT (off + 1)"
    have bo: "buffer_ok s" by (rule vol_inv_buffer [of env s M P]) (use less.prems(1) in \<open>simp add: gc_inv_def\<close>)
    note bit = less.prems(6) [OF True]
    note LO = left_offsets_next [OF True bit, folded off'_def]
    define reg where "reg = (if offset_in_region off lo hi then (lo, hi, buf)
      else let e = find_next_zero_bit ?T BLOCKS_PER_SEGMENT off in (off, e, overwrite (off * DATA_BLOCK_SIZE) (sworndisk_read_blocks s ?b (e - off)) buf))"
    obtain lo' hi' buf' where reg: "reg = (lo', hi', buf')" by (metis prod_cases3)
    note Z = find_next_zero_bit_spec [OF True bit]
    have rr: "region_read s i buf' lo' hi'" "hi' \<le> BLOCKS_PER_SEGMENT" "lo' \<le> off" "off < hi'"
      using reg less.prems(7,8) Z region_read_new [OF bo _ Z]
      by (auto simp: reg_def Let_def offset_in_region_def region_read_def split: if_splits)
    have blk: "block_to_segment ?b = i" "block_offset_within_segment ?b = off"
      using True by (simp_all add: block_to_segment_def block_offset_within_segment_def)
    have vb: "valid_block (vo_entry s) ?b" using less.prems(5) LO(1) by (simp add: valid_block_def blk)
    have crd: "card (left_offsets ?T off) = Suc (card (left_offsets ?T off'))" using LO by simp
    obtain s1 M1 where B: "gc_block env ?b (cipher_at s ?b) s = Some s1" "gc_inv env s1 M1 P" "dom M1 = dom M" "vol_pos s1 = Suc (vol_pos s)"
      "tree_room (vo_tree s1) (card (left_offsets ?T off') + n)" "kept s s1"
      "valid_offsets (vo_entry s1 i) = valid_offsets (vo_entry s i) - {block_offset_within_segment ?b}"
      "\<And>j. j < NR_SEGMENT env \<Longrightarrow> node_list (vo_dst s1) ! j \<noteq> None \<Longrightarrow> node_list (vo_dst s) ! j \<noteq> None \<or> j = i"
      by (rule gc_block_ok [OF less.prems(1) blk(1) less.prems(3,4) vb, of "card (left_offsets ?T off') + n"])
        (use less.prems(9,10) crd that in simp_all)
    have step: "gc_blocks env victim off lo hi buf s = gc_blocks env victim off' lo' hi' buf' s1"
      using True less.prems(2) reg rr(1,3,4) B(1)
      by (subst gc_blocks.simps) (simp add: reg_def [symmetric] off'_def region_read_def)
    have F: "off' \<le> BLOCKS_PER_SEGMENT" "off < off'" "off' < BLOCKS_PER_SEGMENT \<Longrightarrow> bit ?T off'"
      using find_next_bit_spec [where off = "off + 1" and n = BLOCKS_PER_SEGMENT and T = ?T] True by (simp_all add: off'_def)
    have cur: "i \<in> vo_used s1" "i \<noteq> cur_segment (vo_buf s1)" using B(6) less.prems(3,4) by (auto simp: kept_def)
    have val: "valid_offsets (vo_entry s1 i) = left_offsets ?T off'" using B(7) less.prems(5) LO blk(2) by simp
    have "\<exists>s' M'. gc_blocks env victim off' lo' hi' buf' s1 = Some s' \<and> gc_inv env s' M' P \<and> dom M' = dom M1 \<and>
      vol_pos s' = vol_pos s1 + card (left_offsets ?T off') \<and> tree_room (vo_tree s') n \<and> kept s1 s' \<and> valid_offsets (vo_entry s' i) = {} \<and>
      (\<forall>j < NR_SEGMENT env. node_list (vo_dst s') ! j \<noteq> None \<longrightarrow> node_list (vo_dst s1) ! j \<noteq> None \<or> j = i)"
      by (rule less.hyps [OF _ B(2) less.prems(2) cur val F(3) _ rr(2) B(5)])
        (use True F(2) region_read_kept [OF rr(1) B(6) less.prems(3,4) rr(2)] B(4) crd less.prems(10) in simp_all)
    then obtain s' M' where I: "gc_blocks env victim off' lo' hi' buf' s1 = Some s'" "gc_inv env s' M' P" "dom M' = dom M1"
      "vol_pos s' = vol_pos s1 + card (left_offsets ?T off')" "tree_room (vo_tree s') n" "kept s1 s'" "valid_offsets (vo_entry s' i) = {}"
      "\<forall>j < NR_SEGMENT env. node_list (vo_dst s') ! j \<noteq> None \<longrightarrow> node_list (vo_dst s1) ! j \<noteq> None \<or> j = i" by blast
    have "\<forall>j < NR_SEGMENT env. node_list (vo_dst s') ! j \<noteq> None \<longrightarrow> node_list (vo_dst s) ! j \<noteq> None \<or> j = i" using I(8) B(8) by blast
    then show ?thesis using step I B(3,4) crd kept_trans [OF B(6) I(6)] by (intro exI [of _ s'] exI [of _ M']) simp
  qed
qed

section \<open>Releasing a victim\<close>

lemma gc_inv_vol: "gc_inv env s M P \<Longrightarrow> vol_inv env s M P"
  by (simp add: gc_inv_def)

lemma index_ok_nodes:
  assumes "index_ok env s M" "dst_array d' = dst_array (vo_dst s)" "dst_nr_segment d' = dst_nr_segment (vo_dst s)" "vt_ok d'"
    "length (node_list d') = length (node_list (vo_dst s))"
  shows "index_ok env (s\<lparr>vo_dst := d'\<rparr>) M" "vo_entry (s\<lparr>vo_dst := d'\<rparr>) = vo_entry s" "vo_lba (s\<lparr>vo_dst := d'\<rparr>) = vo_lba s"
  using assms dst_entry_at_cong [OF assms(2)]
  by (simp_all add: index_ok_def tables_ok_def spans_apart_def dst_wf_def dst_ok_def fun_eq_iff vo_lba_def)

lemma release_victim_ok:
  assumes g: "gc_inv env s M P" and i: "v_segno v = i" "i < NR_SEGMENT env" "i \<noteq> cur_segment (vo_buf s)" "valid_offsets (vo_entry s i) = {}"
  obtains s' where "release_victim v s = (if i \<in> vo_used s then BLOCKS_PER_SEGMENT - v_nr_valid_block v else 0, s')" "gc_inv env s' M P"
    "vol_pos s' + (if i \<in> vo_used s then BLOCKS_PER_SEGMENT else 0) = vol_pos s" "\<And>n. tree_room (vo_tree s') n = tree_room (vo_tree s) n"
    "node_list (vo_dst s') = (node_list (vo_dst s))[i := None]"
proof -
  have inv: "vol_inv env s M P" by (rule gc_inv_vol [OF g])
  note L = vol_inv_log [OF inv] and ix = vol_inv_index [OF inv] and bo = vol_inv_buffer [OF inv]
  have T: "sv_inv (vo_sv s, vo_bm s)" "i < sv_nr_segment (vo_sv s)" using ix i(2) by (simp_all add: index_ok_def tables_ok_def)
  obtain bm where R: "seg_validator_test_and_return (vo_sv s) (vo_bm s) i = (Inr (i \<in> vo_used s), bm)" "sv_inv (vo_sv s, bm)"
    "sv_used (vo_sv s, bm) = vo_used s - {i}" "bm_within (sv_span (vo_sv s)) (vo_bm s) bm" by (rule sv_return [OF T]) (rule that)
  define s1 where "s1 = set_bm bm s"
  have s1: "s1 = set_bm bm (s\<lparr>vo_sv := vo_sv s\<rparr>)" by (simp add: s1_def)
  note X = index_ok_sv [OF ix R(2) refl refl R(4), folded s1]
  define a where "a = (if i \<in> vo_used s then (vo_alloc s)\<lparr>nr_valid_segment := nr_valid_segment (vo_alloc s) - 1\<rparr> else vo_alloc s)"
  define s2 where "s2 = s1\<lparr>vo_alloc := a\<rparr>"
  define d where "d = dst_destroy_victim (vo_dst s) i"
  define s' where "s' = s2\<lparr>vo_dst := d\<rparr>"
  have F2: "vo_dst s2 = vo_dst s" "vo_buf s2 = vo_buf s" "vo_data s2 = vo_data s" "vo_entry s2 = vo_entry s" "vo_lba s2 = vo_lba s" "vo_used s2 = vo_used s - {i}"
    "index_ok env s2 M" "vo_tree s2 = vo_tree s1"
    using X R(3) by (simp_all add: s2_def fun_eq_iff) (simp_all add: s1_def set_bm_tree)
  have W: "vt_ok (vo_dst s)" "i < length (node_list (vo_dst s))" using ix i(2) by (simp_all add: index_ok_def tables_ok_def dst_wf_def)
  note D = dst_destroy_ok [OF W, folded d_def]
  have Y: "index_ok env s' M" "vo_entry s' = vo_entry s" "vo_lba s' = vo_lba s"
    using index_ok_nodes [OF F2(7), of d] D F2(1,4,5) by (simp_all add: s'_def)
  have U: "vo_used s' = vo_used s - {i}" using F2(6) by (simp add: s'_def)
  have B: "vo_buf s' = vo_buf s" "vo_data s' = vo_data s" "vo_alloc s' = a" "vo_dst s' = d" "vo_tree s' = vo_tree s1" using F2 by (simp_all add: s'_def s2_def)
  have c: "cipher_at s' = cipher_at s" "unwritten s' = unwritten s" "cur_count s' = cur_count s" "in_buffer s' = in_buffer s" "cur_begin s' = cur_begin s"
    by (simp_all add: fun_eq_iff cipher_at_def in_buffer_def cur_begin_def cur_count_def unwritten_def B)
  have mid: "vol_mid env s M P" using inv by (simp add: vol_inv_def)
  have fin: "finite (vo_used s)" "nr_valid_segment (vo_alloc s) = card (vo_used s)" using vol_used [OF mid] mid by (simp_all add: vol_mid_def)
  have nd: "node_list (vo_dst s') = (node_list (vo_dst s))[i := None]" using B(4) D(2) by simp
  have "vol_log env s' (unwritten s') M P" unfolding U c Y(2,3) nd by (rule log_free [OF L i(2,4)])
  moreover have "nr_valid_segment (vo_alloc s') = card (vo_used s')" using fin by (simp add: U B(3) a_def)
  moreover have "buffer_ok s'" "plain_ok s' M P" using inv by (simp_all add: buffer_ok_def plain_ok_def c B vol_inv_def vol_mid_def)
  ultimately have "vol_inv env s' M P"
    using inv Y(1) i(3) unfolding vol_inv_def vol_mid_def U c B(1) by simp
  then have g': "gc_inv env s' M P" using g unfolding gc_inv_def Y(2) B(1,3) by (simp add: a_def)
  have rel: "release_victim v s = (if i \<in> vo_used s then BLOCKS_PER_SEGMENT - v_nr_valid_block v else 0, s')"
  proof -
    have "s1 = s1\<lparr>vo_alloc := vo_alloc s\<rparr>" by (simp add: s1_def set_bm_tree)
    moreover have "vo_alloc s1 = vo_alloc s" "vo_dst s1 = vo_dst s" by (simp_all add: s1_def set_bm_tree)
    ultimately show ?thesis using R(1) i(1)
      by (simp add: release_victim_def Let_def s1_def [symmetric] s'_def s2_def a_def d_def dst_destroy_victim_def)
  qed
  have ps: "vol_pos s' + (if i \<in> vo_used s then BLOCKS_PER_SEGMENT else 0) = vol_pos s"
  proof (cases "i \<in> vo_used s")
    case True
    have "card (vo_used s) = Suc (card (vo_used s - {i}))" by (rule card.remove [OF fin(1) True])
    then show ?thesis using True unfolding vol_pos_def c U by (simp only: mult_Suc_right if_True)
  qed (simp add: vol_pos_def c U)
  show thesis by (rule that [OF rel g' ps]) (use X(3) B(5) nd in simp_all)
qed

section \<open>The collection\<close>

lemma peek_node:
  assumes "vt_ok d" "dst_peek_victim d = Some v"
  shows "v_segno v < length (node_list d)" "node_list d ! v_segno v = Some v"
proof -
  have m: "set (victims d) = set (somes (node_list d))" using assms(1) by (metis set_mset_mset vt_ok_def)
  have "v \<in> set (somes (node_list d))" using assms(2) m by (auto simp: dst_peek_victim_def split: list.splits)
  then obtain j where j: "j < length (node_list d)" "node_list d ! j = Some v" by (metis in_set_conv_nth set_somes)
  then have "v_segno v = j" using assms(1) by (simp add: vt_ok_def)
  then show "v_segno v < length (node_list d)" "node_list d ! v_segno v = Some v" using j by simp_all
qed

text \<open>The victim the collector takes: its node mirrors the entry of its segment, it is not the current
  segment, and when enough segments are in use it is filled by three quarters at most.\<close>

lemma gc_victim:
  assumes g: "gc_inv env s M P" and pk: "dst_peek_victim (vo_dst s) = Some v"
  shows "v_segno v < NR_SEGMENT env" "v_segno v \<noteq> cur_segment (vo_buf s)"
    "v_block_validity_table v = block_validity_table (vo_entry s (v_segno v))"
    "v_nr_valid_block v = card (valid_offsets (vo_entry s (v_segno v)))" "v_nr_valid_block v < BLOCKS_PER_SEGMENT"
proof -
  have inv: "vol_inv env s M P" by (rule gc_inv_vol [OF g])
  note L = vol_inv_log [OF inv]
  have W: "vt_ok (vo_dst s)" "length (node_list (vo_dst s)) = NR_SEGMENT env"
    using vol_inv_index [OF inv] by (simp_all add: index_ok_def tables_ok_def dst_wf_def)
  note N = peek_node [OF W(1) pk]
  show iN: "v_segno v < NR_SEGMENT env" using N(1) W(2) by simp
  have "victim_of (v_segno v) (vo_entry s (v_segno v)) = Some v" using log_parts(5) [OF L iN] N(2) by auto
  then have v: "v = \<lparr>v_segno = v_segno v, v_nr_valid_block = nr_valid_block (vo_entry s (v_segno v)),
      v_block_validity_table = block_validity_table (vo_entry s (v_segno v))\<rparr>" "nr_valid_block (vo_entry s (v_segno v)) < BLOCKS_PER_SEGMENT"
    by (simp_all add: victim_of_def split: if_splits)
  show "v_block_validity_table v = block_validity_table (vo_entry s (v_segno v))" by (metis v(1) victim.select_convs(3))
  show nr: "v_nr_valid_block v = card (valid_offsets (vo_entry s (v_segno v)))" using log_count [OF L iN] by (metis v(1) victim.select_convs(2))
  show lt: "v_nr_valid_block v < BLOCKS_PER_SEGMENT" using v(2) nr log_count [OF L iN] by simp
  have "card (valid_offsets (vo_entry s (cur_segment (vo_buf s)))) = BLOCKS_PER_SEGMENT" using g by (simp add: gc_inv_def)
  then show "v_segno v \<noteq> cur_segment (vo_buf s)" using lt nr by (metis less_irrefl)
qed

lemma gc_victim_sparse:
  assumes g: "gc_inv env s M P" and n: "NR_SEGMENT env - 18 < card (vo_used s)"
  obtains v where "dst_peek_victim (vo_dst s) = Some v" "v_nr_valid_block v \<le> 768"
proof -
  have inv: "vol_inv env s M P" by (rule gc_inv_vol [OF g])
  note L = vol_inv_log [OF inv]
  have W: "vt_ok (vo_dst s)" "length (node_list (vo_dst s)) = NR_SEGMENT env"
    using vol_inv_index [OF inv] by (simp_all add: index_ok_def tables_ok_def dst_wf_def)
  have G: "card (dom M) \<le> 768 * (NR_SEGMENT env - 18)" "0 < NR_SEGMENT env - 18" using g by (simp_all add: gc_inv_def)
  obtain i where i: "i \<in> vo_used s" "nr_valid_block (vo_entry s i) \<le> 768"
    by (rule sparse_segment [OF L vol_inv_cur [OF inv] unwritten_segment [OF vol_inv_buffer [OF inv]] G n]) (rule that)
  have iN: "i < NR_SEGMENT env" using log_parts(1) [OF L] i(1) by auto
  then have "node_list (vo_dst s) ! i = victim_of i (vo_entry s i)" using log_parts(5) [OF L iN] i(1) by blast
  then obtain u where u: "node_list (vo_dst s) ! i = Some u" "v_nr_valid_block u \<le> 768"
    using i(2) by (simp add: victim_of_def BLOCKS_PER_SEGMENT_def)
  obtain v where "dst_peek_victim (vo_dst s) = Some v" "v_nr_valid_block v \<le> v_nr_valid_block u"
    by (rule vt_ok_peek [OF W(1) _ u(1)]) (use iN W(2) in auto)
  then show thesis using u(2) that le_trans by blast
qed

text \<open>The invalid blocks of one used segment are among the invalid blocks of all.\<close>

lemma invalid_count:
  assumes inv: "vol_inv env s M P" and i: "i \<in> vo_used s"
  shows "card (dom M) + 2 * BLOCKS_PER_SEGMENT \<le> vol_pos s + nr_valid_block (vo_entry s i)"
proof -
  note L = vol_inv_log [OF inv]
  have mid: "vol_mid env s M P" "cur_count s < BLOCKS_PER_SEGMENT" using inv by (simp_all add: vol_inv_def)
  have fin: "finite (vo_used s)" using vol_used [OF mid(1)] by simp
  have le: "nr_valid_block (vo_entry s j) \<le> BLOCKS_PER_SEGMENT" if "j \<in> vo_used s" for j
    using log_count [OF L, of j] log_parts(1) [OF L] that valid_offsets_card [of "vo_entry s j"] by auto
  have "(\<Sum>j\<in>vo_used s. nr_valid_block (vo_entry s j)) = nr_valid_block (vo_entry s i) + (\<Sum>j\<in>vo_used s - {i}. nr_valid_block (vo_entry s j))"
    using sum.remove [OF fin i] by simp
  also have "\<dots> \<le> nr_valid_block (vo_entry s i) + card (vo_used s - {i}) * BLOCKS_PER_SEGMENT"
    using sum_bounded_above [of "vo_used s - {i}" "\<lambda>j. nr_valid_block (vo_entry s j)" BLOCKS_PER_SEGMENT] le by simp
  finally have "card (dom M) + card (unwritten s) \<le> nr_valid_block (vo_entry s i) + card (vo_used s - {i}) * BLOCKS_PER_SEGMENT"
    using valid_blocks_count(3) [OF L] by simp
  moreover have "card (vo_used s) = Suc (card (vo_used s - {i}))" by (rule card.remove [OF fin i])
  moreover have "card (unwritten s) = BLOCKS_PER_SEGMENT - cur_count s" by (simp add: unwritten_def)
  ultimately show ?thesis using mid(2) by (simp add: vol_pos_def algebra_simps)
qed

lemma gc_iteration:
  assumes g: "gc_inv env s M P" and pk: "dst_peek_victim (vo_dst s) = Some v" and junk: "length junk = SEGMENT_BUFFER_SIZE"
    and room: "tree_room (vo_tree s) (v_nr_valid_block v + m)"
    and pos: "vol_pos s + v_nr_valid_block v < BLOCKS_PER_SEGMENT * NR_SEGMENT env"
  obtains s1 c s' M' where "move_victim env junk v s = Some s1" "release_victim v s1 = (c, s')" "gc_inv env s' M' P" "dom M' = dom M"
    "tree_room (vo_tree s') m" "c + vol_pos s' = vol_pos s"
    "vol_pos s' + (if v_segno v \<in> vo_used s then BLOCKS_PER_SEGMENT else 0) = vol_pos s + v_nr_valid_block v"
    "{j. j < NR_SEGMENT env \<and> node_list (vo_dst s') ! j \<noteq> None} \<subset> {j. j < NR_SEGMENT env \<and> node_list (vo_dst s) ! j \<noteq> None}"
proof -
  let ?i = "v_segno v" and ?N = "NR_SEGMENT env" and ?T = "v_block_validity_table v"
  note V = gc_victim [OF g pk]
  note L = vol_inv_log [OF gc_inv_vol [OF g]]
  have all: "left_offsets ?T (find_next_bit ?T BLOCKS_PER_SEGMENT 0) = valid_offsets (vo_entry s ?i)"
    unfolding left_offsets_start by (simp add: V(3) valid_offsets_def)
  have "\<exists>s1 M'. move_victim env junk v s = Some s1 \<and> gc_inv env s1 M' P \<and> dom M' = dom M \<and> vol_pos s1 = vol_pos s + v_nr_valid_block v \<and>
      tree_room (vo_tree s1) m \<and> kept s s1 \<and> valid_offsets (vo_entry s1 ?i) = {} \<and> (?i \<in> vo_used s \<longleftrightarrow> ?i \<in> vo_used s1) \<and>
      (\<forall>j < ?N. node_list (vo_dst s1) ! j \<noteq> None \<longrightarrow> node_list (vo_dst s) ! j \<noteq> None \<or> j = ?i)"
  proof (cases "v_nr_valid_block v = 0")
    case True
    then have "valid_offsets (vo_entry s ?i) = {}" using V(4) by simp
    moreover have "kept s s" by (simp add: kept_def)
    ultimately show ?thesis using True g room by (intro exI [of _ s] exI [of _ M]) (simp add: move_victim_def)
  next
    case False
    have used: "?i \<in> vo_used s" using log_parts(3) [OF L V(1)] V(4) False by auto
    have first: "bit ?T (find_next_bit ?T BLOCKS_PER_SEGMENT 0)" if "find_next_bit ?T BLOCKS_PER_SEGMENT 0 < BLOCKS_PER_SEGMENT"
      using find_next_bit_spec(4) [OF _ that] by simp
    have "\<exists>s1 M'. gc_blocks env v (find_next_bit ?T BLOCKS_PER_SEGMENT 0) 0 0 junk s = Some s1 \<and> gc_inv env s1 M' P \<and> dom M' = dom M \<and>
      vol_pos s1 = vol_pos s + card (left_offsets ?T (find_next_bit ?T BLOCKS_PER_SEGMENT 0)) \<and> tree_room (vo_tree s1) m \<and> kept s s1 \<and>
      valid_offsets (vo_entry s1 ?i) = {} \<and>
      (\<forall>j < ?N. node_list (vo_dst s1) ! j \<noteq> None \<longrightarrow> node_list (vo_dst s) ! j \<noteq> None \<or> j = ?i)"
      by (rule gc_blocks_ok [OF g refl used V(2) all [symmetric] first])
        (use junk room pos V(4) all in \<open>simp_all add: region_read_def\<close>)
    then obtain s1 M' where S: "gc_blocks env v (find_next_bit ?T BLOCKS_PER_SEGMENT 0) 0 0 junk s = Some s1" "gc_inv env s1 M' P" "dom M' = dom M"
      "vol_pos s1 = vol_pos s + v_nr_valid_block v" "tree_room (vo_tree s1) m" "kept s s1" "valid_offsets (vo_entry s1 ?i) = {}"
      "\<forall>j < ?N. node_list (vo_dst s1) ! j \<noteq> None \<longrightarrow> node_list (vo_dst s) ! j \<noteq> None \<or> j = ?i" unfolding all V(4) by blast
    have "move_victim env junk v s = Some s1" using S(1) False g by (simp add: move_victim_def gc_inv_def env_fit_def)
    moreover have "?i \<in> vo_used s1" using S(6) used by (auto simp: kept_def)
    ultimately show ?thesis using S used by (intro exI [of _ s1] exI [of _ M'] conjI) simp_all
  qed
  then obtain s1 M' where B: "move_victim env junk v s = Some s1" "gc_inv env s1 M' P" "dom M' = dom M" "vol_pos s1 = vol_pos s + v_nr_valid_block v"
    "tree_room (vo_tree s1) m" "kept s s1" "valid_offsets (vo_entry s1 ?i) = {}" "?i \<in> vo_used s \<longleftrightarrow> ?i \<in> vo_used s1"
    "\<forall>j < ?N. node_list (vo_dst s1) ! j \<noteq> None \<longrightarrow> node_list (vo_dst s) ! j \<noteq> None \<or> j = ?i" by blast
  have nc: "?i \<noteq> cur_segment (vo_buf s1)"
  proof
    assume "?i = cur_segment (vo_buf s1)"
    then have "valid_offsets (vo_entry s1 (cur_segment (vo_buf s1))) = {}" using B(7) by metis
    moreover have "valid_offsets (vo_entry s1 (cur_segment (vo_buf s1))) = {..<BLOCKS_PER_SEGMENT}" using B(2) by (simp add: gc_inv_def)
    ultimately show False by (simp add: BLOCKS_PER_SEGMENT_def lessThan_empty_iff)
  qed
  obtain s' where R: "release_victim v s1 = (if ?i \<in> vo_used s1 then BLOCKS_PER_SEGMENT - v_nr_valid_block v else 0, s')" "gc_inv env s' M' P"
    "vol_pos s' + (if ?i \<in> vo_used s1 then BLOCKS_PER_SEGMENT else 0) = vol_pos s1" "\<And>n. tree_room (vo_tree s') n = tree_room (vo_tree s1) n"
    "node_list (vo_dst s') = (node_list (vo_dst s1))[?i := None]" by (rule release_victim_ok [OF B(2) refl V(1) nc B(7)]) (rule that)
  have W: "vt_ok (vo_dst s)" "length (node_list (vo_dst s1)) = ?N"
    using vol_inv_index [OF gc_inv_vol [OF g]] vol_inv_index [OF gc_inv_vol [OF B(2)]] by (simp_all add: index_ok_def tables_ok_def dst_wf_def)
  have "{j. j < ?N \<and> node_list (vo_dst s') ! j \<noteq> None} \<subseteq> {j. j < ?N \<and> node_list (vo_dst s) ! j \<noteq> None} - {?i}"
    using R(5) B(9) W(2) V(1) by (auto simp: nth_list_update)
  moreover have "?i \<in> {j. j < ?N \<and> node_list (vo_dst s) ! j \<noteq> None}" using peek_node(2) [OF W(1) pk] V(1) by simp
  ultimately have nodes: "{j. j < ?N \<and> node_list (vo_dst s') ! j \<noteq> None} \<subset> {j. j < ?N \<and> node_list (vo_dst s) ! j \<noteq> None}" by blast
  have zero: "v_nr_valid_block v = 0" if "?i \<notin> vo_used s" using log_parts(3) [OF L V(1)] V(4) that by simp
  show thesis
    by (rule that [OF B(1) R(1,2) B(3) _ _ _ nodes]) (use R(3,4) B(4,5,8) V(5) zero in \<open>auto split: if_splits\<close>)
qed

text \<open>The insertions into the index that the collector may still need are three for every invalid block.\<close>

definition gc_room :: "volume \<Rightarrow> u32 set \<Rightarrow> nat" where
  "gc_room s K = 3 * (vol_pos s - BLOCKS_PER_SEGMENT - card K)"

lemma gc_loop_ok:
  assumes "gc_inv env s M P" "length junk = SEGMENT_BUFFER_SIZE" "clean + vol_pos s = BLOCKS_PER_SEGMENT * u"
    and "u < NR_SEGMENT env" "NR_SEGMENT env \<le> u + 16" "dom M = K" "tree_room (vo_tree s) (n + gc_room s K)"
  shows "\<exists>s' M'. gc_loop (move_victim env junk) clean s = Some s' \<and> gc_inv env s' M' P \<and> dom M' = K \<and> card (vo_used s') < u \<and>
    tree_room (vo_tree s') (n + gc_room s' K)"
  using assms
proof (induction "card {j. j < NR_SEGMENT env \<and> node_list (vo_dst s) ! j \<noteq> None}" arbitrary: s M clean rule: less_induct)
  case less
  let ?B = BLOCKS_PER_SEGMENT and ?N = "NR_SEGMENT env"
  have inv: "vol_inv env s M P" "cur_count s < ?B" using gc_inv_vol [OF less.prems(1)] by (simp_all add: vol_inv_def)
  show ?case
  proof (cases "?B \<le> clean")
    case True
    then have "gc_loop (move_victim env junk) clean s = Some s" by (simp add: gc_loop.simps [of _ clean s] LEAST_CLEAN_SEGMENT_ONCE_def)
    moreover have "?B * card (vo_used s) + ?B \<le> ?B * u" using True less.prems(3) by (simp add: vol_pos_def)
    then have "card (vo_used s) < u" by (simp add: BLOCKS_PER_SEGMENT_def)
    ultimately show ?thesis using less.prems(1,6,7) by (intro exI [of _ s] exI [of _ M]) simp
  next
    case False
    have "?B * u < ?B * (card (vo_used s) + 2)" using False less.prems(3) inv(2) by (simp add: vol_pos_def)
    then have us: "u < card (vo_used s) + 2" by (simp only: mult_less_cancel1)
    have "18 < ?N" using less.prems(1) by (simp add: gc_inv_def)
    then have many: "?N - 18 < card (vo_used s)" using less.prems(5) us by linarith
    obtain v where v: "dst_peek_victim (vo_dst s) = Some v" "v_nr_valid_block v \<le> 768" by (rule gc_victim_sparse [OF less.prems(1) many])
    note V = gc_victim [OF less.prems(1) v(1)]
    note L = vol_inv_log [OF inv(1)]
    define m where "m = (if v_segno v \<in> vo_used s then n + 3 * (vol_pos s + v_nr_valid_block v - ?B - ?B - card K) else n + gc_room s K)"
    have pos: "vol_pos s + v_nr_valid_block v < ?B * ?N"
    proof -
      have "vol_pos s + v_nr_valid_block v < ?B * u + ?B" using V(5) less.prems(3) by linarith
      also have "\<dots> \<le> ?B * ?N" using less.prems(4) by (metis Suc_leI mult_Suc_right mult_le_mono2 add.commute)
      finally show ?thesis .
    qed
    have vm: "v_nr_valid_block v + m \<le> n + gc_room s K"
    proof (cases "v_segno v \<in> vo_used s")
      case True
      have "card K + 2 * ?B \<le> vol_pos s + v_nr_valid_block v"
        using invalid_count [OF inv(1) True] V(4) log_count [OF L V(1)] less.prems(6) by simp
      then show ?thesis using v(2) True by (simp add: m_def gc_room_def BLOCKS_PER_SEGMENT_def)
    next
      case False
      then show ?thesis using log_parts(3) [OF L V(1)] V(4) by (simp add: m_def)
    qed
    have rm: "tree_room (vo_tree s) (v_nr_valid_block v + m)" by (rule tree_room_mono [OF less.prems(7) vm])
    obtain s1 c s' M' where I: "move_victim env junk v s = Some s1" "release_victim v s1 = (c, s')" "gc_inv env s' M' P" "dom M' = dom M"
      "tree_room (vo_tree s') m" "c + vol_pos s' = vol_pos s"
      "vol_pos s' + (if v_segno v \<in> vo_used s then ?B else 0) = vol_pos s + v_nr_valid_block v"
      "{j. j < ?N \<and> node_list (vo_dst s') ! j \<noteq> None} \<subset> {j. j < ?N \<and> node_list (vo_dst s) ! j \<noteq> None}"
      by (rule gc_iteration [OF less.prems(1) v(1) less.prems(2) rm pos]) (rule that)
    have step: "gc_loop (move_victim env junk) clean s = gc_loop (move_victim env junk) (clean + c) s'"
      using False v(1) I(1,2) by (simp add: gc_loop.simps [of _ clean s] LEAST_CLEAN_SEGMENT_ONCE_def)
    have z: "v_nr_valid_block v = 0" if "v_segno v \<notin> vo_used s" using log_parts(3) [OF L V(1)] V(4) that by simp
    have "m = n + gc_room s' K"
    proof (cases "v_segno v \<in> vo_used s")
      case True
      then have "vol_pos s' = vol_pos s + v_nr_valid_block v - ?B" using I(7) by simp
      then show ?thesis using True by (simp add: m_def gc_room_def)
    qed (use I(7) z in \<open>simp add: m_def gc_room_def\<close>)
    then have "\<exists>s'' M''. gc_loop (move_victim env junk) (clean + c) s' = Some s'' \<and> gc_inv env s'' M'' P \<and> dom M'' = K \<and> card (vo_used s'') < u \<and>
        tree_room (vo_tree s'') (n + gc_room s'' K)"
      by (intro less.hyps [OF psubset_card_mono [OF _ I(8)] I(3)]) (use less.prems I(4,5,6) in simp_all)
    then show ?thesis unfolding step .
  qed
qed

definition gc_done :: "volume \<Rightarrow> volume" where
  "gc_done s = s\<lparr>vo_alloc := (vo_alloc s)\<lparr>sa_status := SEGMENT_ALLOCATING\<rparr>\<rparr>"

lemma vol_inv_status:
  "vol_inv env (s\<lparr>vo_alloc := (vo_alloc s)\<lparr>sa_status := x\<rparr>\<rparr>) M P = vol_inv env s M P"
  "vol_pos (s\<lparr>vo_alloc := (vo_alloc s)\<lparr>sa_status := x\<rparr>\<rparr>) = vol_pos s"
proof -
  let ?s = "s\<lparr>vo_alloc := (vo_alloc s)\<lparr>sa_status := x\<rparr>\<rparr>"
  have "cipher_at ?s = cipher_at s" "unwritten ?s = unwritten s" "cur_count ?s = cur_count s" "in_buffer ?s = in_buffer s" "cur_begin ?s = cur_begin s"
    "buffer_ok ?s = buffer_ok s"
    by (simp_all add: fun_eq_iff cipher_at_def in_buffer_def cur_begin_def cur_count_def unwritten_def buffer_ok_def)
  then show "vol_inv env ?s M P = vol_inv env s M P" "vol_pos ?s = vol_pos s" by (simp_all add: vol_inv_def vol_mid_def plain_ok_def vol_pos_def)
qed

lemma foreground_gc_ok:
  assumes inv: "vol_inv env s M P" and c: "cur_count s = 0" and fit: "env_fit env" "18 < NR_SEGMENT env"
    and live: "card (dom M) \<le> 768 * (NR_SEGMENT env - 18)" and junk: "length junk = SEGMENT_BUFFER_SIZE"
    and u: "card (vo_used s) < NR_SEGMENT env" "NR_SEGMENT env \<le> card (vo_used s) + 16"
    and room: "tree_room (vo_tree s) (n + gc_room s (dom M))"
  obtains s' M' where "sa_foreground_gc junk env s = Some s'" "vol_inv env s' M' P" "dom M' = dom M" "card (vo_used s') < card (vo_used s)"
    "sa_status (vo_alloc s') = SEGMENT_ALLOCATING" "tree_room (vo_tree s') (n + gc_room s' (dom M))"
proof -
  let ?s = "s\<lparr>vo_alloc := (vo_alloc s)\<lparr>sa_status := SEGMENT_CLEANING\<rparr>\<rparr>"
  have "gc_inv env ?s M P"
    using inv fit live fresh_segment_full [OF inv c] by (simp add: gc_inv_def vol_inv_status)
  moreover have "0 + vol_pos ?s = BLOCKS_PER_SEGMENT * card (vo_used s)" unfolding vol_inv_status(2) using c by (simp add: vol_pos_def)
  moreover have "tree_room (vo_tree ?s) (n + gc_room ?s (dom M))" using room by (simp add: gc_room_def vol_inv_status)
  ultimately obtain s' M' where G: "gc_loop (move_victim env junk) 0 ?s = Some s'" "gc_inv env s' M' P" "dom M' = dom M"
    "card (vo_used s') < card (vo_used s)" "tree_room (vo_tree s') (n + gc_room s' (dom M))"
    using gc_loop_ok [of env ?s M P junk 0 "card (vo_used s)" "dom M" n] junk u by auto
  have "ve_gc_buffer env" using fit by (simp add: env_fit_def)
  then have "sa_foreground_gc junk env s = Some (gc_done s')"
    using G(1) by (simp add: sa_foreground_gc_def foreground_gc_with_def Let_def gc_done_def)
  moreover have "vol_inv env (gc_done s') M' P" using gc_inv_vol [OF G(2)] by (simp add: gc_done_def vol_inv_status)
  moreover have "gc_room (gc_done s') (dom M) = gc_room s' (dom M)" by (simp add: gc_room_def gc_done_def vol_inv_status)
  ultimately show thesis using G(3,4,5) by (intro that [of "gc_done s'" M']) (simp_all add: gc_done_def)
qed

end
