(* ===== verification/Volume_Io.thy ===== *)
theory Volume_Io
  imports Volume_Gc
begin

text \<open>
  Requests on a volume: the transfer between requests and buffers, the three ways a write takes, reads
  through the buffer and the prefetcher. Sector by sector the volume is a disk.
\<close>

section \<open>Transfers\<close>

lemma concat_bio_pieces: "concat (bio_pieces d) = d"
proof (induction d rule: bio_pieces.induct)
  case (1 d)
  then show ?case by (subst bio_pieces.simps) simp
qed

lemma transfer_from:
  "off + length (concat ps) \<le> len \<Longrightarrow> at + off + length (concat ps) \<le> length buf \<Longrightarrow>
   transfer_from_bio ps at off len buf = overwrite (at + off) (concat ps) buf"
proof (induction ps arbitrary: off buf)
  case Nil
  then show ?case by (simp add: overwrite_Nil)
next
  case (Cons p ps)
  have "transfer_from_bio ps at (off + length p) len (overwrite (at + off) p buf) =
      overwrite (at + (off + length p)) (concat ps) (overwrite (at + off) p buf)"
    using Cons.prems by (intro Cons.IH) (simp_all add: length_overwrite)
  also have "\<dots> = overwrite (at + off) (p @ concat ps) buf" using Cons.prems by (simp add: overwrite_append [symmetric] add.assoc)
  finally show ?case using Cons.prems by simp
qed

lemma transfer_to:
  "off + length (concat ps) \<le> len \<Longrightarrow> off + length (concat ps) \<le> length buf \<Longrightarrow>
   transfer_to_bio ps off len buf = slice off (length (concat ps)) buf"
proof (induction ps arbitrary: off)
  case Nil
  then show ?case by (simp add: slice_def)
next
  case (Cons p ps)
  have "transfer_to_bio ps (off + length p) len buf = slice (off + length p) (length (concat ps)) buf"
    using Cons.prems by (intro Cons.IH) simp_all
  then show ?case using Cons.prems by (simp add: slice_def take_add drop_drop add.commute)
qed

lemma bio_get_data_write:
  "bi_op b = REQ_OP_WRITE \<Longrightarrow> at + length (bi_data b) \<le> length buf \<Longrightarrow>
   bio_get_data b at (bio_get_data_len b) buf = overwrite at (bi_data b) buf"
  using transfer_from [of 0 "bio_pieces (bi_data b)" "length (bi_data b)" at buf]
  by (simp add: bio_get_data_def bio_data_transfer_def bio_get_data_len_def concat_bio_pieces)

lemma bio_set_data_read:
  "bi_op b = REQ_OP_READ \<Longrightarrow> at + length (bi_data b) \<le> length buf \<Longrightarrow>
   bio_set_data b at buf (bio_get_data_len b) = b\<lparr>bi_data := slice at (length (bi_data b)) buf\<rparr>"
  using transfer_to [of 0 "bio_pieces (bi_data b)" "length (bi_data b)" "drop at buf"]
  by (simp add: bio_set_data_def bio_data_transfer_def bio_get_data_len_def concat_bio_pieces slice_def)

section \<open>Requests\<close>

text \<open>A request within one block, as the target cuts them, to one of the first \<open>n\<close> blocks.\<close>

definition bio_fits :: "nat \<Rightarrow> bio \<Rightarrow> bool" where
  "bio_fits n b \<longleftrightarrow> bi_sector b < 2 ^ 32 \<and> length (bi_data b) = bio_sectors b * SECTOR_SIZE \<and>
     bio_block_sector_offset b + bio_sectors b \<le> SECTORS_PER_BLOCK \<and> bio_get_block_address b < n"

abbreviation bio_key :: "bio \<Rightarrow> u32" where
  "bio_key b \<equiv> of_nat (bio_get_block_address b)"

abbreviation bio_at :: "bio \<Rightarrow> nat" where
  "bio_at b \<equiv> bio_block_sector_offset b * SECTOR_SIZE"

lemma bio_fits_facts:
  assumes "bio_fits n b"
  shows "bio_at b + length (bi_data b) \<le> DATA_BLOCK_SIZE" "bio_get_block_address b < 2 ^ 29" "unat (bio_key b) = bio_get_block_address b" "key_ok (bio_key b)"
    "bi_sector b = bio_get_block_address b * SECTORS_PER_BLOCK + bio_block_sector_offset b"
proof -
  show "bio_at b + length (bi_data b) \<le> DATA_BLOCK_SIZE" using assms by (simp add: bio_fits_def sizes)
  have s: "bi_sector b < 2 ^ 32" using assms by (simp add: bio_fits_def)
  then show a: "bio_get_block_address b < 2 ^ 29" by (simp add: bio_get_block_address_def bio_get_sector_def SECTORS_PER_BLOCK_def div_less_iff_less_mult)
  then show u: "unat (bio_key b) = bio_get_block_address b" by (simp add: unat_of_nat)
  show "key_ok (bio_key b)" using a u by (simp add: key_ok_def uint_nat)
  show "bi_sector b = bio_get_block_address b * SECTORS_PER_BLOCK + bio_block_sector_offset b"
    using s by (simp add: bio_get_block_address_def bio_block_sector_offset_def bio_get_sector_def)
qed

section \<open>Writes\<close>

text \<open>A volume between requests that can take \<open>n\<close> more writes. Every write is one insertion into the index
  and pays three more for the block it makes invalid, which a collection uses up later.\<close>

definition volume_blocks :: "volume_env \<Rightarrow> nat" where
  "volume_blocks env = 768 * (NR_SEGMENT env - 18)"

definition ready :: "volume_env \<Rightarrow> volume \<Rightarrow> (u32 \<rightharpoonup> index_record) \<Rightarrow> (u32 \<Rightarrow> byte list) \<Rightarrow> nat \<Rightarrow> bool" where
  "ready env s M P n \<longleftrightarrow> vol_inv env s M P \<and> env_fit env \<and> 18 < NR_SEGMENT env \<and> sa_status (vo_alloc s) = SEGMENT_ALLOCATING \<and>
     card (vo_used s) + 16 \<le> NR_SEGMENT env \<and> (\<forall>k \<in> dom M. unat k < volume_blocks env) \<and>
     tree_room (vo_tree s) (4 * n + gc_room s (dom M))"

lemma card_keys: "(\<forall>k \<in> K. unat k < m) \<Longrightarrow> card (K :: u32 set) \<le> m"
  by (metis card_inj_on_le card_lessThan finite_lessThan image_subsetI inj_on_def lessThan_iff unsigned_word_eqI)

lemma ready_facts:
  assumes "ready env s M P n"
  shows "vol_inv env s M P" "env_fit env" "18 < NR_SEGMENT env" "NR_SEGMENT env \<le> 2 ^ 19" "card (dom M) \<le> 768 * (NR_SEGMENT env - 18)"
    "sa_status (vo_alloc s) = SEGMENT_ALLOCATING" "card (vo_used s) + 16 \<le> NR_SEGMENT env" "\<not> sworndisk_should_threaded_logging env s"
    "buffer_ok s" "cur_count s < BLOCKS_PER_SEGMENT" "finite (vo_used s)"
proof -
  show R: "vol_inv env s M P" "env_fit env" "18 < NR_SEGMENT env" "sa_status (vo_alloc s) = SEGMENT_ALLOCATING" "card (vo_used s) + 16 \<le> NR_SEGMENT env"
    using assms by (simp_all add: ready_def)
  show N: "NR_SEGMENT env \<le> 2 ^ 19" using R(2) by (simp add: env_fit_def)
  show c: "card (dom M) \<le> 768 * (NR_SEGMENT env - 18)" by (rule card_keys) (use assms in \<open>simp add: ready_def volume_blocks_def\<close>)
  show "\<not> sworndisk_should_threaded_logging env s" by (rule not_threaded [OF R(1) c R(3) N])
  show "buffer_ok s" by (rule vol_inv_buffer [OF R(1)])
  show "cur_count s < BLOCKS_PER_SEGMENT" "finite (vo_used s)" using R(1) vol_used [of env s M P] by (simp_all add: vol_inv_def)
qed

text \<open>A change of the buffer behind the blocks it holds.\<close>

abbreviation "set_buffer buf s \<equiv> s\<lparr>vo_buf := (vo_buf s)\<lparr>sg_buffer := buf\<rparr>\<rparr>"

lemma set_buffer_facts:
  "cipher_at (set_buffer buf s) = cipher_at s" "unwritten (set_buffer buf s) = unwritten s" "cur_count (set_buffer buf s) = cur_count s"
  "in_buffer (set_buffer buf s) = in_buffer s" "cur_begin (set_buffer buf s) = cur_begin s" "vol_pos (set_buffer buf s) = vol_pos s"
  by (simp_all add: fun_eq_iff cipher_at_def in_buffer_def cur_begin_def cur_count_def unwritten_def vol_pos_def)

lemma ready_buffer:
  assumes r: "ready env s M P n" and len: "length buf = SEGMENT_BUFFER_SIZE"
    and same: "\<And>j. j < cur_count s \<Longrightarrow> slice (j * DATA_BLOCK_SIZE) DATA_BLOCK_SIZE buf = slice (j * DATA_BLOCK_SIZE) DATA_BLOCK_SIZE (sg_buffer (vo_buf s))"
  shows "ready env (set_buffer buf s) M P n"
proof -
  have inv: "vol_inv env s M P" by (rule ready_facts(1) [OF r])
  have bo: "buffer_ok (set_buffer buf s)" using ready_facts(9) [OF r] len by (simp add: buffer_ok_def set_buffer_facts)
  have "plain_ok (set_buffer buf s) M P"
    unfolding plain_ok_def
  proof (intro allI impI)
    fix k x assume a: "M k = Some x" "in_buffer (set_buffer buf s) (pba x)"
    then have "in_buffer s (pba x)" "pba x - cur_begin s < cur_count s" unfolding set_buffer_facts by (auto simp: in_buffer_def)
    then show "slice ((pba x - cur_begin (set_buffer buf s)) * DATA_BLOCK_SIZE) DATA_BLOCK_SIZE (sg_buffer (vo_buf (set_buffer buf s))) = P k"
      using same a(1) inv unfolding set_buffer_facts by (simp add: vol_inv_def vol_mid_def plain_ok_def)
  qed
  then have "vol_inv env (set_buffer buf s) M P" using inv bo by (simp add: vol_inv_def vol_mid_def set_buffer_facts)
  then show ?thesis using r by (simp add: ready_def gc_room_def set_buffer_facts)
qed

text \<open>Pushing a block, with the collection it may start.\<close>

lemma push_ready:
  assumes r: "ready env s M P (Suc n)" and k: "k = of_nat lba" "key_ok k" "unat k = lba" "lba < volume_blocks env"
    and d: "length d = DATA_BLOCK_SIZE" and junk: "length junk = SEGMENT_BUFFER_SIZE"
  obtains s' M' where "segbuf_push_block junk env s lba d = Some s'" "ready env s' M' (P(k := d)) n" "dom M' = insert k (dom M)"
proof -
  let ?gc = "sa_foreground_gc junk env" and ?N = "NR_SEGMENT env" and ?B = BLOCKS_PER_SEGMENT
  note F = ready_facts [OF r]
  have lba: "lba < 2 ^ 32" using k(3) unsigned_less [of k, where 'a = nat] by simp
  have finM: "finite (dom M)" by (rule valid_blocks_count(2) [OF vol_inv_log [OF F(1)]])
  define K where "K = insert k (dom M)"
  define m where "m = 4 * n + 3 * (Suc (vol_pos s) - ?B - card K)"
  have "card (dom M) \<le> card K" using finM by (simp add: K_def card_insert_if)
  then have "Suc m \<le> 4 * Suc n + gc_room s (dom M)" by (simp add: m_def gc_room_def)
  then have room: "tree_room (vo_tree s) (Suc m)" using r tree_room_mono by (auto simp: ready_def)
  have free: "card (vo_used s) < ?N" using F(3,7) by simp
  obtain s1 r1 where p: "segbuf_push_block_with ?gc env s lba d = (if Suc (cur_count s) = ?B \<and> gc_triggered env s1 then ?gc s1 else Some s1)"
    "vol_inv env s1 (M(k \<mapsto> r1)) (P(k := d))" "vol_pos s1 = Suc (vol_pos s)" "tree_room (vo_tree s1) m"
    "sa_status (vo_alloc s1) = sa_status (vo_alloc s)" "Suc (cur_count s) = ?B \<Longrightarrow> cur_count s1 = 0"
    by (rule push_ok [OF F(2,1,8) k(1,2) lba d room, of ?gc]) (use free that in auto)
  have K1: "dom (M(k \<mapsto> r1)) = K" by (auto simp: K_def)
  have keys: "\<forall>k' \<in> K. unat k' < volume_blocks env" using r k(3,4) by (auto simp: ready_def K_def)
  then have live: "card K \<le> 768 * (?N - 18)" using card_keys [of K] by (simp add: volume_blocks_def)
  have rm: "m = 4 * n + gc_room s1 K" by (simp add: m_def gc_room_def p(3))
  have nr: "nr_valid_segment (vo_alloc s1) = card (vo_used s1)" "cur_count s1 < ?B" using p(2) by (simp_all add: vol_inv_def vol_mid_def)
  have pos: "cur_count s1 + ?B * card (vo_used s1) = Suc (cur_count s + ?B * card (vo_used s))" using p(3) by (simp add: vol_pos_def)
  have trig: "gc_triggered env s1 \<longleftrightarrow> ?N - 16 < card (vo_used s1)"
    using nr(1) F(3,4,6) p(5) by (simp add: gc_triggered_def sa_will_trigger_gc_def GC_THREADHOLD_less)
  show thesis
  proof (cases "Suc (cur_count s) = ?B \<and> gc_triggered env s1")
    case True
    have c0: "cur_count s1 = 0" using p(6) True by blast
    then have "?B * card (vo_used s1) = ?B * Suc (card (vo_used s))" using pos True by simp
    then have "card (vo_used s1) = Suc (card (vo_used s))" by (simp add: BLOCKS_PER_SEGMENT_def)
    moreover have "?N < card (vo_used s1) + 16" using True trig by linarith
    ultimately have u: "card (vo_used s1) < ?N" "?N \<le> card (vo_used s1) + 16" "card (vo_used s1) + 15 = ?N" using F(7) by linarith+
    obtain s' M' where G: "?gc s1 = Some s'" "vol_inv env s' M' (P(k := d))" "dom M' = dom (M(k \<mapsto> r1))" "card (vo_used s') < card (vo_used s1)"
      "sa_status (vo_alloc s') = SEGMENT_ALLOCATING" "tree_room (vo_tree s') (4 * n + gc_room s' (dom (M(k \<mapsto> r1))))"
      by (rule foreground_gc_ok [OF p(2) c0 F(2,3) _ junk u(1,2), of "4 * n"]) (use live K1 p(4) rm that in simp_all)
    have "ready env s' M' (P(k := d)) n" using G F(2,3) u(3) keys K1 by (simp add: ready_def)
    then show thesis using p(1) True G(1,3) K1 by (intro that [of s' M']) (simp_all add: segbuf_push_block_def K_def)
  next
    case False
    have "card (vo_used s1) + 16 \<le> ?N"
    proof (cases "Suc (cur_count s) = ?B")
      case True
      then show ?thesis using False trig F(3) by linarith
    next
      case False
      then have "Suc (cur_count s) < ?B" using F(10) by simp
      then have "card (vo_used s1) = card (vo_used s)" using pos nr(2) unfolding BLOCKS_PER_SEGMENT_def by linarith
      then show ?thesis using F(7) by simp
    qed
    then have "ready env s1 (M(k \<mapsto> r1)) (P(k := d)) n" using p F(2,3,6) keys K1 rm by (simp add: ready_def)
    then show thesis using p(1) False K1 by (intro that [of s1 "M(k \<mapsto> r1)"]) (auto simp: segbuf_push_block_def K_def)
  qed
qed

lemma slice_overwrite_within:
  assumes "q + length d \<le> n" "p + n \<le> length xs"
  shows "slice p n (overwrite (p + q) d xs) = overwrite q d (slice p n xs)"
proof (rule nth_equalityI)
  have l: "length (slice p n xs) = n" "length (overwrite (p + q) d xs) = length xs" using assms by (simp_all add: len_simps)
  then show "length (slice p n (overwrite (p + q) d xs)) = length (overwrite q d (slice p n xs))" using assms by (simp add: len_simps)
  fix i assume "i < length (slice p n (overwrite (p + q) d xs))"
  then have i: "i < n" using assms l by (simp add: len_simps)
  have "slice p n (overwrite (p + q) d xs) ! i = overwrite (p + q) d xs ! (p + i)" using assms l i by (simp add: nth_slice)
  also have "\<dots> = overwrite q d (slice p n xs) ! i" using assms l i by (auto simp: nth_overwrite nth_slice)
  finally show "slice p n (overwrite (p + q) d xs) ! i = overwrite q d (slice p n xs) ! i" .
qed

text \<open>Part of one slot of a buffer is overwritten.\<close>

lemma slot_part:
  assumes xs: "length xs = SEGMENT_BUFFER_SIZE" and i: "i < BLOCKS_PER_SEGMENT" and d: "q + length d \<le> DATA_BLOCK_SIZE"
  shows "length (overwrite (i * DATA_BLOCK_SIZE + q) d xs) = SEGMENT_BUFFER_SIZE"
    "slice (i * DATA_BLOCK_SIZE) DATA_BLOCK_SIZE (overwrite (i * DATA_BLOCK_SIZE + q) d xs) = overwrite q d (slice (i * DATA_BLOCK_SIZE) DATA_BLOCK_SIZE xs)"
    "j < BLOCKS_PER_SEGMENT \<Longrightarrow> j \<noteq> i \<Longrightarrow>
       slice (j * DATA_BLOCK_SIZE) DATA_BLOCK_SIZE (overwrite (i * DATA_BLOCK_SIZE + q) d xs) = slice (j * DATA_BLOCK_SIZE) DATA_BLOCK_SIZE xs"
proof -
  have fit: "m * DATA_BLOCK_SIZE + DATA_BLOCK_SIZE \<le> length xs" if "m < BLOCKS_PER_SEGMENT" for m using that xs by (simp add: sizes)
  show "length (overwrite (i * DATA_BLOCK_SIZE + q) d xs) = SEGMENT_BUFFER_SIZE" using fit [OF i] d xs by (simp add: length_overwrite)
  show "slice (i * DATA_BLOCK_SIZE) DATA_BLOCK_SIZE (overwrite (i * DATA_BLOCK_SIZE + q) d xs) = overwrite q d (slice (i * DATA_BLOCK_SIZE) DATA_BLOCK_SIZE xs)"
    by (rule slice_overwrite_within [OF d fit [OF i]])
  assume j: "j < BLOCKS_PER_SEGMENT" "j \<noteq> i"
  have "j * DATA_BLOCK_SIZE + DATA_BLOCK_SIZE \<le> i * DATA_BLOCK_SIZE \<or> i * DATA_BLOCK_SIZE + DATA_BLOCK_SIZE \<le> j * DATA_BLOCK_SIZE"
    using j(2) by (simp add: sizes) linarith
  then show "slice (j * DATA_BLOCK_SIZE) DATA_BLOCK_SIZE (overwrite (i * DATA_BLOCK_SIZE + q) d xs) = slice (j * DATA_BLOCK_SIZE) DATA_BLOCK_SIZE xs"
    using fit [OF i] fit [OF j(1)] d by (intro slice_overwrite_disjoint) auto
qed

abbreviation "cur_slot s \<equiv> slice (cur_count s * DATA_BLOCK_SIZE) DATA_BLOCK_SIZE (sg_buffer (vo_buf s))"

lemma fill_ok:
  assumes r: "ready env s M P (Suc n)" and b: "bio_fits (volume_blocks env) b" "bi_op b = REQ_OP_WRITE" and junk: "length junk = SEGMENT_BUFFER_SIZE"
  obtains s' M' where "fill_buffer junk env s b = Some (PUSH_NEW_BLOCK, s')" "dom M' = insert (bio_key b) (dom M)"
    "ready env s' M' (P(bio_key b := overwrite (bio_at b) (bi_data b) (cur_slot s))) n"
proof -
  note F = ready_facts [OF r] and B = bio_fits_facts [OF b(1)]
  have len: "length (sg_buffer (vo_buf s)) = SEGMENT_BUFFER_SIZE" and at: "cur_sector (vo_buf s) * SECTOR_SIZE = cur_count s * DATA_BLOCK_SIZE"
    using F(9) by (simp_all add: buffer_ok_def sizes)
  define buf where "buf = overwrite (cur_count s * DATA_BLOCK_SIZE + bio_at b) (bi_data b) (sg_buffer (vo_buf s))"
  note S = slot_part [OF len F(10) B(1), folded buf_def]
  have "cur_count s * DATA_BLOCK_SIZE + DATA_BLOCK_SIZE \<le> length (sg_buffer (vo_buf s))" by (rule buffer_slot(2) [OF F(9,10)])
  then have g: "bio_get_data b (cur_count s * DATA_BLOCK_SIZE + bio_at b) (bio_get_data_len b) (sg_buffer (vo_buf s)) = buf"
    unfolding buf_def using B(1) by (intro bio_get_data_write [OF b(2)]) linarith
  have ld: "length (overwrite (bio_at b) (bi_data b) (cur_slot s)) = DATA_BLOCK_SIZE"
    using B(1) buffer_slot(2) [OF F(9,10)] by (simp add: len_simps)
  have r': "ready env (set_buffer buf s) M P (Suc n)" by (rule ready_buffer [OF r S(1)]) (use F(10) S(3) in auto)
  have lb: "bio_get_block_address b < volume_blocks env" using b(1) by (simp add: bio_fits_def)
  obtain s' M' where p: "segbuf_push_block junk env (set_buffer buf s) (bio_get_block_address b) (overwrite (bio_at b) (bi_data b) (cur_slot s)) = Some s'"
    "ready env s' M' (P(bio_key b := overwrite (bio_at b) (bi_data b) (cur_slot s))) n" "dom M' = insert (bio_key b) (dom M)"
    by (rule push_ready [OF r' refl B(4,3) lb ld junk]) (rule that)
  then show thesis using S(2) g by (intro that [of s' M']) (simp_all add: fill_buffer_def Let_def at)
qed

lemma load_ok:
  assumes r: "ready env s M P n" and k: "M k = Some x"
  shows "ready env (load_old_block env s x) M P n" "cur_slot (load_old_block env s x) = P k"
proof -
  note F = ready_facts [OF r]
  note R = log_record [OF vol_inv_log [OF F(1)] k]
  have len: "length (sg_buffer (vo_buf s)) = SEGMENT_BUFFER_SIZE" and at: "cur_sector (vo_buf s) * SECTOR_SIZE = cur_count s * DATA_BLOCK_SIZE"
    using F(9) by (simp_all add: buffer_ok_def sizes)
  have "decrypt (le_cipher (ve_lsm env)) (rkey x) (riv x) (rmac x) (pba x) (sworndisk_read_blocks s (pba x) 1) = (Inr (), P k)"
    using R(7) F(2) by (simp add: decrypt_iff env_fit_def read_block [OF F(9), simplified])
  then have eq: "load_old_block env s x = set_buffer (overwrite (cur_count s * DATA_BLOCK_SIZE) (P k) (sg_buffer (vo_buf s))) s"
    by (simp add: load_old_block_def Let_def at)
  note S = slot_overwrite [OF len R(6) F(10)]
  show "ready env (load_old_block env s x) M P n" unfolding eq by (rule ready_buffer [OF r]) (use S F(10) in auto)
  show "cur_slot (load_old_block env s x) = P k" using S(1) [OF F(10)] by (simp add: eq set_buffer_facts)
qed

lemma modify_ok:
  assumes r: "ready env s M P (Suc n)" and b: "bio_fits (volume_blocks env) b" "bi_op b = REQ_OP_WRITE"
    and k: "M (bio_key b) = Some x" and ib: "in_buffer s (pba x)"
  obtains s' M' where "modify_in_buffer env s b x = Some (MODIFY_IN_MEM_BUFFER, s')" "dom M' = dom M"
    "ready env s' M' (P(bio_key b := overwrite (bio_at b) (bi_data b) (P (bio_key b)))) n"
proof -
  let ?k = "bio_key b" and ?i = "pba x - cur_begin s" and ?c = "le_cipher (ve_lsm env)" and ?z = DATA_BLOCK_SIZE
  note F = ready_facts [OF r] and B = bio_fits_facts [OF b(1)]
  note L = vol_inv_log [OF F(1)]
  note R = log_record [OF L k]
  have len: "length (sg_buffer (vo_buf s)) = SEGMENT_BUFFER_SIZE" "length (sg_pipe (vo_buf s)) = SEGMENT_BUFFER_SIZE" using F(9) by (simp_all add: buffer_ok_def)
  have i: "?i < BLOCKS_PER_SEGMENT" by (rule in_buffer_less [OF F(9) ib])
  have plain: "slice (?i * ?z) ?z (sg_buffer (vo_buf s)) = P ?k" using F(1) k ib by (simp add: vol_inv_def vol_mid_def plain_ok_def)
  define d where "d = overwrite (bio_at b) (bi_data b) (P ?k)"
  define buf where "buf = overwrite (?i * ?z + bio_at b) (bi_data b) (sg_buffer (vo_buf s))"
  note S = slot_part [OF len(1) i B(1), folded buf_def, unfolded plain, folded d_def]
  have ld: "length d = ?z" using B(1) R(6) by (simp add: d_def length_overwrite)
  have g: "bio_get_data b (?i * ?z + bio_at b) (bio_get_data_len b) (sg_buffer (vo_buf s)) = buf"
    unfolding buf_def using B(1) buffer_slot(2) [OF F(9) i] by (intro bio_get_data_write [OF b(2)]) linarith
  obtain ct tag where e: "encrypt ?c (rkey x) (riv x) (pba x) d = (ct, tag)" by fastforce
  have le: "length ct = ?z" "length tag = AES_GCM_AUTH_SIZE" using length_encrypt [OF _ e] F(2) ld by (simp_all add: env_fit_def)
  note SP = slot_overwrite [OF len(2) le(1) i]
  define s1 where "s1 = s\<lparr>vo_buf := (vo_buf s)\<lparr>sg_buffer := buf, sg_pipe := overwrite (?i * ?z) ct (sg_pipe (vo_buf s))\<rparr>\<rparr>"
  have E: "ve_record env" "ve_entry env" using F(2) by (simp_all add: env_fit_def)
  define m where "m = 4 * n + gc_room s (dom M)"
  have ix: "index_ok env s1 M" "tree_room (vo_tree s1) (Suc m)"
    using vol_inv_index [OF F(1)] r tree_room_mono [of "vo_tree s" "4 * Suc n + gc_room s (dom M)" "Suc m"] by (simp_all add: s1_def ready_def m_def)
  let ?x = "x\<lparr>rmac := tag\<rparr>"
  have wf: "wf_record ?x" using R(8) le(2) by (simp add: wf_record_def)
  obtain t where t: "volume_put env s1 (bio_get_block_address b) ?x = Some (s1\<lparr>vo_tree := t\<rparr>)" "index_ok env (s1\<lparr>vo_tree := t\<rparr>) (M(?k \<mapsto> ?x))"
    "same_tables s1 (s1\<lparr>vo_tree := t\<rparr>)" "tree_room t m" by (rule index_ok_put [OF ix(1) B(4) wf ix(2) E(2)]) (rule that)
  define s' where "s' = s1\<lparr>vo_tree := t\<rparr>"
  have eq: "modify_in_buffer env s b x = Some (MODIFY_IN_MEM_BUFFER, s')"
    using g e E(1) t(1) S(2) by (simp add: modify_in_buffer_def Let_def cur_begin_def [symmetric] s1_def [symmetric] record_copy_def s'_def)
  have T: "vo_used s' = vo_used s" "vo_entry s' = vo_entry s" "vo_lba s' = vo_lba s" "vo_dst s' = vo_dst s" "vo_data s' = vo_data s" "vo_alloc s' = vo_alloc s"
    using t(3) by (simp_all add: same_tables_def s'_def s1_def)
  have c: "unwritten s' = unwritten s" "cur_count s' = cur_count s" "in_buffer s' = in_buffer s" "cur_begin s' = cur_begin s" "vol_pos s' = vol_pos s"
    using T(1) by (simp_all add: fun_eq_iff in_buffer_def cur_begin_def cur_count_def unwritten_def vol_pos_def s'_def s1_def)
  have bufs: "sg_buffer (vo_buf s') = buf" "sg_pipe (vo_buf s') = overwrite (?i * ?z) ct (sg_pipe (vo_buf s))" "cur_segment (vo_buf s') = cur_segment (vo_buf s)"
    by (simp_all add: s'_def s1_def)
  have other: "pba x' - cur_begin s \<noteq> ?i \<and> pba x' - cur_begin s < BLOCKS_PER_SEGMENT" if "M k' = Some x'" "k' \<noteq> ?k" "in_buffer s (pba x')" for k' x'
  proof -
    have "pba x' \<noteq> pba x" "cur_begin s \<le> pba x'" "cur_begin s \<le> pba x" using log_inj [OF L that(1) k] that(2,3) ib by (auto simp: in_buffer_def)
    then show ?thesis using in_buffer_less [OF F(9) that(3)] by (simp add: eq_diff_iff)
  qed
  have ci: "cipher_at s' (pba x') = cipher_at s (pba x')" if "M k' = Some x'" "k' \<noteq> ?k" for k' x'
    using other [OF that] SP(1) [of "pba x' - cur_begin s"] by (simp add: cipher_at_def c T(5) bufs)
  have nd: "node_list (vo_dst s') = node_list (vo_dst s)" by (simp add: T(4))
  have cx: "cipher_at s' (pba x) = ct" using ib SP(1) [OF i] by (simp add: cipher_at_def c bufs)
  have "vol_log env s' (unwritten s') (M(?k \<mapsto> ?x)) (P(?k := d))"
    unfolding T(1-3) nd c(1) by (rule log_modify [OF L k ld _ le(2) ci]) (simp_all add: cx e)
  moreover have "plain_ok s' (M(?k \<mapsto> ?x)) (P(?k := d))"
    unfolding plain_ok_def
  proof (intro allI impI)
    fix k' x' assume a: "(M(?k \<mapsto> ?x)) k' = Some x'" "in_buffer s' (pba x')"
    show "slice ((pba x' - cur_begin s') * ?z) ?z (sg_buffer (vo_buf s')) = (P(?k := d)) k'"
    proof (cases "k' = ?k")
      case True
      then show ?thesis using a(1) S(2) by (auto simp: c bufs)
    next
      case False
      then have m: "M k' = Some x'" "in_buffer s (pba x')" using a by (simp_all add: c)
      then have "slice ((pba x' - cur_begin s) * ?z) ?z (sg_buffer (vo_buf s)) = P k'" using F(1) by (simp add: vol_inv_def vol_mid_def plain_ok_def)
      then show ?thesis using other [OF m(1) False m(2)] S(3) False by (simp add: c bufs)
    qed
  qed
  moreover have "buffer_ok s'" using F(9) S(1) SP(2) [OF i] by (simp add: buffer_ok_def c bufs) (simp add: s'_def s1_def)
  ultimately have "vol_inv env s' (M(?k \<mapsto> ?x)) (P(?k := d))"
    using F(1) t(2) [folded s'_def] unfolding vol_inv_def vol_mid_def c T(1,6) bufs(3) by blast
  moreover have dm: "dom (M(?k \<mapsto> ?x)) = dom M" using k by auto
  moreover have "tree_room (vo_tree s') (4 * n + gc_room s' (dom M))"
    using t(4) unfolding gc_room_def c(5) by (simp add: m_def gc_room_def s'_def)
  ultimately have "ready env s' (M(?k \<mapsto> ?x)) (P(?k := d)) n" using r unfolding ready_def T(1,6) dm by blast
  then show thesis using eq dm by (intro that) (simp_all add: d_def)
qed

lemma search_ready:
  assumes r: "ready env s M P n"
  obtains t where "volume_search env s (bio_get_block_address b) = Some (found (M (bio_key b)), s\<lparr>vo_tree := t\<rparr>)"
    "ready env (s\<lparr>vo_tree := t\<rparr>) M P n" "cipher_at (s\<lparr>vo_tree := t\<rparr>) = cipher_at s"
proof -
  obtain t where t: "volume_search env s (bio_get_block_address b) = Some (found (M (bio_key b)), s\<lparr>vo_tree := t\<rparr>)" "vol_inv env (s\<lparr>vo_tree := t\<rparr>) M P"
    "same_tables s (s\<lparr>vo_tree := t\<rparr>)" "\<And>n. tree_room (vo_tree s) n \<Longrightarrow> tree_room t n" by (rule search_inv [OF ready_facts(1) [OF r]]) (rule that)
  have S1: "vol_pos (s\<lparr>vo_tree := t\<rparr>) = vol_pos s" "cipher_at (s\<lparr>vo_tree := t\<rparr>) = cipher_at s"
    using t(3) by (simp_all add: vol_pos_def same_tables_def fun_eq_iff cipher_at_def in_buffer_def cur_begin_def cur_count_def)
  then have "ready env (s\<lparr>vo_tree := t\<rparr>) M P n"
    using r t(2,3) t(4) [of "4 * n + gc_room s (dom M)"] by (simp add: ready_def same_tables_def gc_room_def)
  then show thesis by (rule that [OF t(1) _ S1(2)])
qed

lemma write_ok:
  assumes r: "ready env s M P (Suc n)" and b: "bio_fits (volume_blocks env) b" "bi_op b = REQ_OP_WRITE" and junk: "length junk = SEGMENT_BUFFER_SIZE"
  obtains res s' M' old where "segbuf_push_bio junk env s b = Some (res, s')" "dom M' = insert (bio_key b) (dom M)"
    "ready env s' M' (P(bio_key b := overwrite (bio_at b) (bi_data b) old)) n" "length old = DATA_BLOCK_SIZE"
    "bio_key b \<in> dom M \<Longrightarrow> old = P (bio_key b)"
proof -
  let ?k = "bio_key b"
  note F = ready_facts [OF r] and B = bio_fits_facts [OF b(1)]
  note L = vol_inv_log [OF F(1)]
  have slot: "length (cur_slot s) = DATA_BLOCK_SIZE" if "ready env s M P (Suc n)" for s
    using buffer_slot(2) [OF ready_facts(9,10) [OF that]] by (simp add: len_simps)
  obtain t where t: "volume_search env s (bio_get_block_address b) = Some (found (M ?k), s\<lparr>vo_tree := t\<rparr>)" "ready env (s\<lparr>vo_tree := t\<rparr>) M P (Suc n)"
    by (rule search_ready [OF r])
  define s1 where "s1 = s\<lparr>vo_tree := t\<rparr>"
  have r1: "ready env s1 M P (Suc n)" using t(2) by (simp add: s1_def)
  show thesis
  proof (cases "bio_sectors b \<ge> SECTORS_PER_BLOCK")
    case True
    then have full: "bio_at b = 0" "length (bi_data b) = DATA_BLOCK_SIZE" using b(1) by (auto simp: bio_fits_def sizes)
    have ov: "overwrite (bio_at b) (bi_data b) old = bi_data b" if "length old = DATA_BLOCK_SIZE" for old
      using that full by (simp add: overwrite_def)
    obtain s' M' where f: "fill_buffer junk env s b = Some (PUSH_NEW_BLOCK, s')" "dom M' = insert ?k (dom M)"
      "ready env s' M' (P(?k := overwrite (bio_at b) (bi_data b) (cur_slot s))) n" by (rule fill_ok [OF r b junk])
    define old where "old = (if ?k \<in> dom M then P ?k else cur_slot s)"
    have lo: "length old = DATA_BLOCK_SIZE" using slot [OF r] log_record(6) [OF L, of ?k] by (auto simp: old_def)
    show thesis
      by (rule that [of PUSH_NEW_BLOCK s' M' old]) (use f True lo ov slot [OF r] in \<open>simp_all add: segbuf_push_bio_def old_def\<close>)
  next
    case False
    show thesis
    proof (cases "M ?k")
      case None
      obtain s' M' where f: "fill_buffer junk env s1 b = Some (PUSH_NEW_BLOCK, s')" "dom M' = insert ?k (dom M)"
        "ready env s' M' (P(?k := overwrite (bio_at b) (bi_data b) (cur_slot s1))) n" by (rule fill_ok [OF r1 b junk])
      show thesis
        by (rule that [OF _ f(2,3)]) (use f(1) False t(1) None slot [OF r1] in \<open>auto simp: segbuf_push_bio_def found_def s1_def\<close>)
    next
      case (Some x)
      have P: "length (P ?k) = DATA_BLOCK_SIZE" by (rule log_record(6) [OF L Some])
      have ib: "in_buffer s1 (pba x) \<longleftrightarrow> \<not> (pba x < cur_segment (vo_buf s1) * BLOCKS_PER_SEGMENT \<or>
          cur_segment (vo_buf s1) * BLOCKS_PER_SEGMENT + cur_sector (vo_buf s1) div SECTORS_PER_BLOCK \<le> pba x)"
        by (auto simp: in_buffer_def cur_begin_def cur_count_def)
      show thesis
      proof (cases "in_buffer s1 (pba x)")
        case True
        obtain s' M' where f: "modify_in_buffer env s1 b x = Some (MODIFY_IN_MEM_BUFFER, s')" "dom M' = dom M"
          "ready env s' M' (P(?k := overwrite (bio_at b) (bi_data b) (P ?k))) n" by (rule modify_ok [OF r1 b Some True])
        show thesis
          by (rule that [OF _ _ f(3) P]) (use f(1,2) False t(1) Some True ib in \<open>auto simp: segbuf_push_bio_def found_def s1_def\<close>)
      next
        case out: False
        note l = load_ok [OF r1 Some]
        obtain s' M' where f: "fill_buffer junk env (load_old_block env s1 x) b = Some (PUSH_NEW_BLOCK, s')" "dom M' = insert ?k (dom M)"
          "ready env s' M' (P(?k := overwrite (bio_at b) (bi_data b) (cur_slot (load_old_block env s1 x)))) n" by (rule fill_ok [OF l(1) b junk])
        show thesis
          by (rule that [OF _ f(2) f(3) [unfolded l(2)] P]) (use f(1) False t(1) Some out ib in \<open>auto simp: segbuf_push_bio_def found_def s1_def\<close>)
      qed
    qed
  qed
qed

section \<open>The prefetcher\<close>

text \<open>It holds at most 64 blocks, as they are on the volume.\<close>

definition pf_ok :: "volume \<Rightarrow> bio_prefetcher \<Rightarrow> bool" where
  "pf_ok s pf \<longleftrightarrow> length (pf_buffer pf) = MAX_NR_FETCH * DATA_BLOCK_SIZE \<and> MIN_NR_FETCH < nr_fetch pf \<and> nr_fetch pf \<le> MAX_NR_FETCH \<and>
     (\<forall>b. bio_prefetcher_incache pf b \<longrightarrow> b - pf_begin pf < MAX_NR_FETCH \<and>
        slice ((b - pf_begin pf) * DATA_BLOCK_SIZE) DATA_BLOCK_SIZE (pf_buffer pf) = cipher_at s b)"

lemma pf_ok_init: "MAX_NR_FETCH * DATA_BLOCK_SIZE \<le> length junk \<Longrightarrow> pf_ok s (bio_prefetcher_init junk)"
  by (simp add: pf_ok_def bio_prefetcher_init_def bio_prefetcher_incache_def MIN_NR_FETCH_def MAX_NR_FETCH_def)

lemma pf_ok_clear: "pf_ok s pf \<Longrightarrow> pf_ok s' (bio_prefetcher_clear pf)"
  by (simp add: pf_ok_def bio_prefetcher_clear_def bio_prefetcher_incache_def)

lemma pf_fetch_ok:
  assumes pf: "pf_ok s pf" and s: "buffer_ok s" and n: "N \<le> 2 ^ 19" "b < N * BLOCKS_PER_SEGMENT"
  shows "pf_ok s (bio_prefetcher_fetch N s b pf)" "bio_prefetcher_incache (bio_prefetcher_fetch N s b pf) b"
proof -
  define f where "f = min (nr_fetch pf) (sub64 (N * BLOCKS_PER_SEGMENT) b)"
  have rem: "sub64 (N * BLOCKS_PER_SEGMENT) b = N * BLOCKS_PER_SEGMENT - b" using n by (intro sub64_less) (simp_all add: BLOCKS_PER_SEGMENT_def)
  have f: "0 < f" "f \<le> MAX_NR_FETCH" using pf n(2) by (auto simp: f_def rem pf_ok_def)
  note R = read_blocks [OF s, of b f]
  have fit: "0 + length (sworndisk_read_blocks s b f) \<le> length (pf_buffer pf)" using R(1) f(2) pf by (simp add: pf_ok_def)
  have sl: "slice (j * DATA_BLOCK_SIZE) DATA_BLOCK_SIZE (overwrite 0 (sworndisk_read_blocks s b f) (pf_buffer pf)) = cipher_at s (b + j)" if "j < f" for j
  proof -
    have "j * DATA_BLOCK_SIZE + DATA_BLOCK_SIZE \<le> length (sworndisk_read_blocks s b f)" using that R(1) by (simp add: sizes)
    then show ?thesis using slice_overwrite_inside [OF fit] read_blocks(2) [OF s that, of b] by simp
  qed
  let ?pf = "bio_prefetcher_fetch N s b pf"
  have P: "pf_begin ?pf = b" "pf_end ?pf = b + f" "pf_buffer ?pf = overwrite 0 (sworndisk_read_blocks s b f) (pf_buffer pf)"
    "nr_fetch ?pf = nr_fetch pf \<or> nr_fetch ?pf = max (nr_fetch pf div 2) (MIN_NR_FETCH + 1)"
    by (simp_all add: bio_prefetcher_fetch_def Let_def f_def)
  have nr: "MIN_NR_FETCH < nr_fetch ?pf \<and> nr_fetch ?pf \<le> MAX_NR_FETCH"
    using P(4) pf by (auto simp: pf_ok_def MIN_NR_FETCH_def MAX_NR_FETCH_def max_def)
  have "x - b < MAX_NR_FETCH \<and> slice ((x - b) * DATA_BLOCK_SIZE) DATA_BLOCK_SIZE (pf_buffer ?pf) = cipher_at s x"
    if "b \<le> x" "x < b + f" for x using that f(2) sl [of "x - b"] by (simp add: P(3))
  then show "pf_ok s ?pf" using nr length_overwrite [OF fit] pf unfolding pf_ok_def bio_prefetcher_incache_def P(1-3) by simp
  show "bio_prefetcher_incache ?pf b" using f(1) by (simp add: bio_prefetcher_incache_def P)
qed

lemma pf_get_ok:
  assumes pf: "pf_ok s pf" and s: "buffer_ok s" and n: "N \<le> 2 ^ 19" "b < N * BLOCKS_PER_SEGMENT"
  obtains pf' where "bio_prefetcher_get N s b pf = (cipher_at s b, pf')" "pf_ok s pf'"
proof (cases "bio_prefetcher_incache pf b")
  case True
  let ?pf = "pf\<lparr>nr_fetch := (if nr_fetch pf div 2 \<le> b - pf_begin pf then min (nr_fetch pf * 2) MAX_NR_FETCH else nr_fetch pf), last_blkaddr := b\<rparr>"
  have "pf_ok s ?pf" using pf by (auto simp: pf_ok_def bio_prefetcher_incache_def MIN_NR_FETCH_def MAX_NR_FETCH_def)
  moreover have "slice ((b - pf_begin ?pf) * DATA_BLOCK_SIZE) DATA_BLOCK_SIZE (pf_buffer ?pf) = cipher_at s b"
    using pf True by (simp add: pf_ok_def)
  ultimately show thesis using True by (intro that [of ?pf]) (simp_all add: bio_prefetcher_get_def Let_def)
next
  case False
  note F = pf_fetch_ok [OF assms]
  have "slice ((b - pf_begin (bio_prefetcher_fetch N s b pf)) * DATA_BLOCK_SIZE) DATA_BLOCK_SIZE (pf_buffer (bio_prefetcher_fetch N s b pf)) = cipher_at s b"
    using F by (simp add: pf_ok_def)
  then show thesis using False F(1) by (intro that [of "bio_prefetcher_fetch N s b pf"]) (simp_all add: bio_prefetcher_get_def Let_def)
qed

section \<open>Reads\<close>

lemma slice_slice: "q + m \<le> n \<Longrightarrow> slice (p + q) m xs = slice q m (slice p n xs)"
  by (simp add: slice_def take_drop min_def drop_drop add.commute)

text \<open>A read of a written block is sent on to the block's place on the volume.\<close>

definition retarget :: "nat \<Rightarrow> bio \<Rightarrow> bio" where
  "retarget p b = bio_set_sector b (p * SECTORS_PER_BLOCK + bio_block_sector_offset b)"

lemma retarget_sectors: "bio_sectors (retarget p b) = bio_sectors b"
  by (simp add: retarget_def bio_set_sector_def bio_sectors_def bio_get_data_len_def)

lemma retarget_facts:
  assumes "p < 2 ^ 29"
  shows "bio_get_sector (retarget p b) = p * SECTORS_PER_BLOCK + bio_block_sector_offset b"
    "bio_block_sector_offset (retarget p b) = bio_block_sector_offset b" "bi_data (retarget p b) = bi_data b" "bi_op (retarget p b) = bi_op b"
    "bio_sectors (retarget p b) = bio_sectors b" "bio_get_data_len (retarget p b) = length (bi_data b)"
proof -
  have off: "bio_block_sector_offset b < SECTORS_PER_BLOCK" by (simp add: bio_block_sector_offset_def SECTORS_PER_BLOCK_def)
  show 1: "bio_get_sector (retarget p b) = p * SECTORS_PER_BLOCK + bio_block_sector_offset b"
    using assms off by (simp add: retarget_def bio_set_sector_def bio_get_sector_def SECTORS_PER_BLOCK_def)
  show "bio_block_sector_offset (retarget p b) = bio_block_sector_offset b"
    using off unfolding bio_block_sector_offset_def [of "retarget p b"] 1 by (simp add: SECTORS_PER_BLOCK_def)
qed (simp_all add: retarget_def bio_set_sector_def bio_sectors_def bio_get_data_len_def)

lemma retarget_data: "\<exists>sec. (retarget p b)\<lparr>bi_data := d\<rparr> = b\<lparr>bi_sector := sec, bi_data := d\<rparr>"
  by (auto simp: retarget_def bio_set_sector_def)

lemma buffer_hit:
  assumes s: "buffer_ok s" and b: "bio_fits m b" and p: "p < 2 ^ 29"
    and hit: "\<not> (bio_get_sector (retarget p b) < cur_segment (vo_buf s) * SECTOES_PER_SEGMENT \<or>
      cur_segment (vo_buf s) * SECTOES_PER_SEGMENT + cur_sector (vo_buf s) < bio_get_sector (retarget p b) + bio_sectors b)"
  shows "(bio_get_sector (retarget p b) - cur_segment (vo_buf s) * SECTOES_PER_SEGMENT) * SECTOR_SIZE = (p - cur_begin s) * DATA_BLOCK_SIZE + bio_at b"
    "(p - cur_begin s) * DATA_BLOCK_SIZE + bio_at b + length (bi_data b) \<le> length (sg_buffer (vo_buf s))" "0 < bio_sectors b \<Longrightarrow> in_buffer s p"
proof -
  let ?off = "bio_block_sector_offset b" and ?n = "bio_sectors b"
  note sec = retarget_facts(1) [OF p, of b]
  have off: "?off < SECTORS_PER_BLOCK" "length (bi_data b) = ?n * SECTOR_SIZE" using b by (simp_all add: bio_block_sector_offset_def SECTORS_PER_BLOCK_def bio_fits_def)
  have cs: "cur_sector (vo_buf s) = cur_count s * SECTORS_PER_BLOCK" "cur_segment (vo_buf s) * SECTOES_PER_SEGMENT = cur_begin s * SECTORS_PER_BLOCK"
    using s by (simp_all add: buffer_ok_def cur_begin_def sizes)
  have le: "cur_begin s * SECTORS_PER_BLOCK \<le> p * SECTORS_PER_BLOCK + ?off"
    "p * SECTORS_PER_BLOCK + ?off + ?n \<le> (cur_begin s + cur_count s) * SECTORS_PER_BLOCK"
    using hit unfolding sec cs by (simp_all add: algebra_simps)
  have pb: "cur_begin s \<le> p" "0 < ?n \<Longrightarrow> p < cur_begin s + cur_count s" using le off by (simp_all add: SECTORS_PER_BLOCK_def)
  show "(bio_get_sector (retarget p b) - cur_segment (vo_buf s) * SECTOES_PER_SEGMENT) * SECTOR_SIZE = (p - cur_begin s) * DATA_BLOCK_SIZE + bio_at b"
    unfolding sec cs using pb(1) by (simp add: sizes)
  have "cur_count s \<le> 1024" using s by (auto simp: buffer_ok_def sizes)
  then have "(p - cur_begin s) * 8 + ?off + ?n \<le> 8192" using le(2) pb(1) by (simp add: SECTORS_PER_BLOCK_def)
  then show "(p - cur_begin s) * DATA_BLOCK_SIZE + bio_at b + length (bi_data b) \<le> length (sg_buffer (vo_buf s))"
    unfolding off(2) using s by (auto simp: buffer_ok_def sizes)
  show "0 < ?n \<Longrightarrow> in_buffer s p" using pb by (simp add: in_buffer_def)
qed

text \<open>The segment buffer answers a read only with the block's plaintext.\<close>

lemma query_ok:
  assumes s: "vol_inv env s M P" and e: "NR_SEGMENT env \<le> 2 ^ 19" and b: "bio_fits m b" "bi_op b = REQ_OP_READ" and x: "M (bio_key b) = Some x"
  shows "segbuf_query_bio (vo_buf s) (retarget (pba x) b) = (Inl ENODATA, retarget (pba x) b) \<or>
    segbuf_query_bio (vo_buf s) (retarget (pba x) b) =
      (Inr (), (retarget (pba x) b)\<lparr>bi_data := slice (bio_at b) (length (bi_data b)) (P (bio_key b))\<rparr>)"
proof (cases "bio_get_sector (retarget (pba x) b) < cur_segment (vo_buf s) * SECTOES_PER_SEGMENT \<or>
    cur_segment (vo_buf s) * SECTOES_PER_SEGMENT + cur_sector (vo_buf s) < bio_get_sector (retarget (pba x) b) + bio_sectors b")
  case False
  have p: "pba x < 2 ^ 29" using log_record(2) [OF vol_inv_log [OF s] x] e by (simp add: BLOCKS_PER_SEGMENT_def)
  note R = retarget_facts [OF p, of b] and H = buffer_hit [OF vol_inv_buffer [OF s] b(1) p False]
  have "slice ((pba x - cur_begin s) * DATA_BLOCK_SIZE + bio_at b) (length (bi_data b)) (sg_buffer (vo_buf s)) =
      slice (bio_at b) (length (bi_data b)) (P (bio_key b))"
  proof (cases "bio_sectors b = 0")
    case True
    then show ?thesis using b(1) by (simp add: slice_def bio_fits_def)
  next
    case False
    then have "slice ((pba x - cur_begin s) * DATA_BLOCK_SIZE) DATA_BLOCK_SIZE (sg_buffer (vo_buf s)) = P (bio_key b)"
      using s x H(3) by (simp add: vol_inv_def vol_mid_def plain_ok_def)
    then show ?thesis using slice_slice [OF bio_fits_facts(1) [OF b(1)]] by metis
  qed
  then have "bio_set_data (retarget (pba x) b) ((pba x - cur_begin s) * DATA_BLOCK_SIZE + bio_at b) (sg_buffer (vo_buf s)) (length (bi_data b)) =
      (retarget (pba x) b)\<lparr>bi_data := slice (bio_at b) (length (bi_data b)) (P (bio_key b))\<rparr>"
    using bio_set_data_read [of "retarget (pba x) b" _ "sg_buffer (vo_buf s)"] H(2) b(2) R by simp
  then show ?thesis using False H(1) by (simp add: segbuf_query_bio_def Let_def R(5,6))
qed (simp add: segbuf_query_bio_def Let_def retarget_sectors)

lemma read_ok:
  assumes r: "ready env s M P n" and pf: "pf_ok s pf" and b: "bio_fits m b" "bi_op b = REQ_OP_READ"
  obtains sec d sd where "sworndisk_do_read True env \<lparr>sd_volume = s, sd_prefetcher = pf\<rparr> b = Some (b\<lparr>bi_sector := sec, bi_data := d\<rparr>, sd)"
    "ready env (sd_volume sd) M P n" "pf_ok (sd_volume sd) (sd_prefetcher sd)"
    "d = (if bio_key b \<in> dom M then slice (bio_at b) (length (bi_data b)) (P (bio_key b)) else bi_data b)"
proof -
  let ?k = "bio_key b"
  obtain t where t: "volume_search env s (bio_get_block_address b) = Some (found (M ?k), s\<lparr>vo_tree := t\<rparr>)" "ready env (s\<lparr>vo_tree := t\<rparr>) M P n"
    "cipher_at (s\<lparr>vo_tree := t\<rparr>) = cipher_at s" by (rule search_ready [OF r])
  define s1 where "s1 = s\<lparr>vo_tree := t\<rparr>"
  have r1: "ready env s1 M P n" and pf1: "pf_ok s1 pf" using t pf by (simp_all add: pf_ok_def s1_def)
  note F = ready_facts [OF r1] and L = vol_inv_log [OF ready_facts(1) [OF r1]]
  show thesis
  proof (cases "M ?k")
    case None
    then show thesis using t(1) r1 pf1
      by (intro that [of "bi_data b" "bi_sector b" "\<lparr>sd_volume = s1, sd_prefetcher = pf\<rparr>"]) (auto simp: sworndisk_do_read_def found_def s1_def)
  next
    case (Some x)
    note R = log_record [OF L Some] and Q = query_ok [OF F(1) F(4) b Some]
    have px: "pba x < 2 ^ 29" using R(2) F(4) by (simp add: BLOCKS_PER_SEGMENT_def)
    note T = retarget_facts [OF px, of b]
    let ?d = "slice (bio_at b) (length (bi_data b)) (P ?k)" and ?b = "retarget (pba x) b"
    have fit: "bio_at b + length (bi_data b) \<le> length (P ?k)" using bio_fits_facts(1) [OF b(1)] R(6) by simp
    have st: "bio_set_data ?b (bio_at b) (P ?k) (length (bi_data b)) = ?b\<lparr>bi_data := ?d\<rparr>"
      using bio_set_data_read [of ?b "bio_at b" "P ?k"] fit b(2) by (simp add: T)
    obtain pf' where g: "bio_prefetcher_get (NR_SEGMENT env) s1 (pba x) pf = (cipher_at s1 (pba x), pf')" "pf_ok s1 pf'"
      by (rule pf_get_ok [OF pf1 F(9) F(4) R(2)])
    have dec: "decrypt (le_cipher (ve_lsm env)) (rkey x) (riv x) (rmac x) (pba x) (cipher_at s1 (pba x)) = (Inr (), P ?k)"
      using R(7) F(2) by (simp add: decrypt_iff env_fit_def)
    have "\<exists>pf'. sworndisk_do_read True env \<lparr>sd_volume = s, sd_prefetcher = pf\<rparr> b = Some (?b\<lparr>bi_data := ?d\<rparr>, \<lparr>sd_volume = s1, sd_prefetcher = pf'\<rparr>) \<and> pf_ok s1 pf'"
      using Q
    proof
      assume "segbuf_query_bio (vo_buf s1) ?b = (Inl ENODATA, ?b)"
      then show ?thesis using t(1) g dec st
        by (intro exI [of _ pf']) (simp add: sworndisk_do_read_def found_def Some retarget_def [symmetric] s1_def [symmetric] T)
    next
      assume "segbuf_query_bio (vo_buf s1) ?b = (Inr (), ?b\<lparr>bi_data := ?d\<rparr>)"
      then show ?thesis using t(1) pf1
        by (intro exI [of _ pf]) (simp add: sworndisk_do_read_def found_def Some retarget_def [symmetric] s1_def [symmetric])
    qed
    then obtain pf' where pf': "sworndisk_do_read True env \<lparr>sd_volume = s, sd_prefetcher = pf\<rparr> b =
      Some (?b\<lparr>bi_data := ?d\<rparr>, \<lparr>sd_volume = s1, sd_prefetcher = pf'\<rparr>)" "pf_ok s1 pf'" by blast
    obtain sec where sec: "?b\<lparr>bi_data := ?d\<rparr> = b\<lparr>bi_sector := sec, bi_data := ?d\<rparr>" using retarget_data by blast
    show thesis using pf' sec r1 Some by (intro that [of ?d sec "\<lparr>sd_volume = s1, sd_prefetcher = pf'\<rparr>"]) auto
  qed
qed

end
