(* ===== verification/Target.thy ===== *)
theory Target
  imports Sworndisk
begin

text \<open>
  The life of a target (\<open>dm_sworndisk_target_ctr\<close> and \<open>dm_sworndisk_target_dtr\<close> of \<open>dm-sworndisk.c\<close>) and its
  worker (\<open>process_deferred_bios\<close>, \<open>async_read\<close>, the \<open>go\<close> of \<open>async.h\<close>): writes are served one after the other
  by the worker, reads by work items of their own. Reads hold the lock of the volume shared and
  writes hold it exclusively, so each of them is one step.
\<close>

section \<open>Construction\<close>

text \<open>What the constructor meets: the number of arguments, the parsed third one, the size of the data
  device in sectors and whether the two devices are found, and the outcomes of the allocations
  and creations on the way.\<close>

record ctr_env =
  ct_argc :: nat
  ct_start :: "nat option"
  ct_alloc :: bool
  ct_data_dev :: "nat option"
  ct_metadata_dev :: bool
  ct_io_client :: bool
  ct_meta :: "bool \<times> metadata_allocs"
  ct_garbage :: superblock
  ct_nr_blocks :: nat
  ct_bdev :: "nat \<Rightarrow> byte list"
  ct_fault :: "nat \<Rightarrow> errno option"
  ct_tfm :: "bool \<times> (nat \<times> nat \<times> nat) option"
  ct_tree :: "bool \<times> bool \<times> bool"
  ct_levels :: "bit_file list"
  ct_stats :: "nat \<Rightarrow> bool"
  ct_sa :: bool
  ct_segbuf :: "bool \<times> bool \<times> bool"
  ct_junk :: "byte list \<times> byte list \<times> byte list"

text \<open>\<open>sworndisk_init\<close> is the constructor after the devices are found: the metadata, the cipher, the index,
  the allocator and the buffer. A failed creation gives \<open>EAGAIN\<close>; what the error path then does to
  the parts made so far is not part of the result.\<close>

definition sworndisk_init :: "ctr_env \<Rightarrow> volume_env \<Rightarrow> bfile \<Rightarrow> bfile \<Rightarrow> rng \<Rightarrow> dm_sworndisk result option" where
  "sworndisk_init ce env data index rng =
     (if \<not> ct_io_client ce then Some (Inl EAGAIN)
      else case metadata_create (fst (ct_meta ce)) (snd (ct_meta ce)) (NR_SEGMENT env) (ct_garbage ce) (ct_nr_blocks ce) (ct_bdev ce) (ct_fault ce) of
        None \<Rightarrow> None
      | Some (Some meta, Some bm) \<Rightarrow>
          (case aes_gcm_cipher_create (fst (ct_tfm ce)) (snd (ct_tfm ce)) of
             None \<Rightarrow> Some (Inl EAGAIN)
           | Some _ \<Rightarrow>
               (case ct_tree ce of (ok, ok_file, ok_levels) \<Rightarrow>
                case lsm_tree_create (ve_lsm env) ok ok_file ok_levels (ct_levels ce) (ct_stats ce)
                       \<lparr>ld_file = index, ld_rng = rng, ld_cat = md_bit_catalogue meta, ld_bm = bm\<rparr> of
                  None \<Rightarrow> None
                | Some None \<Rightarrow> Some (Inl EAGAIN)
                | Some (Some tree) \<Rightarrow>
                    (case sa_create (ct_sa ce) (md_seg_validator meta) bm of
                       None \<Rightarrow> Some (Inl EAGAIN)
                     | Some sa \<Rightarrow>
                         (case (ct_segbuf ce, ct_junk ce) of ((ok1, ok2, ok3), (junk1, junk2, junk3)) \<Rightarrow>
                          case segbuf_create ok1 ok2 ok3 junk1 junk2 env
                                 \<lparr>vo_data = data, vo_sv = md_seg_validator meta, vo_rit = md_rit meta, vo_dst = md_dst meta, vo_tree = tree,
                                  vo_buf = \<lparr>sg_buffer = [], sg_pipe = [], cur_segment = 0, cur_sector = 0\<rparr>, vo_alloc = sa\<rparr> of
                            None \<Rightarrow> None
                          | Some (False, _) \<Rightarrow> Some (Inl EAGAIN)
                          | Some (True, s) \<Rightarrow> Some (Inr \<lparr>sd_volume = s, sd_prefetcher = bio_prefetcher_init junk3\<rparr>)))))
      | Some _ \<Rightarrow> Some (Inl EAGAIN))"

text \<open>The error path frees the prefetcher of the device structure and puts both devices without a
  check, so that an error before both are found follows a null pointer.\<close>

definition dm_sworndisk_target_ctr :: "ctr_env \<Rightarrow> volume_env \<Rightarrow> bfile \<Rightarrow> bfile \<Rightarrow> rng \<Rightarrow> dm_sworndisk result option" where
  "dm_sworndisk_target_ctr ce env data index rng =
     (if ct_argc ce \<noteq> 3 \<or> \<not> ct_alloc ce \<or> ct_start ce = None \<or> \<not> ct_metadata_dev ce then None
      else case ct_data_dev ce of
             None \<Rightarrow> None
           | Some sectors \<Rightarrow> sworndisk_init ce (env\<lparr>NR_SEGMENT := sectors div SECTOES_PER_SEGMENT\<rparr>) data index rng)"

text \<open>The destructor writes the buffer, the memtable and the metadata; what remains are the data device,
  the index device and the metadata device.\<close>

definition dm_sworndisk_target_dtr :: "volume_env \<Rightarrow> dm_sworndisk \<Rightarrow> (bfile \<times> bfile \<times> block_manager) option" where
  "dm_sworndisk_target_dtr env sd =
     (let s = segbuf_destroy (sd_volume sd)
      in map_option (\<lambda>disk. (vo_data s, ld_file disk, metadata_destroy (ld_bm disk)))
           (lsm_tree_destroy (ve_lsm env) (ve_job env) (ve_heap env) (vo_tree s)))"

section \<open>The worker\<close>

definition MAX_READER :: nat where "MAX_READER = 4"

record worker =
  wk_deferred :: "bio list"
  wk_bios :: "bio list"
  wk_reads :: "bio list"
  wk_max_reader :: nat
  wk_ended :: "bio list"
  wk_disk :: dm_sworndisk

definition bio_list_take_safe :: "worker \<Rightarrow> worker" where
  "bio_list_take_safe w = w\<lparr>wk_bios := wk_deferred w, wk_deferred := []\<rparr>"

text \<open>\<open>down_timeout\<close>: the semaphore goes down, or the time runs out; the read is started in both cases.\<close>

definition start_read :: "bool \<Rightarrow> bio \<Rightarrow> worker \<Rightarrow> worker" where
  "start_read timeout b w =
     w\<lparr>wk_bios := tl (wk_bios w), wk_reads := wk_reads w @ [b],
       wk_max_reader := (if timeout then wk_max_reader w else wk_max_reader w - 1)\<rparr>"

definition end_read :: "bio \<Rightarrow> bio \<Rightarrow> dm_sworndisk \<Rightarrow> worker \<Rightarrow> worker" where
  "end_read b b' sd w = w\<lparr>wk_reads := remove1 b (wk_reads w), wk_max_reader := wk_max_reader w + 1,
     wk_ended := wk_ended w @ [b'], wk_disk := sd\<rparr>"

definition end_write :: "bio \<Rightarrow> dm_sworndisk \<Rightarrow> worker \<Rightarrow> worker" where
  "end_write b sd w = w\<lparr>wk_bios := tl (wk_bios w), wk_ended := wk_ended w @ [b], wk_disk := sd\<rparr>"

text \<open>The steps of the worker and of the reads it has started; closures are allocated.\<close>

inductive worker_step :: "byte list \<Rightarrow> volume_env \<Rightarrow> worker \<Rightarrow> worker \<Rightarrow> bool" for junk env where
  take_bios: "wk_bios w = [] \<Longrightarrow> wk_deferred w \<noteq> [] \<Longrightarrow> worker_step junk env w (bio_list_take_safe w)"
| read_bio: "wk_bios w = b # bs \<Longrightarrow> bi_op b = REQ_OP_READ \<Longrightarrow> 0 < wk_max_reader w \<or> timeout \<Longrightarrow>
    worker_step junk env w (start_read timeout b w)"
| write_bio: "wk_bios w = b # bs \<Longrightarrow> bi_op b = REQ_OP_WRITE \<Longrightarrow> sworndisk_do_write junk env (wk_disk w) b = Some sd \<Longrightarrow>
    worker_step junk env w (end_write b sd w)"
| skip_bio: "wk_bios w = b # bs \<Longrightarrow> bi_op b = REQ_OP_OTHER \<Longrightarrow> worker_step junk env w (w\<lparr>wk_bios := bs\<rparr>)"
| async_read: "b \<in> set (wk_reads w) \<Longrightarrow> sworndisk_do_read True env (wk_disk w) b = Some (b', sd) \<Longrightarrow>
    worker_step junk env w (end_read b b' sd w)"

text \<open>The device mapper submits a request, which may arrive at any time.\<close>

definition submit :: "bio \<Rightarrow> worker \<Rightarrow> worker" where
  "submit b w = w\<lparr>wk_deferred := snd (snd (dm_sworndisk_target_map b (wk_deferred w)))\<rparr>"

inductive worker_run :: "byte list \<Rightarrow> volume_env \<Rightarrow> worker \<Rightarrow> bio list \<Rightarrow> worker \<Rightarrow> bool" for junk env where
  run_nil: "worker_run junk env w [] w"
| run_submit: "worker_run junk env w bs w' \<Longrightarrow> worker_run junk env w (bs @ [b]) (submit b w')"
| run_step: "worker_run junk env w bs w' \<Longrightarrow> worker_step junk env w' w'' \<Longrightarrow> worker_run junk env w bs w''"

end
