(* ===== verification/Volume_Start.thy ===== *)
theory Volume_Start
  imports Volume_Io Target
begin

text \<open>
  A volume is born: what \<open>dm_sworndisk_target_ctr\<close> makes of a blank device is a volume ready for requests,
  with nothing in it.
\<close>

section \<open>A blank device\<close>

definition blank :: "nat \<Rightarrow> byte list" where
  "blank _ = replicate SWORNDISK_METADATA_BLOCK_SIZE 0"

lemma blank_invalid: "\<not> superblock_validate (decode_superblock (blank SUPERBLOCK_LOCATION))"
proof -
  have "magic (decode_superblock (blank SUPERBLOCK_LOCATION)) = 0"
    by (simp add: blank_def decode_superblock_def get64_def slice_def SWORNDISK_METADATA_BLOCK_SIZE_def) (simp add: eval_nat_numeral)
  then show ?thesis by (simp add: superblock_validate_def SUPERBLOCK_MAGIC_def)
qed

lemma le_nat_zeros: "le_nat (replicate n 0) = 0"
  by (induction n) simp_all

lemma blank_bits:
  assumes "sv_inv (sv, bm)" "\<And>b. b \<in> sv_span sv \<Longrightarrow> bm_buf bm b = blank b"
  shows "sv_used (sv, bm) = {}"
proof -
  have a: "bm_ok bm" "da_ok (db_array (seg_validity_table sv))" using assms(1) by (simp_all add: sv_inv_def db_inv_def da_inv_def)
  have "bs = replicate (length bs) 0" if "disk_array_get (db_array (seg_validity_table sv)) bm i = Inr bs" for i bs
  proof -
    have i: "i < da_nr_entry (db_array (seg_validity_table sv))" "bs = da_cell (db_array (seg_validity_table sv)) bm i"
      using that a(1) by (simp_all add: disk_array_get_ok split: if_splits)
    have "bm_buf bm (disk_array_entry_block (db_array (seg_validity_table sv)) i) = blank 0"
      using assms(2) da_block_in_span [OF i(1)] by (simp add: blank_def)
    then show ?thesis unfolding i(2) da_cell_def by (simp add: blank_def slice_def)
  qed
  then have "long_of bs = 0" if "disk_array_get (db_array (seg_validity_table sv)) bm i = Inr bs" for i bs
    using le_nat_zeros [of "length bs"] that unfolding long_of_def by fastforce
  then show ?thesis by (auto simp: sv_used_def disk_bitset_get_def split: sum.splits if_splits)
qed

text \<open>The version counter is read before the catalogue is formatted; on a blank device it is zero.\<close>

lemma blank_version:
  assumes bm: "bm_ok bm" "bm_block_size bm = SWORNDISK_METADATA_BLOCK_SIZE"
    and c: "bit_catalogue_create True True True True True (\<lambda>_. True) bm sb = Some cat"
    and b: "\<And>b. b \<in> da_span (cat_bits cat) \<Longrightarrow> bm_buf bm b = blank b"
  shows "max_version cat = 0"
proof -
  obtain t where t: "bit_catalogue_create True True True True True (\<lambda>_. True) bm sb = Some t" "cat_inv (t, bm)"
    by (rule cat_create_ok [OF bm]) (rule that)
  define z where "z = cat\<lparr>max_version := 0\<rparr>"
  have z: "cat_inv (z, bm)" using t c by (simp add: z_def cat_inv_def cat_bits_def)
  have "max_version cat = bitc_get_current_version (\<lambda>_. True) z bm"
    using c by (auto simp: z_def bit_catalogue_create_def bit_catalogue_init_def Let_def split: option.splits)
  moreover have "cat_used (z, bm) = {}"
    unfolding cat_used_def by simp (rule blank_bits, use z b in \<open>simp_all add: cat_inv_def z_def cat_bits_def\<close>)
  ultimately show ?thesis using get_all_ok [OF z] by (simp add: bitc_get_current_version_def)
qed

section \<open>The tables and the index\<close>

lemma layout_catalogue:
  assumes N: "N \<le> 2 ^ 19" and c: "bit_catalogue_create True True True True True oks bm (superblock_layout N x) = Some cat"
  shows "cat_nr_disk_level cat = 2" "cat_file_size cat = lsm_file_size" "DEFAULT_LSM_LEVEL0_NR_FILE \<le> cat_max_fd (superblock_layout N x)"
    "cat_start cat + cat_max_fd (superblock_layout N x) * lsm_file_size + 2 ^ 40 \<le> 2 ^ 64"
    "cat_max_level_nr_file cat = total_bit 2 LSM_TREE_DISK_LEVEL_COMMON_RATIO (N * BLOCKS_PER_SEGMENT)"
proof -
  let ?sb = "superblock_layout N x" and ?cap = "N * BLOCKS_PER_SEGMENT"
  have cap: "?cap \<le> 2 ^ 29" using N by (simp add: BLOCKS_PER_SEGMENT_def)
  have u: "unat (nr_disk_level ?sb) = 2" "unat (common_ratio ?sb) = 10" "unat (max_disk_level_capacity ?sb) = ?cap" "unat (index_region_start ?sb) = 1"
    using cap by (simp_all del: of_nat_mult add: superblock_layout_def Let_def DEFAULT_LSM_TREE_NR_DISK_LEVEL_def LSM_TREE_DISK_LEVEL_COMMON_RATIO_def
        unat_word_of_nat64 SUPERBLOCK_LOCATION_def SUPERBLOCK_BLOCKS_def SWORNDISK_METADATA_BLOCK_SIZE_def)
  have f: "cat_file_size cat = lsm_file_size" "cat_start cat = SWORNDISK_METADATA_BLOCK_SIZE" "cat_nr_disk_level cat = 2"
    "cat_max_level_nr_file cat = total_bit 2 10 ?cap"
    using c by (auto simp: bit_catalogue_create_def bit_catalogue_init_def Let_def u split: option.splits)
  show "cat_nr_disk_level cat = 2" "cat_file_size cat = lsm_file_size"
    "cat_max_level_nr_file cat = total_bit 2 LSM_TREE_DISK_LEVEL_COMMON_RATIO ?cap"
    using f by (simp_all add: LSM_TREE_DISK_LEVEL_COMMON_RATIO_def)
  have m: "cat_max_fd ?sb = 2 * total_bit 2 10 ?cap" by (simp add: cat_max_fd_def u extra_bit_def LSM_TREE_DISK_LEVEL_COMMON_RATIO_def)
  then show "DEFAULT_LSM_LEVEL0_NR_FILE \<le> cat_max_fd ?sb" by (simp add: total_bit_def)
  have "(?cap - 1) div DEFAULT_LSM_FILE_CAPACITY \<le> ?cap" using div_le_dividend le_trans diff_le_self by blast
  then have "total_bit 2 10 ?cap \<le> 2 ^ 29 + 5" using cap by (simp add: total_bit_def DEFAULT_LSM_LEVEL0_NR_FILE_def numeral_2_eq_2)
  then have "cat_max_fd ?sb * lsm_file_size \<le> (2 ^ 30 + 10) * lsm_file_size" unfolding m by (intro mult_le_mono1) simp
  then show "cat_start cat + cat_max_fd ?sb * lsm_file_size + 2 ^ 40 \<le> 2 ^ 64"
    unfolding f(2) by (simp add: lsm_file_size_value SWORNDISK_METADATA_BLOCK_SIZE_def)
qed

lemma below_apart: "A \<subseteq> {a..<b} \<Longrightarrow> B \<subseteq> {c..<d} \<Longrightarrow> b \<le> c \<Longrightarrow> A \<inter> B = {}" for c :: nat
  by (metis atLeastLessThan_iff disjoint_iff in_mono leD order_trans)

lemma below_from: "A \<subseteq> {a..<b} \<Longrightarrow> B \<subseteq> {c..} \<Longrightarrow> b \<le> c \<Longrightarrow> A \<inter> B = {}" for c :: nat
  by (metis atLeastLessThan_iff atLeast_iff disjoint_iff in_mono leD order_trans)

lemma fresh_tables:
  assumes md: "md_inv md bm" "md_placed sb md" "md_ordered sb"
    and n: "sv_nr_segment (md_seg_validator md) = NR_SEGMENT env" "dst_nr_segment (md_dst md) = NR_SEGMENT env"
      "da_nr_entry (rit_array (md_rit md)) = NR_SEGMENT env * BLOCKS_PER_SEGMENT"
    and s: "vo_sv s = md_seg_validator md" "vo_rit s = md_rit md" "vo_dst s = md_dst md" "vo_cat s = md_bit_catalogue md" "vo_bm s = bm"
  shows "tables_ok env s"
proof -
  obtain s0 d0 r0 b0 where I: "0 < s0" "s0 \<le> d0" "d0 \<le> r0" "r0 \<le> b0"
    "da_span (db_array (seg_validity_table (md_seg_validator md))) \<subseteq> {s0..<d0}"
    "da_region (dst_array (md_dst md)) = {d0..<r0}" "da_region (rit_array (md_rit md)) = {r0..<b0}"
    "da_region (cat_bits (md_bit_catalogue md)) \<subseteq> {b0..}" "da_region (file_stats (md_bit_catalogue md)) \<subseteq> {b0..}"
    by (rule md_intervals [OF md(2,3)]) (rule that)
  have ok: "da_ok (dst_array (md_dst md))" "da_ok (rit_array (md_rit md))" "da_ok (cat_bits (md_bit_catalogue md))" "da_ok (file_stats (md_bit_catalogue md))"
    using md(1) by (simp_all add: md_inv_def dst_inv_def dst_ok_def da_sized_def da_inv_def cat_inv_def sv_inv_def db_inv_def cat_bits_def)
  have sp: "da_span (dst_array (md_dst md)) \<subseteq> {d0..<r0}" "da_span (rit_array (md_rit md)) \<subseteq> {r0..<b0}" "cat_span (md_bit_catalogue md) \<subseteq> {b0..}"
    using da_span_region [OF ok(1)] da_span_region [OF ok(2)] da_span_region [OF ok(3)] da_span_region [OF ok(4)] I(8,9)
    unfolding cat_span_def I(6,7) by (simp_all add: subset_trans [of _ _ "{b0..}"])
  have "spans_apart s" unfolding spans_apart_def s
    using below_apart [OF I(5) sp(1) order_refl] below_apart [OF I(5) sp(2) I(3)] below_from [OF I(5) sp(3)] below_apart [OF sp(1,2) order_refl]
      below_from [OF sp(2,3) order_refl] below_from [OF sp(1,3) I(4)] I(3,4) by (simp add: Int_commute)
  moreover have "length (node_list (md_dst md)) = dst_nr_segment (md_dst md)" using md(1) by (simp add: md_inv_def dst_inv_def)
  ultimately show ?thesis unfolding tables_ok_def dst_wf_def s n using md(1) by (simp add: md_inv_def dst_inv_def n)
qed

lemma fresh_log:
  assumes "vo_used s = {}" "dst_inv (vo_dst s) (vo_bm s)" "dst_nr_segment (vo_dst s) = NR_SEGMENT env"
    "dst_entries (vo_dst s, vo_bm s) = replicate (NR_SEGMENT env) \<lparr>nr_valid_block = 0, block_validity_table = 0\<rparr>"
  shows "vol_log env s {} Map.empty P"
proof -
  have e: "vo_entry s i = \<lparr>nr_valid_block = 0, block_validity_table = 0\<rparr>" if "i < NR_SEGMENT env" for i
    using assms(3) arg_cong [OF assms(4), of "\<lambda>xs. xs ! i"] that by (simp add: dst_entries_def)
  have nl: "node_list (vo_dst s) = map (\<lambda>i. victim_of i (vo_entry s i)) [0..<NR_SEGMENT env]" using assms(2,3) by (simp add: dst_inv_def)
  show ?thesis
  proof (rule log_okI)
    fix b assume "b < NR_SEGMENT env * BLOCKS_PER_SEGMENT" "valid_block (vo_entry s) b"
    then show "\<exists>r. Map.empty (of_nat (vo_lba s b)) = Some r \<and> pba r = b"
      using e [of "block_to_segment b"] by (simp add: valid_block_def valid_offsets_def block_to_segment_def less_mult_imp_div_less)
  qed (use assms(1) e nl in \<open>simp_all add: valid_offsets_def\<close>)
qed

section \<open>The first segment\<close>

definition fill :: "byte list \<Rightarrow> byte list \<Rightarrow> volume \<Rightarrow> volume" where
  "fill a b s = s\<lparr>vo_buf := (vo_buf s)\<lparr>cur_sector := 0, sg_buffer := a, sg_pipe := b\<rparr>\<rparr>"

text \<open>The allocation of the first segment does not look at the buffer, which does not exist yet.\<close>

lemma alloc_fill:
  assumes "sa_alloc_with (\<lambda>_. None) env (fill a b s) = Some (Inr (), s')"
  obtains s1 where "sa_alloc_with gc env s = Some (Inr (), s1)" "fill a b s1 = s'"
  using assms by (auto simp: sa_alloc_with_def fill_def set_bm_def sa_will_trigger_gc_def Let_def split: prod.splits sum.splits if_splits)

lemma first_segment:
  assumes ix: "index_ok env s Map.empty" and log: "vol_log env s {} Map.empty P" and u: "vo_used s = {}" "nr_valid_segment (vo_alloc s) = 0"
    and st: "sa_status (vo_alloc s) = SEGMENT_ALLOCATING" and e: "env_fit env" "18 < NR_SEGMENT env"
    and junk: "SEGMENT_BUFFER_SIZE \<le> length junk1" "SEGMENT_BUFFER_SIZE \<le> length junk2"
    and room: "tree_room (vo_tree s) (4 * n)"
  obtains s' where "segbuf_create True True True junk1 junk2 env s = Some (True, s')" "ready env s' Map.empty P n"
proof -
  let ?a = "take SEGMENT_BUFFER_SIZE junk1" and ?b = "take SEGMENT_BUFFER_SIZE junk2"
  let ?f = "fill ?a ?b s"
  have F: "index_ok env ?f Map.empty" "buffer_ok ?f" "cur_count ?f = 0" "vol_log env ?f {} Map.empty P" "nr_valid_segment (vo_alloc ?f) = card (vo_used ?f)"
    using ix log u junk by (simp_all add: fill_def buffer_ok_def cur_count_def log_ok_def vo_lba_def)
  have c: "card (vo_used ?f) < NR_SEGMENT env" using u e(2) by (simp add: fill_def)
  obtain s' where s': "sa_alloc_with (\<lambda>_. None) env ?f = (if gc_triggered env s' then map_option (\<lambda>s4. (Inr (), s4)) None else Some (Inr (), s'))"
    "vol_inv env s' Map.empty P" "cur_count s' = 0" "vo_used s' = insert (cur_segment (vo_buf s')) (vo_used ?f)"
    "\<And>n. tree_room (vo_tree s') n = tree_room (vo_tree ?f) n" "sa_status (vo_alloc s') = sa_status (vo_alloc ?f)"
    by (rule alloc_ok [OF F c, where gc = "\<lambda>_. None"]) (rule that)
  have one: "card (vo_used s') = 1" using s'(4) u(1) by (simp add: fill_def)
  then have "nr_valid_segment (vo_alloc s') = 1" using s'(2) by (simp add: vol_inv_def vol_mid_def)
  then have "\<not> gc_triggered env s'" using e by (simp add: gc_triggered_def sa_will_trigger_gc_def GC_THREADHOLD_def sub64_less env_fit_def)
  then have al: "sa_alloc_with (\<lambda>_. None) env ?f = Some (Inr (), s')" using s'(1) by simp
  obtain s1 where s1: "sa_alloc_with (foreground_gc_with (\<lambda>victim s. if v_nr_valid_block victim = 0 then Some s else None) env) env s = Some (Inr (), s1)"
    "fill ?a ?b s1 = s'" by (rule alloc_fill [OF al])
  have "segbuf_create True True True junk1 junk2 env s = Some (True, s')"
    using s1 by (simp add: segbuf_create_def segbuf_init_def fill_def)
  moreover have "ready env s' Map.empty P n"
    using s'(2,3,5,6) st e one room by (simp add: ready_def fill_def gc_room_def vol_pos_def)
  ultimately show thesis by (rule that)
qed

end
