(* ===== verification/Spec2Isabelle.thy ===== *)
theory Spec2Isabelle
  imports Bloom_Filter Memtable Block_Lock Checkpoint Metadata Bit_Index Volume_Start
begin

text \<open>
  Verification of SwornDisk, a device-mapper target that encrypts and authenticates a
  log-structured block device.
\<close>

end
